(* ===== verification/Rc_Prelude.thy ===== *)
theory Rc_Prelude
  imports Main "HOL-Library.Word"
begin

text \<open>
  Shared vocabulary of the development: the machine integers of the crate (\<open>u32\<close> for the
  reference-count word, \<open>usize\<close> for queue stamps, 64 bits wide), the build profile with its
  checked arithmetic, the faults an operation can end in, and the lemmas on masks and
  powers of two that the bit manipulation of the components rests on.
\<close>

unbundle bit_operations_syntax

section \<open>Machine integers, build profiles, faults\<close>

type_synonym u32 = "32 word"
type_synonym usize = "64 word"

text \<open>
  Rust's two profiles: with \<open>Debug\<close> an arithmetic overflow and a failing
  \<open>debug_assert!\<close> panic; with \<open>Release\<close> arithmetic wraps and \<open>debug_assert!\<close> is
  compiled out, so that what it guarded is undefined behaviour.
\<close>

datatype profile = Debug | Release

datatype fault =
    Overflow        \<comment> \<open>panic: attempt to add or subtract with overflow\<close>
  | Assert_Failed   \<comment> \<open>panic: a failing \<open>assert!\<close>, in every profile\<close>
  | Debug_Assert    \<comment> \<open>panic: a failing \<open>debug_assert!\<close>\<close>
  | Undefined       \<comment> \<open>undefined behaviour: a bad index, uninitialised or freed memory\<close>

definition checked_add :: "profile \<Rightarrow> 'w::len word \<Rightarrow> 'w word \<Rightarrow> fault + 'w word" where
  "checked_add pr a b =
     (if pr = Debug \<and> 2 ^ LENGTH('w) \<le> uint a + uint b then Inl Overflow else Inr (a + b))"

definition checked_sub :: "profile \<Rightarrow> 'w::len word \<Rightarrow> 'w word \<Rightarrow> fault + 'w word" where
  "checked_sub pr a b = (if pr = Debug \<and> a < b then Inl Overflow else Inr (a - b))"

named_theorems arith_ok "checked arithmetic that does not overflow"

lemma uint_sum_overflow: "2 ^ LENGTH('w) \<le> uint a + uint b \<longleftrightarrow> 2 ^ LENGTH('w) \<le> unat a + unat b"
  for a b :: "'w::len word"
proof -
  have "uint a + uint b = int (unat a + unat b)" by simp
  moreover have "(2::int) ^ LENGTH('w) = int (2 ^ LENGTH('w))" by simp
  ultimately show ?thesis by (simp only: of_nat_le_iff)
qed

lemma checked_add_ok [arith_ok]:
  "unat a + unat b < 2 ^ LENGTH('w) \<Longrightarrow> checked_add pr a b = Inr (a + b)"
  for a b :: "'w::len word"
  by (simp add: checked_add_def uint_sum_overflow)

lemma checked_add_release [simp]: "checked_add Release a b = Inr (a + b)"
  by (simp add: checked_add_def)

lemma checked_sub_ok [arith_ok]: "b \<le> a \<Longrightarrow> checked_sub pr a b = Inr (a - b)"
  by (simp add: checked_sub_def not_less)

lemma checked_add_overflow:
  "2 ^ LENGTH('w) \<le> unat a + unat b \<Longrightarrow> checked_add Debug a b = Inl Overflow"
  for a b :: "'w::len word"
  by (simp add: checked_add_def uint_sum_overflow)

section \<open>Masks and powers of two\<close>

lemma unat_and_mask: "unat (w AND mask k) = unat w mod 2 ^ k"
  for w :: "'w::len word"
  by (metis take_bit_eq_mask take_bit_eq_mod unsigned_take_bit_eq)

lemma and_not_mask_eq: "w AND NOT (mask k) = w - (w AND mask k)"
  for w :: "'w::len word"
proof -
  have "(w AND NOT (mask k)) + (w AND mask k) = (w AND NOT (mask k)) OR (w AND mask k)"
    by (rule disjunctive_add) (simp add: bit_simps)
  also have "\<dots> = w"
    by (rule bit_word_eqI) (auto simp add: bit_simps)
  finally show ?thesis by (simp add: eq_diff_eq)
qed

lemma pow2_minus_1_mask: "2 ^ k - 1 = (mask k :: 'w::len word)"
  by (simp add: mask_eq_decr_exp)

lemma word_of_nat_pow2: "(word_of_nat (2 ^ k) :: 'w::len word) = 2 ^ k"
  by simp

lemma word_of_nat_eq_iff_mod:
  "(word_of_nat a :: 'w::len word) = word_of_nat b \<longleftrightarrow> a mod 2 ^ LENGTH('w) = b mod 2 ^ LENGTH('w)"
  by (metis unat_of_nat word_unat_eq_iff)

text \<open>A value below \<open>2 ^ k\<close> added to a multiple of \<open>2 ^ k\<close>: the two parts stay apart.\<close>

lemma unat_low_part:
  assumes "r < 2 ^ k" "k \<le> LENGTH('w)"
  shows "unat (word_of_nat (l * 2 ^ k + r) AND mask k :: 'w::len word) = r"
proof -
  have "(2::nat) ^ k dvd 2 ^ LENGTH('w)"
    using assms(2) by (rule le_imp_power_dvd)
  then have "(l * 2 ^ k + r) mod 2 ^ LENGTH('w) mod 2 ^ k = (l * 2 ^ k + r) mod 2 ^ k"
    by (rule mod_mod_cancel)
  with assms(1) show ?thesis
    by (simp only: unat_and_mask unat_of_nat) simp
qed

lemma low_part:
  assumes "r < 2 ^ k" "k \<le> LENGTH('w)"
  shows "word_of_nat (l * 2 ^ k + r) AND mask k = (word_of_nat r :: 'w::len word)"
proof -
  have "word_of_nat (unat (word_of_nat (l * 2 ^ k + r) AND mask k :: 'w word)) = (word_of_nat r :: 'w word)"
    by (simp only: unat_low_part [OF assms])
  then show ?thesis by (simp only: of_nat_unat ucast_id)
qed

lemma high_part:
  assumes "r < 2 ^ k" "k \<le> LENGTH('w)"
  shows "word_of_nat (l * 2 ^ k + r) AND NOT (mask k) = (word_of_nat (l * 2 ^ k) :: 'w::len word)"
  by (simp only: and_not_mask_eq low_part [OF assms]) simp

section \<open>Loops\<close>

text \<open>
  A \<open>loop\<close> of the source is the iteration of its body: a pass ends by leaving the loop
  with a result or by going round with the new values of the loop's variables. The body itself
  may contain a call that does not return (\<open>None\<close>); a loop that goes round for ever does
  not return either.
\<close>

datatype ('s, 'r) pass = Again 's | Leave 'r

partial_function (option) run_loop :: "('s \<Rightarrow> ('s, 'r) pass option) \<Rightarrow> 's \<Rightarrow> 'r option" where
  "run_loop body s =
     (case body s of
        None \<Rightarrow> None
      | Some (Leave r) \<Rightarrow> Some r
      | Some (Again s') \<Rightarrow> run_loop body s')"

declare run_loop.simps [code]

lemma run_loop_leave: "body s = Some (Leave r) \<Longrightarrow> run_loop body s = Some r"
  by (simp add: run_loop.simps [of body s])

lemma run_loop_again: "body s = Some (Again s') \<Longrightarrow> run_loop body s = run_loop body s'"
  by (simp add: run_loop.simps [of body s])

text \<open>Total correctness: an invariant, and a measure that every further pass decreases.\<close>

lemma run_loop_total:
  fixes m :: "'s \<Rightarrow> nat"
  assumes "I s"
    and "\<And>s. I s \<Longrightarrow> (\<exists>r. body s = Some (Leave r) \<and> Q r) \<or>
                     (\<exists>s'. body s = Some (Again s') \<and> I s' \<and> m s' < m s)"
  shows "\<exists>r. run_loop body s = Some r \<and> Q r"
  using assms(1)
proof (induction "m s" arbitrary: s rule: less_induct)
  case less
  from assms(2) [OF less.prems] show ?case
  proof (elim disjE exE conjE)
    fix r assume "body s = Some (Leave r)" "Q r"
    then show ?thesis by (simp add: run_loop_leave)
  next
    fix s' assume "body s = Some (Again s')" "I s'" "m s' < m s"
    with less.hyps show ?thesis by (simp add: run_loop_again)
  qed
qed

text \<open>Partial correctness: what every pass keeps holds when the loop is left.\<close>

lemma run_loop_partial:
  assumes ret: "run_loop body s = Some r"
    and "I s"
    and again: "\<And>s s'. I s \<Longrightarrow> body s = Some (Again s') \<Longrightarrow> I s'"
    and leave: "\<And>s r. I s \<Longrightarrow> body s = Some (Leave r) \<Longrightarrow> Q r"
  shows "Q r"
proof -
  have "I s \<longrightarrow> Q r"
  proof (rule run_loop.raw_induct [where P = "\<lambda>b s r. b = body \<longrightarrow> I s \<longrightarrow> Q r", OF _ ret, THEN mp, OF _ refl])
    fix f b s r
    assume IH: "\<And>b s r. f b s = Some r \<Longrightarrow> b = body \<longrightarrow> I s \<longrightarrow> Q r"
      and eq: "(case b s of None \<Rightarrow> None | Some (Again s') \<Rightarrow> f b s' | Some (Leave r) \<Rightarrow> Some r) = Some r"
    show "b = body \<longrightarrow> I s \<longrightarrow> Q r"
      using eq IH again leave by (auto split: option.splits pass.splits)
  qed
  with \<open>I s\<close> show ?thesis by simp
qed

text \<open>Divergence: a loop that can never be left from a closed set of states does not return.\<close>

lemma run_loop_diverges:
  assumes "I s" and "\<And>s. I s \<Longrightarrow> \<exists>s'. body s = Some (Again s') \<and> I s'"
  shows "run_loop body s = None"
proof (cases "run_loop body s")
  case (Some r)
  have False
    by (rule run_loop_partial [where I = I and Q = "\<lambda>_. False", OF Some])
      (use assms in \<open>fastforce+\<close>)
  then show ?thesis ..
qed

end
