(* ===== verification/Backoff.thy ===== *)
theory Backoff
  imports Rc_Prelude
begin

text \<open>
  \<open>src/backoff.rs\<close> and the macro \<open>slight_spin!\<close> of \<open>src/macros.rs\<close>: the spin/yield
  counter the loops of the crate keep. A pause has no effect on memory, so the model returns
  what it did: the number of \<open>spin_loop\<close> hints it executed, whether it ran
  \<open>yield_now!\<close>, and the new counter or the overflow panic of its increment.
\<close>

section \<open>Operations\<close>

definition YIELD_POINT :: usize where
  "YIELD_POINT = 64"

text \<open>The number of iterations of \<open>slight_spin!(attempts)\<close>; the literals are \<open>i32\<close>.\<close>

definition slight_spin :: "usize \<Rightarrow> nat" where
  "slight_spin attempts = unat (push_bit (unat (attempts AND (push_bit 3 1 - 1))) (2 :: 32 word))"

record backoff =
  calls :: usize

definition new_backoff :: backoff where
  "new_backoff = \<lparr>calls = 0\<rparr>"

definition spin :: "profile \<Rightarrow> backoff \<Rightarrow> nat \<times> (fault + backoff)" where
  "spin pr b =
     (slight_spin (calls b),
      case checked_add pr (calls b) 1 of Inl e \<Rightarrow> Inl e | Inr c \<Rightarrow> Inr (b\<lparr>calls := c\<rparr>))"

definition reset :: "backoff \<Rightarrow> backoff" where
  "reset b = b\<lparr>calls := 0\<rparr>"

definition snooze :: "profile \<Rightarrow> backoff \<Rightarrow> nat \<times> bool \<times> (fault + backoff)" where
  "snooze pr b =
     (let spins = slight_spin (calls b) in
      if calls b < YIELD_POINT
      then (spins, False,
            case checked_add pr (calls b) 1 of Inl e \<Rightarrow> Inl e | Inr c \<Rightarrow> Inr (b\<lparr>calls := c\<rparr>))
      else (spins, True, Inr (reset b)))"

text \<open>The result of a pause alone, for the loops that go on with it.\<close>

definition spun :: "profile \<Rightarrow> backoff \<Rightarrow> fault + backoff" where
  "spun pr b = snd (spin pr b)"

definition snoozed :: "profile \<Rightarrow> backoff \<Rightarrow> fault + backoff" where
  "snoozed pr b = snd (snd (snooze pr b))"

section \<open>Bounds\<close>

lemma slight_spin_power: "slight_spin a = 2 * 2 ^ (unat a mod 8)"
proof -
  have idx: "unat (a AND (push_bit 3 1 - 1)) = unat a mod 8"
    using unat_and_mask [of a 3] by (simp add: mask_eq_decr_exp)
  define r where "r = unat a mod 8"
  have "r < 8" by (simp add: r_def)
  then have "r = 0 \<or> r = 1 \<or> r = 2 \<or> r = 3 \<or> r = 4 \<or> r = 5 \<or> r = 6 \<or> r = 7"
    by arith
  then have "unat (push_bit r (2 :: 32 word)) = 2 * 2 ^ r" by auto
  then show ?thesis by (simp only: slight_spin_def idx r_def)
qed

lemma slight_spin_bounds: "2 \<le> slight_spin a" "slight_spin a \<le> 256"
proof -
  have "(2::nat) ^ (unat a mod 8) \<le> 2 ^ 7"
    by (rule power_increasing) simp_all
  then show "2 \<le> slight_spin a" "slight_spin a \<le> 256"
    by (simp_all add: slight_spin_power)
qed

lemma spun_ok: "unat (calls b) + 1 < 2 ^ 64 \<Longrightarrow> spun pr b = Inr \<lparr>calls = calls b + 1\<rparr>"
  by (simp add: spun_def spin_def arith_ok)

text \<open>A backoff that only snoozes never leaves the range \<open>0..=64\<close>, so it never overflows.\<close>

definition snoozing :: "backoff \<Rightarrow> bool" where
  "snoozing b \<longleftrightarrow> calls b \<le> YIELD_POINT"

lemma snoozed_result:
  assumes "snoozing b"
  shows "snoozed pr b = Inr \<lparr>calls = (if calls b < 64 then calls b + 1 else 0)\<rparr>"
proof (cases "calls b < 64")
  case True
  then have "unat (calls b) < 64" by (simp add: word_less_nat_alt)
  with True show ?thesis
    by (simp add: snoozed_def snooze_def YIELD_POINT_def arith_ok)
qed (simp add: snoozed_def snooze_def YIELD_POINT_def reset_def)

lemma snoozed_snoozing:
  assumes "snoozing b" "snoozed pr b = Inr b'"
  shows "snoozing b'"
proof -
  have "calls b + 1 \<le> 64" if "calls b < 64"
    using that by (rule inc_le)
  with assms show ?thesis
    by (auto simp: snoozed_result snoozing_def YIELD_POINT_def split: if_splits)
qed

section \<open>Properties\<close>

text \<open>A pause executes between 2 and 256 spin hints, and its counter overflows (a panic) exactly in a debug
  build at the largest machine word; a release build wraps.\<close>

theorem spin_bounds:
  "fst (spin pr b) \<in> {2..256} \<and> fst (snooze pr b) \<in> {2..256} \<and>
   (snd (spin pr b) = Inl Overflow \<longleftrightarrow> pr = Debug \<and> unat (calls b) = 2 ^ 64 - 1)"
proof (intro conjI)
  show "fst (spin pr b) \<in> {2..256}" "fst (snooze pr b) \<in> {2..256}"
    using slight_spin_bounds [of "calls b"] by (auto simp: spin_def snooze_def Let_def)
  have lt: "unat (calls b) < 2 ^ 64" using unsigned_less [of "calls b", where 'a = nat] by simp
  show "snd (spin pr b) = Inl Overflow \<longleftrightarrow> pr = Debug \<and> unat (calls b) = 2 ^ 64 - 1"
  proof (cases "unat (calls b) = 2 ^ 64 - 1")
    case True
    then show ?thesis by (cases pr) (simp_all add: spin_def checked_add_overflow)
  next
    case False
    with lt have "unat (calls b) + 1 < 2 ^ 64" by linarith
    with False show ?thesis by (simp add: spin_def arith_ok)
  qed
qed

text \<open>The backoff after \<open>n\<close> snoozes.\<close>

fun snooze_many :: "profile \<Rightarrow> nat \<Rightarrow> backoff \<Rightarrow> fault + backoff" where
  "snooze_many pr 0 b = Inr b"
| "snooze_many pr (Suc n) b = (case snooze_many pr n b of Inl e \<Rightarrow> Inl e | Inr b \<Rightarrow> snoozed pr b)"

text \<open>A backoff that only snoozes never overflows, in any build and however long: it counts 64 spins,
  yields, and starts again, so every 65th snooze and no other yields to the scheduler.\<close>

theorem snooze_cycle:
  "snooze_many pr n new_backoff = Inr \<lparr>calls = word_of_nat (n mod 65)\<rparr> \<and>
   fst (snd (snooze pr \<lparr>calls = word_of_nat (n mod 65)\<rparr>)) = (n mod 65 = 64)"
proof
  have small: "unat (word_of_nat (n mod 65) :: usize) = n mod 65" for n
  proof -
    have "n mod 65 < 2 ^ 64" by (rule less_trans [of _ 65]) simp_all
    then show ?thesis by (simp only: unat_of_nat) simp
  qed
  have lt: "(word_of_nat (n mod 65) :: usize) < 64 \<longleftrightarrow> n mod 65 \<noteq> 64" for n
    unfolding word_less_nat_alt small using mod_less_divisor [of 65 n] by auto
  show "snooze_many pr n new_backoff = Inr \<lparr>calls = word_of_nat (n mod 65)\<rparr>"
  proof (induction n)
    case (Suc n)
    have "snoozing \<lparr>calls = word_of_nat (n mod 65)\<rparr>"
      unfolding snoozing_def YIELD_POINT_def by (simp add: word_le_nat_alt small)
    with Suc.IH lt [of n] show ?case by (cases "n mod 65 = 64") (auto simp: snoozed_result mod_Suc)
  qed (simp add: new_backoff_def)
  show "fst (snd (snooze pr \<lparr>calls = word_of_nat (n mod 65)\<rparr>)) = (n mod 65 = 64)"
    using lt [of n] by (auto simp: snooze_def YIELD_POINT_def Let_def)
qed

end
