(* ===== verification/Ref_State.thy ===== *)
theory Ref_State
  imports Rc_Prelude
begin

text \<open>
  The layout of the reference-count word: \<open>src/consts.rs\<close>, the macros
  \<open>standard_ref_count!\<close> and \<open>block_state!\<close> of \<open>src/macros.rs\<close>, and the enum
  \<open>State\<close> of \<open>src/lib.rs\<close>. Bit 0 says whether references are blocked, the other 31 bits
  count the standard references. The lemmas read a word as the pair of the two parts and give
  the effect of each bit operation of the crate on that pair.
\<close>

section \<open>Constants and macros\<close>

definition REF_BLOCKED :: u32 where "REF_BLOCKED = 1"

definition REF_ALLOWED :: u32 where "REF_ALLOWED = 0"

definition REF_COUNT_MASK :: u32 where "REF_COUNT_MASK = NOT 1"

definition REF_COUNT_SHIFT :: nat where "REF_COUNT_SHIFT = 1"

definition REF_INCR :: u32 where "REF_INCR = push_bit REF_COUNT_SHIFT 1"

definition STATE_MASK :: u32 where "STATE_MASK = 1"

lemmas ref_consts =
  REF_BLOCKED_def REF_ALLOWED_def REF_COUNT_MASK_def REF_COUNT_SHIFT_def REF_INCR_def STATE_MASK_def

definition standard_ref_count :: "u32 \<Rightarrow> u32" where
  "standard_ref_count state = drop_bit REF_COUNT_SHIFT state"

definition block_state :: "u32 \<Rightarrow> u32" where
  "block_state state = state AND STATE_MASK"

section \<open>The enum State\<close>

datatype ref_state = Blocked | Allowed

definition discriminant :: "ref_state \<Rightarrow> u32" where
  "discriminant s = (case s of Blocked \<Rightarrow> 1 | Allowed \<Rightarrow> 0)"

text \<open>\<open>transmute\<close> to the enum is undefined on a value that is no discriminant.\<close>

definition transmute_state :: "u32 \<Rightarrow> fault + ref_state" where
  "transmute_state w =
     (if w = discriminant Blocked then Inr Blocked
      else if w = discriminant Allowed then Inr Allowed
      else Inl Undefined)"

definition from_raw :: "u32 \<Rightarrow> fault + ref_state" where
  "from_raw state = transmute_state (block_state state)"

definition state_is_allowed :: "ref_state \<Rightarrow> bool" where
  "state_is_allowed s = (case s of Allowed \<Rightarrow> True | _ \<Rightarrow> False)"

definition state_is_blocked :: "ref_state \<Rightarrow> bool" where
  "state_is_blocked s = (case s of Blocked \<Rightarrow> True | _ \<Rightarrow> False)"

text \<open>\<open>Display\<close> and \<open>Debug\<close> both expand the macro \<open>__state_format!\<close>.\<close>

definition state_format :: "ref_state \<Rightarrow> string" where
  "state_format s = (case s of Allowed \<Rightarrow> ''allowed'' | Blocked \<Rightarrow> ''blocked'')"

section \<open>The word as a pair\<close>

text \<open>The number of standard references and the block bit a word stands for.\<close>

definition refs_of :: "u32 \<Rightarrow> nat" where
  "refs_of w = unat w div 2"

definition is_blk :: "u32 \<Rightarrow> bool" where
  "is_blk w \<longleftrightarrow> odd (unat w)"

definition word_state :: "nat \<Rightarrow> bool \<Rightarrow> u32" where
  "word_state n b = word_of_nat (2 * n + of_bool b)"

definition MAX_REFS :: nat where
  "MAX_REFS = 2 ^ 31 - 1"

named_theorems word_pair "the count word read as (references, block bit)"

lemma unat_word_state: "n \<le> MAX_REFS \<Longrightarrow> unat (word_state n b) = 2 * n + of_bool b"
  by (cases b) (simp_all only: word_state_def MAX_REFS_def unat_of_nat of_bool_eq, simp_all)

lemma refs_of_word_state [word_pair]: "n \<le> MAX_REFS \<Longrightarrow> refs_of (word_state n b) = n"
  and is_blk_word_state [word_pair]: "n \<le> MAX_REFS \<Longrightarrow> is_blk (word_state n b) = b"
  by (auto simp: refs_of_def is_blk_def unat_word_state)

lemma odd_unat: "odd (unat w) \<longleftrightarrow> odd w" for w :: "'w::len word"
  using bit_unsigned_iff [of w 0, where 'a = nat] by (simp add: bit_0)

lemma unat_lt: "unat w < 2 ^ 32" for w :: u32
  using unsigned_less [of w, where 'a = nat] by simp

lemma refs_of_le: "refs_of w \<le> MAX_REFS"
  using unat_lt [of w] by (simp add: refs_of_def MAX_REFS_def)

lemma word_state_pair: "word_state (refs_of w) (is_blk w) = w"
proof -
  have "2 * (unat w div 2) + of_bool (odd (unat w)) = unat w"
    by (cases "odd (unat w)") auto
  then show ?thesis by (simp only: word_state_def refs_of_def is_blk_def of_nat_unat) simp
qed

lemma word_cases [case_names pair]:
  obtains n b where "w = word_state n b" "n \<le> MAX_REFS"
  by (rule that [OF word_state_pair [symmetric] refs_of_le])

lemma word_state_eq_iff [word_pair]:
  "n \<le> MAX_REFS \<Longrightarrow> m \<le> MAX_REFS \<Longrightarrow> word_state n b = word_state m c \<longleftrightarrow> n = m \<and> b = c"
proof -
  assume n: "n \<le> MAX_REFS" and m: "m \<le> MAX_REFS"
  have "n = m \<and> b = c" if "word_state n b = word_state m c"
    using refs_of_word_state [OF n, of b] is_blk_word_state [OF n, of b]
    unfolding that refs_of_word_state [OF m] is_blk_word_state [OF m] by simp
  then show "word_state n b = word_state m c \<longleftrightarrow> n = m \<and> b = c" by blast
qed

lemma unat_standard_ref_count: "unat (standard_ref_count w) = refs_of w"
  by (simp only: standard_ref_count_def REF_COUNT_SHIFT_def refs_of_def unat_drop_bit_eq)
    (simp add: drop_bit_eq_div)

lemma standard_ref_count_word_state [word_pair]:
  "n \<le> MAX_REFS \<Longrightarrow> standard_ref_count (word_state n b) = word_of_nat n"
  using unat_standard_ref_count [of "word_state n b"] refs_of_word_state [of n b]
  by (metis of_nat_unat ucast_id)

lemma standard_ref_count_eq_0: "standard_ref_count w = 0 \<longleftrightarrow> refs_of w = 0"
  by (metis unat_0_iff unat_standard_ref_count)

lemma block_state_eq: "block_state w = of_bool (is_blk w)"
  by (simp add: block_state_def STATE_MASK_def is_blk_def and_one_eq mod_2_eq_odd odd_unat)

lemma block_state_word_state [word_pair]:
  "n \<le> MAX_REFS \<Longrightarrow> block_state (word_state n b) = of_bool b"
  by (simp add: block_state_eq is_blk_word_state)

lemma mask_word_state [word_pair]:
  "n \<le> MAX_REFS \<Longrightarrow> word_state n b AND REF_COUNT_MASK = word_state n False"
proof -
  assume n: "n \<le> MAX_REFS"
  have "word_state n b AND NOT (mask 1) = word_state n False"
    using high_part [of "of_bool b" 1 n, where 'w = 32]
    by (simp add: word_state_def mult.commute del: mask_1)
  then show "word_state n b AND REF_COUNT_MASK = word_state n False"
    by (simp add: REF_COUNT_MASK_def)
qed

lemma blocked_word_state [word_pair]:
  "word_state n False OR REF_BLOCKED = word_state n True"
proof -
  have "even (word_state n False)" by (simp add: word_state_def)
  then have "word_state n False OR 1 = word_state n False + 1"
    by (simp add: or_one_eq)
  then show "word_state n False OR REF_BLOCKED = word_state n True" by (simp add: REF_BLOCKED_def word_state_def)
qed

lemma incr_word_state [word_pair]: "word_state n b + REF_INCR = word_state (Suc n) b"
  by (simp add: word_state_def REF_INCR_def REF_COUNT_SHIFT_def)

lemma decr_word_state [word_pair]: "0 < n \<Longrightarrow> word_state n b - REF_INCR = word_state (n - 1) b"
  by (cases n) (simp_all add: word_state_def REF_INCR_def REF_COUNT_SHIFT_def)

lemma REF_ALLOWED_word_state: "REF_ALLOWED = word_state 0 False"
  by (simp add: REF_ALLOWED_def word_state_def)

text \<open>The increment of the count overflows exactly at the largest count.\<close>

lemma checked_incr:
  assumes "n \<le> MAX_REFS"
  shows "checked_add pr (word_state n False) REF_INCR =
    (if pr = Debug \<and> n = MAX_REFS then Inl Overflow else Inr (word_state n False + REF_INCR))"
proof -
  have sum: "unat (word_state n False) + unat REF_INCR = 2 * n + 2"
    using unat_word_state [OF assms, of False] by (simp add: REF_INCR_def REF_COUNT_SHIFT_def)
  show ?thesis
  proof (cases "n = MAX_REFS")
    case True
    with sum have "2 ^ LENGTH(32) \<le> unat (word_state n False) + unat REF_INCR"
      by (simp add: MAX_REFS_def)
    from checked_add_overflow [OF this] True show ?thesis by (cases pr) simp_all
  next
    case False
    with sum assms have "unat (word_state n False) + unat REF_INCR < 2 ^ LENGTH(32)"
      by (simp add: MAX_REFS_def)
    from checked_add_ok [OF this] False show ?thesis by simp
  qed
qed

lemma word_state_wraps: "word_state (Suc MAX_REFS) False = word_state 0 False"
  by (simp add: word_state_def MAX_REFS_def)

section \<open>Reading the enum off a word\<close>

lemma state_predicates:
  "state_is_blocked s \<longleftrightarrow> s = Blocked" "state_is_allowed s \<longleftrightarrow> s = Allowed"
  by (cases s; simp add: state_is_blocked_def state_is_allowed_def)+

section \<open>Properties\<close>

text \<open>C40: State::from_raw is never undefined behaviour: the block bit of any word is the discriminant of a
  state, the predicates tell the two states apart, and each prints as its name.\<close>

theorem from_raw_never_undefined:
  "from_raw w = Inr (if is_blk w then Blocked else Allowed) \<and>
   (state_is_blocked s \<longleftrightarrow> discriminant s = REF_BLOCKED) \<and> (state_is_allowed s \<longleftrightarrow> discriminant s = REF_ALLOWED) \<and>
   state_format s = (if state_is_blocked s then ''blocked'' else ''allowed'')"
  by (cases s) (simp_all add: from_raw_def transmute_state_def discriminant_def block_state_eq state_predicates
      state_format_def REF_BLOCKED_def REF_ALLOWED_def)

text \<open>C39: the macros split the word without loss: the count shifted back and the block bit give the word
  again, the mask keeps exactly the count, and blocking and counting do not disturb each other.\<close>

theorem word_parts_round_trip:
  "push_bit REF_COUNT_SHIFT (standard_ref_count w) OR block_state w = w \<and>
   standard_ref_count (w AND REF_COUNT_MASK) = standard_ref_count w \<and> block_state (w AND REF_COUNT_MASK) = REF_ALLOWED \<and>
   standard_ref_count (w AND REF_COUNT_MASK OR REF_BLOCKED) = standard_ref_count w \<and>
   block_state (w AND REF_COUNT_MASK OR REF_BLOCKED) = REF_BLOCKED"
proof (cases w rule: word_cases)
  case (pair n b)
  have "push_bit REF_COUNT_SHIFT (word_of_nat n) = word_state n False"
    by (simp add: word_state_def REF_COUNT_SHIFT_def)
  with pair show ?thesis
    using blocked_word_state [of n] by (cases b) (simp_all add: word_pair REF_BLOCKED_def REF_ALLOWED_def)
qed

end
