(* ===== verification/Atomic_Cell.thy ===== *)
theory Atomic_Cell
  imports Rc_Prelude
begin

text \<open>
  The atomic variables of \<open>core::sync::atomic\<close> as one thread sees them
  (\<open>AtomicU32\<close>, \<open>AtomicUsize\<close>, named by the macro \<open>atomic!\<close> of
  \<open>src/macros.rs\<close>), with sequentially consistent accesses.

  A cell is shared, so between two accesses of this thread other threads may write it, and a
  \<open>compare_exchange_weak\<close> may fail although the comparison succeeds. The cell carries both as
  data: \<open>cenv\<close> has one entry per coming access of this thread, the value the other threads
  have left in the cell by then (if they wrote it) and whether the access, if it is a weak
  compare-exchange, fails spuriously. An exhausted list is a cell no other thread touches.
  \<open>cown\<close> records this thread's own writes as pairs of the old and the new value; no
  operation of the crate reads it. Any interleaving of other threads is some value of
  \<open>cenv\<close>, so a fact for every \<open>cenv\<close> holds under every interference.
\<close>

section \<open>Cells and their accesses\<close>

record 'v acell =
  cval :: 'v
  cenv :: "('v option \<times> bool) list"
  cown :: "('v \<times> 'v) list"

definition new_cell :: "'v \<Rightarrow> 'v acell" where
  "new_cell v = \<lparr>cval = v, cenv = [], cown = []\<rparr>"

text \<open>What the other threads did before the next access; the flag is the spurious failure.\<close>

definition arrive :: "'v acell \<Rightarrow> bool \<times> 'v acell" where
  "arrive c = (case cenv c of
     [] \<Rightarrow> (False, c)
   | (w, sp) # es \<Rightarrow> (sp, c\<lparr>cval := (case w of None \<Rightarrow> cval c | Some v \<Rightarrow> v), cenv := es\<rparr>))"

definition load :: "'v acell \<Rightarrow> 'v \<times> 'v acell" where
  "load c = (let (sp, c') = arrive c in (cval c', c'))"

definition put :: "'v \<Rightarrow> 'v acell \<Rightarrow> 'v acell" where
  "put v c = c\<lparr>cval := v, cown := cown c @ [(cval c, v)]\<rparr>"

definition store :: "'v \<Rightarrow> 'v acell \<Rightarrow> 'v acell" where
  "store v c = (let (sp, c') = arrive c in put v c')"

text \<open>\<open>Ok\<close> is \<open>Inr\<close> of the old value, \<open>Err\<close> is \<open>Inl\<close> of the value found.\<close>

definition compare_exchange_weak :: "'v \<Rightarrow> 'v \<Rightarrow> 'v acell \<Rightarrow> ('v + 'v) \<times> 'v acell" where
  "compare_exchange_weak old new c = (let (sp, c') = arrive c in
     if cval c' = old \<and> \<not> sp then (Inr old, put new c') else (Inl (cval c'), c'))"

text \<open>\<open>fetch_sub\<close> wraps around on underflow in every profile.\<close>

definition fetch_sub :: "'w::len word \<Rightarrow> 'w word acell \<Rightarrow> 'w word \<times> 'w word acell" where
  "fetch_sub d c = (let (sp, c') = arrive c in (cval c', put (cval c' - d) c'))"

section \<open>Own writes\<close>

text \<open>The only accesses that write are the store, the successful exchange and the subtraction.\<close>

lemma cown_arrive [simp]: "cown (snd (arrive c)) = cown c"
  by (simp add: arrive_def split: list.split)

lemma cown_load [simp]: "cown (snd (load c)) = cown c"
  by (simp add: load_def split_beta)

lemma cown_put [simp]: "cown (put v c) = cown c @ [(cval c, v)]"
  and cval_put [simp]: "cval (put v c) = v"
  and cenv_put [simp]: "cenv (put v c) = cenv c"
  by (simp_all add: put_def)

lemma cas_cases [consumes 1, case_names Ok Err]:
  assumes "compare_exchange_weak old new c = (r, c')"
  obtains "r = Inr old" "cval c' = new" "cown c' = cown c @ [(old, new)]"
  | "r = Inl (cval c')" "cown c' = cown c"
  using assms by (auto simp: compare_exchange_weak_def split_beta split: if_splits)

section \<open>Quiet cells\<close>

text \<open>
  A quiet cell is one no other thread writes; its weak compare-exchanges may still fail
  spuriously. The sequential facts of the components are about quiet cells.
\<close>

definition quiet :: "'v acell \<Rightarrow> bool" where
  "quiet c \<longleftrightarrow> (\<forall>e \<in> set (cenv c). fst e = None)"

named_theorems quiet_cell "accesses of a quiet cell"

lemma quiet_new [quiet_cell]: "quiet (new_cell v)" "cval (new_cell v) = v" "cenv (new_cell v) = []"
  by (simp_all add: quiet_def new_cell_def)

lemma quiet_put [quiet_cell]: "quiet (put v c) = quiet c"
  by (simp add: quiet_def)

lemma quiet_arrive [quiet_cell]:
  assumes "quiet c"
  shows "cval (snd (arrive c)) = cval c" "quiet (snd (arrive c))"
    "cenv (snd (arrive c)) = tl (cenv c)"
  using assms by (auto simp: arrive_def quiet_def split: list.split)

lemma quiet_load [quiet_cell]:
  assumes "quiet c"
  shows "fst (load c) = cval c" "cval (snd (load c)) = cval c" "quiet (snd (load c))"
    "cenv (snd (load c)) = tl (cenv c)"
  using assms by (auto simp: load_def split_beta quiet_arrive)

lemma quiet_loadE:
  assumes "quiet c"
  obtains c' where "load c = (cval c, c')" "quiet c'" "cval c' = cval c" "cenv c' = tl (cenv c)"
proof (rule that)
  show "load c = (cval c, snd (load c))" using quiet_load(1) [OF assms] by (simp add: prod_eq_iff)
qed (rule quiet_load [OF assms])+

lemma quiet_store [quiet_cell]:
  assumes "quiet c"
  shows "cval (store v c) = v" "quiet (store v c)" "cenv (store v c) = tl (cenv c)"
  using assms by (auto simp: store_def split_beta quiet_put quiet_arrive)

lemma quiet_fetch_sub [quiet_cell]:
  assumes "quiet c"
  shows "fst (fetch_sub d c) = cval c" "cval (snd (fetch_sub d c)) = cval c - d"
    "quiet (snd (fetch_sub d c))"
  using assms by (auto simp: fetch_sub_def split_beta quiet_put quiet_arrive)

text \<open>
  A weak compare-exchange of a quiet cell that holds the expected value succeeds, or fails
  spuriously and has used up an entry of the environment list.
\<close>

lemma quiet_cas:
  assumes "quiet c" "cval c = old"
  obtains c' where "compare_exchange_weak old new c = (Inr old, c')" "cval c' = new" "quiet c'"
    "length (cenv c') \<le> length (cenv c)"
  | c' where "compare_exchange_weak old new c = (Inl old, c')" "cval c' = old" "quiet c'"
    "length (cenv c') < length (cenv c)"
proof (cases "fst (arrive c)")
  case True
  then have "cenv c \<noteq> []" by (auto simp: arrive_def)
  with True assms that(2) show ?thesis
    by (simp add: compare_exchange_weak_def split_beta quiet_arrive)
next
  case False
  with assms that(1) show ?thesis
    by (simp add: compare_exchange_weak_def split_beta quiet_arrive quiet_put)
qed

lemma quiet_cas_differs:
  assumes "quiet c" "cval c \<noteq> old"
  obtains c' where "compare_exchange_weak old new c = (Inl (cval c), c')" "cval c' = cval c"
    "quiet c'" "length (cenv c') \<le> length (cenv c)"
  using assms that by (simp add: compare_exchange_weak_def split_beta quiet_arrive)

text \<open>With no spurious failure either, the exchange is a plain test and set.\<close>

lemma cas_empty_env:
  "cenv c = [] \<Longrightarrow> compare_exchange_weak old new c =
     (if cval c = old then (Inr old, put new c) else (Inl (cval c), c))"
  by (simp add: compare_exchange_weak_def arrive_def)

lemma accesses_empty_env:
  assumes "cenv c = []"
  shows "load c = (cval c, c)" "store v c = put v c"
  using assms by (simp_all add: load_def store_def arrive_def)

lemma fetch_sub_empty_env: "cenv c = [] \<Longrightarrow> fetch_sub d c = (cval c, put (cval c - d) c)"
  by (simp add: fetch_sub_def arrive_def)

end
