(* ===== verification/Array_Queue.thy ===== *)
theory Array_Queue
  imports Atomic_Cell Backoff
begin

text \<open>
  \<open>src/array_queue.rs\<close>: the bounded multi-producer multi-consumer ring buffer, every
  operation with its loads, exchanges, stores and loops in the order of the code. The head,
  the tail and the stamp of each slot are atomic cells, so the definitions describe a call under
  any interference of other threads; the theory \<open>Queue_Fifo\<close> proves what they do on quiet
  cells. A value cell (\<open>UnsafeCell<MaybeUninit<T>>\<close>) is an \<open>option\<close>, \<open>None\<close> for
  uninitialised memory; a read leaves the bits where they are.
\<close>

section \<open>Data\<close>

record 'a slot =
  stamp :: "usize acell"
  sval :: "'a option"

record 'a array_queue =
  head :: "usize acell"
  tail :: "usize acell"
  buffer :: "'a slot list"
  one_lap :: usize

text \<open>The const parameter \<open>C\<close> is the length of the buffer.\<close>

definition capacity :: "'a array_queue \<Rightarrow> usize" where
  "capacity q = word_of_nat (length (buffer q))"

section \<open>Construction\<close>

text \<open>\<open>usize::next_power_of_two\<close>: the least power of two not below the argument.\<close>

function pow2_from :: "int \<Rightarrow> int \<Rightarrow> int" where
  "pow2_from p n = (if 0 < p \<and> p < n then pow2_from (2 * p) n else p)"
  by pat_completeness auto
termination
  by (relation "measure (\<lambda>(p, n). nat (n - p))") auto

declare pow2_from.simps [simp del]

definition next_power_of_two :: "profile \<Rightarrow> usize \<Rightarrow> fault + usize" where
  "next_power_of_two pr n =
     (let p = pow2_from 1 (uint n) in
      if p < 2 ^ 64 then Inr (word_of_int p)
      else if pr = Debug then Inl Overflow else Inr 0)"

definition new_queue :: "profile \<Rightarrow> usize \<Rightarrow> fault + 'a array_queue" where
  "new_queue pr C =
     (if C = 0 then Inl Assert_Failed
      else case checked_add pr C 1 of Inl e \<Rightarrow> Inl e | Inr c \<Rightarrow>
        (case next_power_of_two pr c of Inl e \<Rightarrow> Inl e | Inr lap \<Rightarrow>
           Inr \<lparr>head = new_cell 0, tail = new_cell 0,
                buffer = map (\<lambda>i. \<lparr>stamp = new_cell (word_of_nat i), sval = None\<rparr>) [0..<unat C],
                one_lap = lap\<rparr>))"

section \<open>Accesses to the parts of the queue\<close>

definition load_head :: "'a array_queue \<Rightarrow> usize \<times> 'a array_queue" where
  "load_head q = (let (v, c) = load (head q) in (v, q\<lparr>head := c\<rparr>))"

definition load_tail :: "'a array_queue \<Rightarrow> usize \<times> 'a array_queue" where
  "load_tail q = (let (v, c) = load (tail q) in (v, q\<lparr>tail := c\<rparr>))"

definition upd_slot :: "nat \<Rightarrow> ('a slot \<Rightarrow> 'a slot) \<Rightarrow> 'a array_queue \<Rightarrow> 'a array_queue" where
  "upd_slot i f q = q\<lparr>buffer := (buffer q)[i := f (buffer q ! i)]\<rparr>"

definition load_stamp :: "nat \<Rightarrow> 'a array_queue \<Rightarrow> usize \<times> 'a array_queue" where
  "load_stamp i q =
     (let (v, c) = load (stamp (buffer q ! i)) in (v, upd_slot i (\<lambda>s. s\<lparr>stamp := c\<rparr>) q))"

definition store_stamp :: "nat \<Rightarrow> usize \<Rightarrow> 'a array_queue \<Rightarrow> 'a array_queue" where
  "store_stamp i v = upd_slot i (\<lambda>s. s\<lparr>stamp := store v (stamp s)\<rparr>)"

text \<open>\<open>UnsafeCellExtras::write\<close>; \<open>read\<close> is the selector, \<open>replace\<close> both.\<close>

definition write_value :: "nat \<Rightarrow> 'a \<Rightarrow> 'a array_queue \<Rightarrow> 'a array_queue" where
  "write_value i v = upd_slot i (\<lambda>s. s\<lparr>sval := Some v\<rparr>)"

definition read_value :: "nat \<Rightarrow> 'a array_queue \<Rightarrow> fault + 'a" where
  "read_value i q = (case sval (buffer q ! i) of None \<Rightarrow> Inl Undefined | Some v \<Rightarrow> Inr v)"

text \<open>\<open>debug_assert!(index < C)\<close> and \<open>get_unchecked(index)\<close>.\<close>

definition slot_index :: "profile \<Rightarrow> 'a array_queue \<Rightarrow> usize \<Rightarrow> fault + nat" where
  "slot_index pr q index =
     (if index < capacity q then Inr (unat index)
      else Inl (if pr = Debug then Debug_Assert else Undefined))"

text \<open>The index and the lap of a stamp.\<close>

definition deconstruct :: "profile \<Rightarrow> 'a array_queue \<Rightarrow> usize \<Rightarrow> fault + usize \<times> usize" where
  "deconstruct pr q x =
     (case checked_sub pr (one_lap q) 1 of Inl e \<Rightarrow> Inl e | Inr m \<Rightarrow> Inr (x AND m, x AND NOT m))"

text \<open>The stamp after \<open>x\<close>: the next index of the lap, or index 0 of the next lap.\<close>

definition advance :: "profile \<Rightarrow> 'a array_queue \<Rightarrow> usize \<Rightarrow> usize \<Rightarrow> usize \<Rightarrow> fault + usize" where
  "advance pr q x index lap =
     (case checked_add pr index 1 of Inl e \<Rightarrow> Inl e | Inr i \<Rightarrow>
        if i < capacity q then checked_add pr x 1 else Inr (lap + one_lap q))"

section \<open>Push\<close>

text \<open>
  The loop of \<open>push_or_else\<close>: its variables are the value, the tail last seen, the backoff
  and the shared queue. \<open>Result<T, T>\<close> is a sum, \<open>Err\<close> on the left.
\<close>

type_synonym 'a on_full =
  "'a \<Rightarrow> usize \<Rightarrow> usize \<Rightarrow> nat \<Rightarrow> 'a array_queue \<Rightarrow> (fault + ('a + 'a)) \<times> 'a array_queue"

type_synonym 'a push_result = "(fault + ('a + unit)) \<times> 'a array_queue"

type_synonym 'a push_vars = "'a \<times> usize \<times> backoff \<times> 'a array_queue"

definition push_pass :: "profile \<Rightarrow> 'a on_full \<Rightarrow> 'a push_vars \<Rightarrow> ('a push_vars, 'a push_result) pass" where
  "push_pass pr f vars = (case vars of (value, tv, bo, q) \<Rightarrow>
     (case deconstruct pr q tv of Inl e \<Rightarrow> Leave (Inl e, q) | Inr (index, lap) \<Rightarrow>
     (case advance pr q tv index lap of Inl e \<Rightarrow> Leave (Inl e, q) | Inr new_tail \<Rightarrow>
     (case slot_index pr q index of Inl e \<Rightarrow> Leave (Inl e, q) | Inr i \<Rightarrow>
     (case load_stamp i q of (st, q) \<Rightarrow>
      if tv = st then
        (case compare_exchange_weak tv new_tail (tail q) of (r, c) \<Rightarrow>
         let q = q\<lparr>tail := c\<rparr> in
         (case r of
            Inr _ \<Rightarrow>
              let q = write_value i value q in
              (case checked_add pr tv 1 of Inl e \<Rightarrow> Leave (Inl e, q) | Inr st' \<Rightarrow>
                 Leave (Inr (Inr ()), store_stamp i st' q))
          | Inl t \<Rightarrow>
              (case spun pr bo of Inl e \<Rightarrow> Leave (Inl e, q) | Inr bo \<Rightarrow> Again (value, t, bo, q))))
      else
        (case checked_add pr tv 1 of Inl e \<Rightarrow> Leave (Inl e, q) | Inr tv1 \<Rightarrow>
         if st + one_lap q = tv1 then
           (case f value tv new_tail i q of (r, q) \<Rightarrow>
            (case r of
               Inl e \<Rightarrow> Leave (Inl e, q)
             | Inr (Inl v) \<Rightarrow> Leave (Inr (Inl v), q)
             | Inr (Inr v) \<Rightarrow>
                 (case spun pr bo of Inl e \<Rightarrow> Leave (Inl e, q) | Inr bo \<Rightarrow>
                  (case load_tail q of (t, q) \<Rightarrow> Again (v, t, bo, q)))))
         else
           (case snoozed pr bo of Inl e \<Rightarrow> Leave (Inl e, q) | Inr bo \<Rightarrow>
            (case load_tail q of (t, q) \<Rightarrow> Again (value, t, bo, q)))))))))"

definition push_or_else :: "profile \<Rightarrow> 'a on_full \<Rightarrow> 'a \<Rightarrow> 'a array_queue \<Rightarrow> 'a push_result option" where
  "push_or_else pr f value q =
     (let (tv, q) = load_tail q in
      run_loop (\<lambda>s. Some (push_pass pr f s)) (value, tv, new_backoff, q))"

definition push_on_full :: "'a on_full" where
  "push_on_full v tv new_tail i q =
     (let (h, q) = load_head q in
      if h + one_lap q = tv then (Inr (Inl v), q) else (Inr (Inr v), q))"

definition push :: "profile \<Rightarrow> 'a \<Rightarrow> 'a array_queue \<Rightarrow> 'a push_result option" where
  "push pr value q = push_or_else pr push_on_full value q"

definition force_on_full :: "profile \<Rightarrow> 'a on_full" where
  "force_on_full pr v tv new_tail i q =
     (let h = tv - one_lap q;
          new_head = new_tail - one_lap q;
          (r, c) = compare_exchange_weak h new_head (head q);
          q = q\<lparr>head := c\<rparr> in
      case r of
        Inr _ \<Rightarrow>
          (let q = q\<lparr>tail := store new_tail (tail q)\<rparr> in
           case read_value i q of Inl e \<Rightarrow> (Inl e, q) | Inr old \<Rightarrow>
             (let q = write_value i v q in
              case checked_add pr tv 1 of Inl e \<Rightarrow> (Inl e, q) | Inr st \<Rightarrow>
                (Inr (Inl old), store_stamp i st q)))
      | Inl _ \<Rightarrow> (Inr (Inr v), q))"

text \<open>\<open>.err()\<close> turns the result into the replaced element, if there was one.\<close>

definition force_push :: "profile \<Rightarrow> 'a \<Rightarrow> 'a array_queue \<Rightarrow> ((fault + 'a option) \<times> 'a array_queue) option" where
  "force_push pr value q =
     map_option (\<lambda>(r, q). (case r of Inl e \<Rightarrow> Inl e
                             | Inr (Inl old) \<Rightarrow> Inr (Some old)
                             | Inr (Inr _) \<Rightarrow> Inr None, q))
       (push_or_else pr (force_on_full pr) value q)"

section \<open>Pop\<close>

type_synonym 'a pop_result = "(fault + 'a option) \<times> 'a array_queue"

type_synonym 'a pop_vars = "usize \<times> backoff \<times> 'a array_queue"

definition pop_pass :: "profile \<Rightarrow> 'a pop_vars \<Rightarrow> ('a pop_vars, 'a pop_result) pass" where
  "pop_pass pr vars = (case vars of (h, bo, q) \<Rightarrow>
     (case deconstruct pr q h of Inl e \<Rightarrow> Leave (Inl e, q) | Inr (index, lap) \<Rightarrow>
     (case slot_index pr q index of Inl e \<Rightarrow> Leave (Inl e, q) | Inr i \<Rightarrow>
     (case load_stamp i q of (st, q) \<Rightarrow>
     (case checked_add pr h 1 of Inl e \<Rightarrow> Leave (Inl e, q) | Inr h1 \<Rightarrow>
      if h1 = st then
        (case advance pr q h index lap of Inl e \<Rightarrow> Leave (Inl e, q) | Inr new_head \<Rightarrow>
         (case compare_exchange_weak h new_head (head q) of (r, c) \<Rightarrow>
          let q = q\<lparr>head := c\<rparr> in
          (case r of
             Inr _ \<Rightarrow>
               (case read_value i q of Inl e \<Rightarrow> Leave (Inl e, q) | Inr msg \<Rightarrow>
                  Leave (Inr (Some msg), store_stamp i (h + one_lap q) q))
           | Inl h' \<Rightarrow>
               (case spun pr bo of Inl e \<Rightarrow> Leave (Inl e, q) | Inr bo \<Rightarrow> Again (h', bo, q)))))
      else if st = h then
        (case load_tail q of (tv, q) \<Rightarrow>
         if tv = h then Leave (Inr None, q)
         else
           (case spun pr bo of Inl e \<Rightarrow> Leave (Inl e, q) | Inr bo \<Rightarrow>
            (case load_head q of (h', q) \<Rightarrow> Again (h', bo, q))))
      else
        (case snoozed pr bo of Inl e \<Rightarrow> Leave (Inl e, q) | Inr bo \<Rightarrow>
         (case load_head q of (h', q) \<Rightarrow> Again (h', bo, q))))))))"

definition pop :: "profile \<Rightarrow> 'a array_queue \<Rightarrow> 'a pop_result option" where
  "pop pr q =
     (let (h, q) = load_head q in
      run_loop (\<lambda>s. Some (pop_pass pr s)) (h, new_backoff, q))"

section \<open>Observers\<close>

definition is_empty :: "'a array_queue \<Rightarrow> bool \<times> 'a array_queue" where
  "is_empty q = (let (h, q) = load_head q; (tv, q) = load_tail q in (tv = h, q))"

definition is_full :: "'a array_queue \<Rightarrow> bool \<times> 'a array_queue" where
  "is_full q = (let (tv, q) = load_tail q; (h, q) = load_head q in (h + one_lap q = tv, q))"

text \<open>The macro \<open>queue_size!\<close>.\<close>

definition queue_size :: "profile \<Rightarrow> usize \<Rightarrow> usize \<Rightarrow> usize \<Rightarrow> usize \<Rightarrow> usize \<Rightarrow> fault + usize" where
  "queue_size pr cap h head_idx tv tail_idx =
     (if head_idx < tail_idx then checked_sub pr tail_idx head_idx
      else if head_idx > tail_idx then
        (case checked_sub pr cap head_idx of Inl e \<Rightarrow> Inl e | Inr d \<Rightarrow> checked_add pr d tail_idx)
      else if tv = h then Inr 0
      else Inr cap)"

definition len_pass :: "profile \<Rightarrow> 'a array_queue \<Rightarrow> ('a array_queue, (fault + usize) \<times> 'a array_queue) pass" where
  "len_pass pr q =
     (let (tv, q) = load_tail q; (h, q) = load_head q; (tv', q) = load_tail q in
      if tv' = tv then
        (case deconstruct pr q h of Inl e \<Rightarrow> Leave (Inl e, q) | Inr (head_idx, _) \<Rightarrow>
         (case deconstruct pr q tv of Inl e \<Rightarrow> Leave (Inl e, q) | Inr (tail_idx, _) \<Rightarrow>
            Leave (queue_size pr (capacity q) h head_idx tv tail_idx, q)))
      else Again q)"

definition len :: "profile \<Rightarrow> 'a array_queue \<Rightarrow> ((fault + usize) \<times> 'a array_queue) option" where
  "len pr q = run_loop (\<lambda>s. Some (len_pass pr s)) q"

section \<open>Drop and iteration by value\<close>

text \<open>
  With \<open>&mut self\<close> no other thread has access: \<open>get_mut\<close> is the value of the cell.
  \<open>drop\<close> returns the elements it drops, in order.
\<close>

fun drop_slots :: "profile \<Rightarrow> 'a array_queue \<Rightarrow> usize \<Rightarrow> nat list \<Rightarrow> fault + 'a list" where
  "drop_slots pr q head_idx [] = Inr []"
| "drop_slots pr q head_idx (i # is) =
     (case checked_add pr head_idx (word_of_nat i) of Inl e \<Rightarrow> Inl e | Inr s \<Rightarrow>
      (case (if s < capacity q then Inr s else checked_sub pr s (capacity q)) of Inl e \<Rightarrow> Inl e | Inr index \<Rightarrow>
       (case slot_index pr q index of Inl e \<Rightarrow> Inl e | Inr j \<Rightarrow>
        (case read_value j q of Inl e \<Rightarrow> Inl e | Inr v \<Rightarrow>
           map_sum id ((#) v) (drop_slots pr q head_idx is)))))"

definition drop_queue :: "profile \<Rightarrow> bool \<Rightarrow> 'a array_queue \<Rightarrow> fault + 'a list" where
  "drop_queue pr needs_drop q =
     (if needs_drop then
        (let h = cval (head q); tv = cval (tail q) in
         case deconstruct pr q h of Inl e \<Rightarrow> Inl e | Inr (head_idx, _) \<Rightarrow>
         (case deconstruct pr q tv of Inl e \<Rightarrow> Inl e | Inr (tail_idx, _) \<Rightarrow>
          (case queue_size pr (capacity q) h head_idx tv tail_idx of Inl e \<Rightarrow> Inl e | Inr n \<Rightarrow>
             drop_slots pr q head_idx [0..<unat n])))
      else Inr [])"

definition iter_next :: "profile \<Rightarrow> 'a array_queue \<Rightarrow> 'a pop_result" where
  "iter_next pr q =
     (let h = cval (head q) in
      if cval (head q) = cval (tail q) then (Inr None, q)
      else
        (case deconstruct pr q h of Inl e \<Rightarrow> (Inl e, q) | Inr (index, lap) \<Rightarrow>
         (case slot_index pr q index of Inl e \<Rightarrow> (Inl e, q) | Inr i \<Rightarrow>
          (case read_value i q of Inl e \<Rightarrow> (Inl e, q) | Inr v \<Rightarrow>
           (case advance pr q h index lap of Inl e \<Rightarrow> (Inl e, q) | Inr new_head \<Rightarrow>
              (Inr (Some v), q\<lparr>head := (head q)\<lparr>cval := new_head\<rparr>\<rparr>))))))"

end
