(* ===== verification/Build_Config.thy ===== *)
theory Build_Config
  imports Backoff Ref_State Array_Queue
begin

text \<open>
  What depends on how the crate is built: the macros \<open>ordering!\<close>, \<open>atomic!\<close>, \<open>atomic_fence!\<close>, \<open>slight_spin!\<close> of
  \<open>src/macros.rs\<close> and \<open>yield_now!\<close> of \<open>src/backoff.rs\<close>, which exist once for the model checker loom and once or twice for other
  builds. The atomic variables, their orderings and the fences are those of the library in one build and those of loom in the other, by
  the same names; so one model of them does for both. Only the pauses differ: how often a thread that waits lets others run.
\<close>

section \<open>Builds\<close>

record build =
  cfg_loom :: bool      \<comment> \<open>\<open>--cfg loom\<close>\<close>
  feature_std :: bool   \<comment> \<open>the feature \<open>std\<close>, which is off by default\<close>

datatype rust_path = In_Core "string list" | In_Std "string list" | In_Loom "string list"

text \<open>The items of \<open>core\<close> that loom has as well.\<close>

definition item :: "build \<Rightarrow> string list \<Rightarrow> rust_path" where
  "item b p = (if cfg_loom b then In_Loom p else In_Core p)"

section \<open>Macros for atomic variables\<close>

text \<open>\<open>ordering!(ty)\<close> is the type, \<open>ordering!(SeqCst)\<close> one of its values.\<close>

definition ordering_macro :: "build \<Rightarrow> string \<Rightarrow> rust_path" where
  "ordering_macro b a =
     (if a = ''ty'' then item b [''sync'', ''atomic'', ''Ordering''] else item b [''sync'', ''atomic'', ''Ordering'', a])"

definition atomic_fence :: "build \<Rightarrow> string \<Rightarrow> rust_path \<times> rust_path" where
  "atomic_fence b a = (item b [''sync'', ''atomic'', ''fence''], ordering_macro b a)"

text \<open>
  \<open>atomic!\<close>, arm by arm: a variable of a primitive type with a value, a variable that starts at 0, or the name of a type. Any other
  use does not compile.
\<close>

datatype atomic_use = New rust_path string | Type_Of rust_path

definition primitive :: "string \<Rightarrow> string option" where
  "primitive = map_of [(''bool'', ''AtomicBool''), (''u8'', ''AtomicU8''), (''u16'', ''AtomicU16''), (''u32'', ''AtomicU32''),
     (''u64'', ''AtomicU64''), (''usize'', ''AtomicUsize'')]"

definition atomic_pair :: "build \<Rightarrow> string \<Rightarrow> string \<Rightarrow> atomic_use option" where
  "atomic_pair b kind value = (case primitive kind of
     Some ty \<Rightarrow> Some (New (item b [''sync'', ''atomic'', ty, ''new'']) value)
   | None \<Rightarrow> if value = ''ty'' then Some (Type_Of (item b [''sync'', ''atomic'', kind])) else None)"

definition atomic_macro :: "build \<Rightarrow> string \<Rightarrow> string option \<Rightarrow> atomic_use option" where
  "atomic_macro b kind value = (case value of None \<Rightarrow> atomic_pair b kind ''0'' | Some v \<Rightarrow> atomic_pair b kind v)"

text \<open>Without loom every item is that of \<open>core\<close>, with it that of loom, and nothing else changes.\<close>

fun loomed :: "rust_path \<Rightarrow> rust_path" where
  "loomed (In_Core p) = In_Loom p"
| "loomed p = p"

fun loomed_use :: "atomic_use \<Rightarrow> atomic_use" where
  "loomed_use (New p v) = New (loomed p) v"
| "loomed_use (Type_Of p) = Type_Of (loomed p)"

lemma loom_builds_the_same:
  assumes "\<not> cfg_loom b"
  shows "ordering_macro (b\<lparr>cfg_loom := True\<rparr>) a = loomed (ordering_macro b a)"
    "atomic_fence (b\<lparr>cfg_loom := True\<rparr>) a = map_prod loomed loomed (atomic_fence b a)"
    "atomic_macro (b\<lparr>cfg_loom := True\<rparr>) kind value = map_option loomed_use (atomic_macro b kind value)"
  using assms
  by (auto simp: ordering_macro_def atomic_fence_def item_def atomic_macro_def atomic_pair_def split: option.splits)

text \<open>The uses the crate makes of \<open>atomic!\<close> compile, and \<open>atomic!(u32)\<close> is a count of zero.\<close>

lemma uses_compile:
  "atomic_macro b ''u32'' None = Some (New (item b [''sync'', ''atomic'', ''AtomicU32'', ''new'']) ''0'')"
  "atomic_macro b ''bool'' (Some ''false'') = Some (New (item b [''sync'', ''atomic'', ''AtomicBool'', ''new'']) ''false'')"
  "kind \<in> {''AtomicBool'', ''AtomicU32'', ''AtomicUsize''} \<Longrightarrow>
     atomic_macro b kind (Some ''ty'') = Some (Type_Of (item b [''sync'', ''atomic'', kind]))"
  by (auto simp: atomic_macro_def atomic_pair_def primitive_def)

text \<open>\<open>state_const!\<close> is a constant of \<open>src/consts.rs\<close>.\<close>

definition state_const :: "string \<Rightarrow> u32 option" where
  "state_const = map_of [(''REF_BLOCKED'', REF_BLOCKED), (''REF_ALLOWED'', REF_ALLOWED), (''REF_COUNT_MASK'', REF_COUNT_MASK),
     (''REF_COUNT_SHIFT'', word_of_nat REF_COUNT_SHIFT), (''REF_INCR'', REF_INCR), (''STATE_MASK'', STATE_MASK)]"

section \<open>Pauses\<close>

definition spin_loop :: "build \<Rightarrow> rust_path" where
  "spin_loop b = item b [''hint'', ''spin_loop'']"

text \<open>\<open>slight_spin!(attempts)\<close>, and \<open>slight_spin!(attempts, fake)\<close>, which is for loom only.\<close>

definition spin_calls :: "build \<Rightarrow> usize \<Rightarrow> rust_path list" where
  "spin_calls b attempts = replicate (slight_spin attempts) (spin_loop b)"

definition fake_spin_calls :: "build \<Rightarrow> rust_path list" where
  "fake_spin_calls b = (if cfg_loom b then [spin_loop b] else [])"

definition yield_now :: "build \<Rightarrow> rust_path list" where
  "yield_now b =
     (if cfg_loom b then [In_Loom [''thread'', ''yield_now'']]
      else if feature_std b then [In_Std [''thread'', ''yield_now'']]
      else [])"

definition snooze_calls :: "build \<Rightarrow> backoff \<Rightarrow> rust_path list" where
  "snooze_calls b bo = spin_calls b (calls bo) @ (if calls bo < YIELD_POINT then [] else yield_now b)"

lemma snooze_calls_parts:
  "snooze_calls b bo = replicate (fst (snooze pr bo)) (spin_loop b) @ (if fst (snd (snooze pr bo)) then yield_now b else [])"
  by (simp add: snooze_calls_def spin_calls_def snooze_def Let_def)

text \<open>What a thread does that waits for \<open>n\<close> passes of a loop: a fresh backoff, snoozed once in each.\<close>

definition waiting_calls :: "build \<Rightarrow> nat \<Rightarrow> rust_path list" where
  "waiting_calls b n = concat (map (\<lambda>i. snooze_calls b \<lparr>calls = word_of_nat (i mod 65)\<rparr>) [0..<n])"

definition gives_way :: "rust_path \<Rightarrow> bool" where
  "gives_way p \<longleftrightarrow> p \<in> {In_Loom [''thread'', ''yield_now''], In_Std [''thread'', ''yield_now'']}"

lemma gives_way_snooze:
  "length (filter gives_way (snooze_calls b bo)) = (if YIELD_POINT \<le> calls bo \<and> (cfg_loom b \<or> feature_std b) then 1 else 0)"
  by (auto simp: snooze_calls_def spin_calls_def spin_loop_def item_def gives_way_def yield_now_def)

text \<open>
  In a build with std or loom every 65th pass gives way to other threads. In a build without them, and that is the default one, a thread
  that waits in a blocking operation or for a queue operation of another thread never does: on one processor, and with a
  scheduler that does not preempt it, it waits for ever.
\<close>

theorem waiting_gives_way:
  "length (filter gives_way (waiting_calls b n)) = (if cfg_loom b \<or> feature_std b then n div 65 else 0)"
proof (induction n)
  case (Suc n)
  have "unat (word_of_nat (n mod 65) :: usize) = n mod 65"
  proof -
    have "n mod 65 < 2 ^ 64" by (rule less_trans [of _ 65]) simp_all
    then show ?thesis by (simp only: unat_of_nat) simp
  qed
  then have "YIELD_POINT \<le> (word_of_nat (n mod 65) :: usize) \<longleftrightarrow> n mod 65 = 64"
    unfolding YIELD_POINT_def word_le_nat_alt using mod_less_divisor [of 65 n] by auto
  moreover have "Suc n div 65 = n div 65 + (if n mod 65 = 64 then 1 else 0)" by (simp add: div_Suc mod_Suc)
  ultimately show ?case using Suc by (simp add: waiting_calls_def gives_way_snooze)
qed (simp add: waiting_calls_def)

text \<open>These are the counters of the snoozes: the backoff after \<open>n\<close> of them is the one that \<open>waiting_calls\<close> takes for the next.\<close>

lemma waiting_counters:
  "waiting_calls b (Suc n) = waiting_calls b n @ (case snooze_many pr n new_backoff of Inl _ \<Rightarrow> [] | Inr bo \<Rightarrow> snooze_calls b bo)"
  using snooze_cycle [of pr n] by (simp add: waiting_calls_def)

section \<open>Small parts of the queue\<close>

definition default_queue :: "profile \<Rightarrow> usize \<Rightarrow> fault + 'a array_queue" where
  "default_queue pr C = new_queue pr C"

text \<open>\<open>UnsafeCellExtras::replace\<close>: the content of a cell, initialised or not, is taken out and another one put in.\<close>

definition replace_value :: "nat \<Rightarrow> 'a option \<Rightarrow> 'a array_queue \<Rightarrow> 'a option \<times> 'a array_queue" where
  "replace_value i n q = (sval (buffer q ! i), upd_slot i (\<lambda>s. s\<lparr>sval := n\<rparr>) q)"

text \<open>\<open>force_push\<close> swaps the value of a slot by the same operation of the pointer, and takes what it finds for initialised.\<close>

lemma replace_is_read_and_write:
  "replace_value i (Some v) q = (case read_value i q of Inl _ \<Rightarrow> None | Inr old \<Rightarrow> Some old, write_value i v q)"
  by (auto simp: replace_value_def read_value_def write_value_def split: option.splits)

end
