(* ===== verification/Stamps.thy ===== *)
theory Stamps
  imports Rc_Prelude
begin

text \<open>
  The stamps of the array queue. The code packs an index below the capacity \<open>n\<close> and a lap
  into one \<open>usize\<close>: the lap is counted in units of \<open>one_lap = 2 ^ k\<close>, the least power
  of two above \<open>n\<close>. Numbering the pushes (or the pops) 0, 1, 2, \<dots> without bound, the
  \<open>p\<close>-th one uses slot \<open>p mod n\<close> in lap \<open>p div n\<close>; \<open>enc k n p\<close> is its stamp,
  reduced modulo \<open>2 ^ 64\<close> as the wrapping additions of the code reduce it. The lemmas are
  the arithmetic the queue does on stamps, stated on positions.
\<close>

definition enc :: "nat \<Rightarrow> nat \<Rightarrow> nat \<Rightarrow> usize" where
  "enc k n p = word_of_nat (p div n * 2 ^ k + p mod n)"

text \<open>Its two parts, as the code masks them out.\<close>

definition idx_part :: "nat \<Rightarrow> nat \<Rightarrow> usize" where
  "idx_part n p = word_of_nat (p mod n)"

definition lap_part :: "nat \<Rightarrow> nat \<Rightarrow> nat \<Rightarrow> usize" where
  "lap_part k n p = word_of_nat (p div n * 2 ^ k)"

definition lap_ok :: "nat \<Rightarrow> nat \<Rightarrow> bool" where
  "lap_ok k n \<longleftrightarrow> 0 < n \<and> n < 2 ^ k \<and> k < 64"

lemma lap_okD:
  assumes "lap_ok k n"
  shows "0 < n" "n < 2 ^ k" "k < 64" "k \<le> LENGTH(64)" "p mod n < 2 ^ k"
    "(2::nat) ^ k dvd 2 ^ 64" "n < 2 ^ 63"
proof -
  show n: "0 < n" "n < 2 ^ k" "k < 64" using assms by (auto simp: lap_ok_def)
  then show "k \<le> LENGTH(64)" by simp
  from n have "p mod n < n" by simp
  with n show "p mod n < 2 ^ k" by linarith
  show "(2::nat) ^ k dvd 2 ^ 64" using n by (intro le_imp_power_dvd) simp
  have "(2::nat) ^ k \<le> 2 ^ 63" using n by (intro power_increasing) simp_all
  with n show "n < 2 ^ 63" by linarith
qed

section \<open>Taking a stamp apart\<close>

lemma enc_index: "lap_ok k n \<Longrightarrow> enc k n p AND mask k = idx_part n p"
  unfolding enc_def idx_part_def by (rule low_part) (auto dest: lap_okD)

lemma unat_enc_index: "lap_ok k n \<Longrightarrow> unat (enc k n p AND mask k) = p mod n"
  unfolding enc_def by (rule unat_low_part) (auto dest: lap_okD)

lemma enc_lap: "lap_ok k n \<Longrightarrow> enc k n p AND NOT (mask k) = lap_part k n p"
  unfolding enc_def lap_part_def by (rule high_part) (auto dest: lap_okD)

lemma unat_enc_mod: "lap_ok k n \<Longrightarrow> unat (enc k n p) mod 2 ^ k = p mod n"
  using unat_enc_index [of k n p] by (simp add: unat_and_mask)

lemma enc_no_overflow: "lap_ok k n \<Longrightarrow> unat (enc k n p) + 1 < 2 ^ 64"
proof (rule ccontr)
  assume lap: "lap_ok k n" and "\<not> unat (enc k n p) + 1 < 2 ^ 64"
  moreover have "unat (enc k n p) < 2 ^ 64"
    using unsigned_less [of "enc k n p", where 'a = nat] by simp
  ultimately have "unat (enc k n p) + 1 = 2 ^ 64" by linarith
  then have "(2::nat) ^ k dvd unat (enc k n p) + 1"
    using lap_okD(6) [OF lap] by simp
  then have "(unat (enc k n p) mod 2 ^ k + 1) mod 2 ^ k = 0"
    by (simp add: mod_simps)
  then have "(p mod n + 1) mod 2 ^ k = 0"
    by (simp only: unat_enc_mod [OF lap])
  moreover have "p mod n + 1 < 2 ^ k"
    using lap_okD(1,2) [OF lap] mod_less_divisor [of n p] by linarith
  ultimately show False by simp
qed

section \<open>Moving along\<close>

lemma enc_Suc_same:
  assumes "lap_ok k n" "p mod n + 1 < n"
  shows "enc k n (Suc p) = enc k n p + 1"
proof -
  have "Suc p mod n = Suc (p mod n)" "Suc p div n = p div n"
    using assms by (auto simp: mod_Suc div_Suc)
  then show ?thesis by (simp add: enc_def)
qed

lemma enc_Suc_wrap:
  assumes "lap_ok k n" "p mod n + 1 = n"
  shows "enc k n (Suc p) = lap_part k n p + 2 ^ k"
proof -
  have "Suc p mod n = 0" "Suc p div n = Suc (p div n)"
    using assms by (auto simp: mod_Suc div_Suc)
  then show ?thesis by (simp add: enc_def lap_part_def algebra_simps)
qed

lemma enc_add_lap:
  assumes "lap_ok k n"
  shows "enc k n p + 2 ^ k = enc k n (p + n)"
proof -
  have "(p + n) div n = Suc (p div n)" "(p + n) mod n = p mod n"
    using lap_okD(1) [OF assms] div_add_self2 [of n p] by simp_all
  then show ?thesis by (simp add: enc_def algebra_simps)
qed

lemma enc_0: "enc k n 0 = 0"
  by (simp add: enc_def)

lemma enc_small: "p < n \<Longrightarrow> enc k n p = word_of_nat p"
  by (simp add: enc_def)

section \<open>Telling stamps apart\<close>

text \<open>Two positions at most one lap apart have different stamps, whatever the wrap-around.\<close>

lemma enc_inj:
  assumes lap: "lap_ok k n" and eq: "enc k n p = enc k n p'" and le: "p \<le> p'" "p' \<le> p + n"
  shows "p = p'"
proof (rule ccontr)
  assume "p \<noteq> p'"
  have "p mod n = p' mod n"
    using unat_enc_mod [OF lap, of p] unat_enc_mod [OF lap, of p'] eq by simp
  moreover have "p' - p \<le> n" using le by simp
  ultimately have p': "p' = p + n"
    using \<open>p \<noteq> p'\<close> le
    by (metis add_diff_inverse_nat diff_is_0_eq dvd_imp_le le_antisym le_neq_implies_less
        linorder_not_less mod_eq_dvd_iff_nat zero_less_diff)
  then have "enc k n p + 2 ^ k = enc k n p + 0"
    using eq enc_add_lap [OF lap, of p] by simp
  then have "(2 :: usize) ^ k = 0" by (simp only: add_left_cancel)
  then show False
    using lap_okD(3) [OF lap] by (simp only: exp_eq_zero_iff) simp
qed

lemma enc_plus_1_index:
  assumes lap: "lap_ok k n" and eq: "enc k n p + 1 = enc k n p'"
  shows "p' mod n = p mod n + 1"
proof -
  have "unat (enc k n p') = unat (enc k n p) + 1"
    using enc_no_overflow [OF lap, of p] eq [symmetric] by (simp add: unat_word_ariths)
  then have "p' mod n = (unat (enc k n p) mod 2 ^ k + 1) mod 2 ^ k"
    using unat_enc_mod [OF lap, of p'] by (simp add: mod_simps)
  then have "p' mod n = (p mod n + 1) mod 2 ^ k"
    by (simp only: unat_enc_mod [OF lap])
  moreover have "p mod n + 1 < 2 ^ k"
    using lap_okD(1,2) [OF lap] mod_less_divisor [of n p] by linarith
  ultimately show ?thesis by simp
qed

text \<open>A full stamp (value present) is never an empty stamp of the same slot.\<close>

lemma enc_plus_1_ne:
  assumes "lap_ok k n" "p mod n = p' mod n"
  shows "enc k n p + 1 \<noteq> enc k n p'"
  using enc_plus_1_index [OF assms(1), of p p'] assms(2) by auto

section \<open>Slots of a window\<close>

lemma window_slot_ne:
  fixes n :: nat
  assumes "i < n" "j < n" "i \<noteq> j"
  shows "(h + i) mod n \<noteq> (h + j) mod n"
proof
  assume eq: "(h + i) mod n = (h + j) mod n"
  have "i = j" if "i \<le> j" "j < n" "(h + i) mod n = (h + j) mod n" for i j
  proof -
    from that have "n dvd (h + j) - (h + i)" by (metis add_le_cancel_left mod_eq_dvd_iff_nat)
    with that show ?thesis by (auto dest: dvd_imp_le)
  qed
  with eq assms show False by (metis linear)
qed

end
