(* ===== verification/Fifo_Spec.thy ===== *)
theory Fifo_Spec
  imports Rc_Prelude
begin

text \<open>
  The contract of the waiter queue: a bounded FIFO list. The locales state the laws a provider
  promises (what each operation returns and leaves, full and empty queues included), the lemmas
  inside them are what the clients use: any sequence of calls answers like the list, and a
  \<open>while let Some(x) = queue.pop()\<close> loop visits every element in order and empties the
  queue. \<open>Queue_Fifo\<close> interprets them on the array queue.
\<close>

section \<open>Sequences of calls against a list\<close>

datatype 'a fifo_op = Push 'a | Force_Push 'a | Pop

datatype 'a fifo_answer = Pushed "'a + unit" | Forced "'a option" | Popped "'a option"

text \<open>The specification: a list of at most \<open>n\<close> elements.\<close>

fun fifo_step :: "nat \<Rightarrow> 'a fifo_op \<Rightarrow> 'a list \<Rightarrow> 'a fifo_answer \<times> 'a list" where
  "fifo_step n (Push v) xs =
     (if length xs < n then (Pushed (Inr ()), xs @ [v]) else (Pushed (Inl v), xs))"
| "fifo_step n (Force_Push v) xs =
     (if length xs < n then (Forced None, xs @ [v]) else (Forced (Some (hd xs)), tl xs @ [v]))"
| "fifo_step n Pop xs = (case xs of [] \<Rightarrow> (Popped None, []) | x # xs \<Rightarrow> (Popped (Some x), xs))"

fun fifo_run :: "nat \<Rightarrow> 'a fifo_op list \<Rightarrow> 'a list \<Rightarrow> 'a fifo_answer list \<times> 'a list" where
  "fifo_run n [] xs = ([], xs)"
| "fifo_run n (op # ops) xs =
     (let (a, xs) = fifo_step n op xs; (as, xs) = fifo_run n ops xs in (a # as, xs))"

text \<open>The same calls on an implementation; \<open>None\<close> if one of them faults or does not return.\<close>

type_synonym ('a, 'q) enqueue = "'a \<Rightarrow> 'q \<Rightarrow> ((fault + ('a + unit)) \<times> 'q) option"
type_synonym ('a, 'q) dequeue = "'q \<Rightarrow> ((fault + 'a option) \<times> 'q) option"
type_synonym ('a, 'q) replace = "'a \<Rightarrow> 'q \<Rightarrow> ((fault + 'a option) \<times> 'q) option"

definition answered :: "('r \<Rightarrow> 'a fifo_answer) \<Rightarrow> ((fault + 'r) \<times> 'q) option \<Rightarrow> ('a fifo_answer \<times> 'q) option" where
  "answered f res = (case res of Some (Inr r, q) \<Rightarrow> Some (f r, q) | _ \<Rightarrow> None)"

fun impl_step ::
  "('a, 'q) enqueue \<Rightarrow> ('a, 'q) replace \<Rightarrow> ('a, 'q) dequeue \<Rightarrow> 'a fifo_op \<Rightarrow> 'q \<Rightarrow> ('a fifo_answer \<times> 'q) option" where
  "impl_step enq force deq (Push v) q = answered Pushed (enq v q)"
| "impl_step enq force deq (Force_Push v) q = answered Forced (force v q)"
| "impl_step enq force deq Pop q = answered Popped (deq q)"

fun impl_run ::
  "('a, 'q) enqueue \<Rightarrow> ('a, 'q) replace \<Rightarrow> ('a, 'q) dequeue \<Rightarrow> 'a fifo_op list \<Rightarrow> 'q
     \<Rightarrow> ('a fifo_answer list \<times> 'q) option" where
  "impl_run enq force deq [] q = Some ([], q)"
| "impl_run enq force deq (op # ops) q =
     (case impl_step enq force deq op q of None \<Rightarrow> None | Some (a, q) \<Rightarrow>
        map_option (\<lambda>(as, q). (a # as, q)) (impl_run enq force deq ops q))"

section \<open>Draining\<close>

text \<open>
  \<open>while let Some(x) = queue.pop() { f(x) }\<close>, where \<open>f\<close> works on another state \<open>'w\<close>
  and may fault.
\<close>

definition drain_pass ::
  "('a, 'q) dequeue \<Rightarrow> ('a \<Rightarrow> 'w \<Rightarrow> fault + 'w) \<Rightarrow> 'q \<times> 'w \<Rightarrow> ('q \<times> 'w, (fault + unit) \<times> 'q \<times> 'w) pass option" where
  "drain_pass deq f vars = (case vars of (q, w) \<Rightarrow>
     (case deq q of None \<Rightarrow> None | Some (r, q) \<Rightarrow>
      (case r of
         Inl e \<Rightarrow> Some (Leave (Inl e, q, w))
       | Inr None \<Rightarrow> Some (Leave (Inr (), q, w))
       | Inr (Some x) \<Rightarrow>
           (case f x w of Inl e \<Rightarrow> Some (Leave (Inl e, q, w)) | Inr w \<Rightarrow> Some (Again (q, w))))))"

definition drain ::
  "('a, 'q) dequeue \<Rightarrow> ('a \<Rightarrow> 'w \<Rightarrow> fault + 'w) \<Rightarrow> 'q \<Rightarrow> 'w \<Rightarrow> ((fault + unit) \<times> 'q \<times> 'w) option" where
  "drain deq f q w = run_loop (drain_pass deq f) (q, w)"

text \<open>The calls of \<open>f\<close> a drain of \<open>xs\<close> makes.\<close>

fun each :: "('a \<Rightarrow> 'w \<Rightarrow> fault + 'w) \<Rightarrow> 'a list \<Rightarrow> 'w \<Rightarrow> fault + 'w" where
  "each f [] w = Inr w"
| "each f (x # xs) w = (case f x w of Inl e \<Rightarrow> Inl e | Inr w \<Rightarrow> each f xs w)"

lemma each_append: "each f (xs @ ys) w = (case each f xs w of Inl e \<Rightarrow> Inl e | Inr w \<Rightarrow> each f ys w)"
  by (induction xs arbitrary: w) (auto split: sum.splits)

section \<open>The interface\<close>

text \<open>\<open>has q n xs\<close>: the queue \<open>q\<close> has capacity \<open>n\<close> and holds \<open>xs\<close>, oldest first.\<close>

locale bounded_fifo =
  fixes enq :: "'a \<Rightarrow> 'q \<Rightarrow> ((fault + ('a + unit)) \<times> 'q) option"
    and deq :: "'q \<Rightarrow> ((fault + 'a option) \<times> 'q) option"
    and has :: "'q \<Rightarrow> nat \<Rightarrow> 'a list \<Rightarrow> bool"
  assumes enq_room: "has q n xs \<Longrightarrow> length xs < n \<Longrightarrow>
      \<exists>q'. enq v q = Some (Inr (Inr ()), q') \<and> has q' n (xs @ [v])"
    and enq_full: "has q n xs \<Longrightarrow> length xs = n \<Longrightarrow> \<exists>q'. enq v q = Some (Inr (Inl v), q') \<and> has q' n xs"
    and deq_some: "has q n (x # xs) \<Longrightarrow> \<exists>q'. deq q = Some (Inr (Some x), q') \<and> has q' n xs"
    and deq_none: "has q n [] \<Longrightarrow> \<exists>q'. deq q = Some (Inr None, q') \<and> has q' n []"
    and bounded: "has q n xs \<Longrightarrow> length xs \<le> n"
begin

lemma drain_all:
  assumes "has q n xs" "each f xs w = Inr w'"
  shows "\<exists>q'. drain deq f q w = Some (Inr (), q', w') \<and> has q' n []"
  using assms
proof (induction xs arbitrary: q w)
  case Nil
  then show ?case
    using deq_none [OF Nil(1)] by (auto simp: drain_def drain_pass_def run_loop_leave)
next
  case (Cons x xs)
  obtain q1 where q1: "deq q = Some (Inr (Some x), q1)" "has q1 n xs"
    using deq_some [OF Cons.prems(1)] by blast
  obtain w1 where w1: "f x w = Inr w1" "each f xs w1 = Inr w'"
    using Cons.prems(2) by (auto split: sum.splits)
  have "drain deq f q w = drain deq f q1 w1"
    by (simp add: drain_def, rule run_loop_again) (simp add: drain_pass_def q1 w1)
  with Cons.IH [OF q1(2) w1(2)] show ?case by simp
qed

lemma drain_fault:
  assumes "has q n xs" "each f xs w = Inl e"
  shows "\<exists>q' w'. drain deq f q w = Some (Inl e, q', w')"
  using assms
proof (induction xs arbitrary: q w)
  case (Cons x xs)
  obtain q1 where q1: "deq q = Some (Inr (Some x), q1)" "has q1 n xs"
    using deq_some [OF Cons.prems(1)] by blast
  show ?case
  proof (cases "f x w")
    case (Inl e')
    with Cons.prems(2) q1 show ?thesis
      by (auto simp: drain_def drain_pass_def run_loop_leave)
  next
    case (Inr w1)
    have "drain deq f q w = drain deq f q1 w1"
      by (simp add: drain_def, rule run_loop_again) (simp add: drain_pass_def q1 Inr)
    with Cons.IH [OF q1(2), of w1] Cons.prems(2) Inr show ?thesis by simp
  qed
qed simp

end

text \<open>A queue that can also be used as a ring buffer.\<close>

locale forcing_fifo = bounded_fifo +
  fixes force :: "'a \<Rightarrow> 'q \<Rightarrow> ((fault + 'a option) \<times> 'q) option"
  assumes force_room: "has q n xs \<Longrightarrow> length xs < n \<Longrightarrow>
      \<exists>q'. force v q = Some (Inr None, q') \<and> has q' n (xs @ [v])"
    and force_full: "has q n (x # xs) \<Longrightarrow> length (x # xs) = n \<Longrightarrow>
      \<exists>q'. force v q = Some (Inr (Some x), q') \<and> has q' n (xs @ [v])"
    and roomy: "has q n xs \<Longrightarrow> 0 < n"
begin

lemma step_refines:
  assumes q: "has q n xs"
  shows "\<exists>q'. impl_step enq force deq op q = Some (fst (fifo_step n op xs), q') \<and>
              has q' n (snd (fifo_step n op xs))"
proof (cases op)
  case (Push v)
  show ?thesis
  proof (cases "length xs < n")
    case True
    with enq_room [OF q, of v] Push show ?thesis by (auto simp: answered_def)
  next
    case False
    with bounded [OF q] have "length xs = n" by simp
    with enq_full [OF q, of v] Push show ?thesis by (auto simp: answered_def)
  qed
next
  case (Force_Push v)
  show ?thesis
  proof (cases "length xs < n")
    case True
    with force_room [OF q, of v] Force_Push show ?thesis by (auto simp: answered_def)
  next
    case False
    with bounded [OF q] roomy [OF q] obtain y ys where "xs = y # ys" "length (y # ys) = n"
      by (cases xs) auto
    with force_full [of q n y ys v] q False Force_Push show ?thesis by (auto simp: answered_def)
  qed
next
  case Pop
  then show ?thesis
    using q deq_none [of q n] deq_some [of q n]
    by (cases xs) (fastforce simp: answered_def)+
qed

theorem run_refines:
  assumes "has q n xs"
  shows "\<exists>q'. impl_run enq force deq ops q = Some (fst (fifo_run n ops xs), q') \<and>
              has q' n (snd (fifo_run n ops xs))"
  using assms
proof (induction ops arbitrary: q xs)
  case (Cons op ops)
  obtain q1 where "impl_step enq force deq op q = Some (fst (fifo_step n op xs), q1)"
    and q1: "has q1 n (snd (fifo_step n op xs))"
    using step_refines [OF Cons.prems] by blast
  with Cons.IH [OF q1] show ?case by (auto simp: split_beta)
qed simp

end

section \<open>The specification is first in, first out\<close>

text \<open>Pushing a list that fits and popping as often returns it in order.\<close>

lemma fifo_run_pushes:
  "length xs + length vs \<le> n \<Longrightarrow>
     fifo_run n (map Push vs) xs = (map (\<lambda>_. Pushed (Inr ())) vs, xs @ vs)"
  by (induction vs arbitrary: xs) auto

lemma fifo_run_pops: "fifo_run n (map (\<lambda>_. Pop) xs) xs = (map (\<lambda>x. Popped (Some x)) xs, [])"
proof -
  have "fifo_run n (map (\<lambda>_. Pop) us) (us @ ys) = (map (\<lambda>x. Popped (Some x)) us, ys)" for us ys :: "'a list"
    by (induction us) auto
  from this [of xs "[]"] show ?thesis by simp
qed

lemma fifo_run_bounded: "length xs \<le> n \<Longrightarrow> 0 < n \<Longrightarrow> length (snd (fifo_run n ops xs)) \<le> n"
proof (induction ops arbitrary: xs)
  case (Cons op ops)
  have "length (snd (fifo_step n op xs)) \<le> n"
    using Cons.prems by (cases op) (auto split: list.split)
  with Cons.IH Cons.prems(2) show ?case by (simp add: split_beta)
qed simp

end
