(* ===== verification/Queue_Fifo.thy ===== *)
theory Queue_Fifo
  imports Array_Queue Stamps Fifo_Spec
begin

text \<open>
  What the operations of \<open>Array_Queue\<close> do when no other thread interferes (the cells are
  quiet, although weak exchanges may still fail spuriously): the queue is a bounded FIFO list.
  \<open>ring k n h xs q\<close> is the invariant: a queue of capacity \<open>n\<close> with laps of size
  \<open>2 ^ k\<close> whose next pop is the \<open>h\<close>-th one and whose elements are \<open>xs\<close>. The
  position \<open>h\<close> is unbounded, its stamp is reduced modulo \<open>2 ^ 64\<close>, so everything
  holds across the wrap-around of the laps.
\<close>

section \<open>The invariant\<close>

text \<open>
  The backoff counter of a loop is a checked \<open>usize\<close>; a cell is patient if it cannot make a
  loop go round \<open>2 ^ 63\<close> times by spurious failures.
\<close>

definition patient :: "usize acell \<Rightarrow> bool" where
  "patient c \<longleftrightarrow> quiet c \<and> length (cenv c) < 2 ^ 63"

definition slot_ok :: "nat \<Rightarrow> nat \<Rightarrow> nat \<Rightarrow> 'a list \<Rightarrow> nat \<Rightarrow> 'a slot \<Rightarrow> bool" where
  "slot_ok k n h xs j s \<longleftrightarrow> quiet (stamp s) \<and>
     (if j < length xs then cval (stamp s) = enc k n (h + j) + 1 \<and> sval s = Some (xs ! j)
      else cval (stamp s) = enc k n (h + j))"

definition shape :: "nat \<Rightarrow> nat \<Rightarrow> 'a array_queue \<Rightarrow> bool" where
  "shape k n q \<longleftrightarrow> lap_ok k n \<and> length (buffer q) = n \<and> one_lap q = 2 ^ k"

definition ring :: "nat \<Rightarrow> nat \<Rightarrow> nat \<Rightarrow> 'a list \<Rightarrow> 'a array_queue \<Rightarrow> bool" where
  "ring k n h xs q \<longleftrightarrow> shape k n q \<and> length xs \<le> n \<and>
     patient (head q) \<and> cval (head q) = enc k n h \<and>
     patient (tail q) \<and> cval (tail q) = enc k n (h + length xs) \<and>
     (\<forall>j<n. slot_ok k n h xs j (buffer q ! ((h + j) mod n)))"

definition holds :: "'a array_queue \<Rightarrow> nat \<Rightarrow> 'a list \<Rightarrow> bool" where
  "holds q n xs \<longleftrightarrow> (\<exists>k h. ring k n h xs q)"

lemma ringD:
  assumes "ring k n h xs q"
  shows "shape k n q" "lap_ok k n" "length (buffer q) = n" "one_lap q = 2 ^ k" "length xs \<le> n"
    "patient (head q)" "cval (head q) = enc k n h"
    "patient (tail q)" "cval (tail q) = enc k n (h + length xs)"
    "j < n \<Longrightarrow> slot_ok k n h xs j (buffer q ! ((h + j) mod n))" "0 < n"
  using assms by (auto simp: ring_def shape_def dest: lap_okD)

lemma ringI:
  assumes "shape k n q" "length xs \<le> n"
    "patient (head q)" "cval (head q) = enc k n h"
    "patient (tail q)" "cval (tail q) = enc k n (h + length xs)"
    "\<And>j. j < n \<Longrightarrow> slot_ok k n h xs j (buffer q ! ((h + j) mod n))"
  shows "ring k n h xs q"
  using assms by (auto simp: ring_def)

lemma patientD: "patient c \<Longrightarrow> quiet c"
  by (simp add: patient_def)

lemma patient_load: "patient c \<Longrightarrow> patient (snd (load c))"
  by (auto simp: patient_def quiet_load)

lemma patient_store: "patient c \<Longrightarrow> patient (store v c)"
  by (auto simp: patient_def quiet_store)

section \<open>Stamps of a well-shaped queue\<close>

lemma one_le_pow2: "k < 64 \<Longrightarrow> (1 :: usize) \<le> 2 ^ k"
  using unat_gt_0 [of "2 ^ k :: usize"] by (simp add: word_le_nat_alt Suc_le_eq)

lemma deconstruct_enc:
  assumes "shape k n q"
  shows "deconstruct pr q (enc k n p) = Inr (idx_part n p, lap_part k n p)"
proof -
  have lap: "lap_ok k n" and q: "one_lap q = 2 ^ k" using assms by (auto simp: shape_def)
  have "checked_sub pr (one_lap q) 1 = Inr (mask k)"
    using one_le_pow2 [OF lap_okD(3) [OF lap]] by (simp add: q arith_ok pow2_minus_1_mask)
  then show ?thesis
    by (simp add: deconstruct_def enc_index [OF lap] enc_lap [OF lap])
qed

lemma slot_lt_capacity:
  assumes "shape k n q"
  shows "unat (idx_part n p) = p mod n" "idx_part n p < capacity q" "p mod n < n"
    "unat (capacity q) = n"
proof -
  have n: "0 < n" "n < 2 ^ 63" and len: "length (buffer q) = n"
    using assms lap_okD by (auto simp: shape_def)
  from n show "p mod n < n" by simp
  with n have "p mod n < 2 ^ 64" by simp
  then show 1: "unat (idx_part n p) = p mod n"
    by (simp only: idx_part_def unat_of_nat) simp
  from n show 2: "unat (capacity q) = n"
    by (simp only: capacity_def len unat_of_nat) simp
  show "idx_part n p < capacity q"
    using n by (simp only: word_less_nat_alt 1 2) simp
qed

lemma slot_index_enc: "shape k n q \<Longrightarrow> slot_index pr q (idx_part n p) = Inr (p mod n)"
  by (simp add: slot_index_def slot_lt_capacity)

lemma checked_enc: "lap_ok k n \<Longrightarrow> checked_add pr (enc k n p) 1 = Inr (enc k n p + 1)"
  using enc_no_overflow [of k n p] by (simp add: arith_ok)

lemma advance_enc:
  assumes q: "shape k n q"
  shows "advance pr q (enc k n p) (idx_part n p) (lap_part k n p) =
    Inr (enc k n (Suc p))"
proof -
  have lap: "lap_ok k n" and lap_q: "one_lap q = 2 ^ k" using q by (auto simp: shape_def)
  have n: "0 < n" "n < 2 ^ 63" "p mod n < n" using lap_okD [OF lap] by auto
  have i: "unat (idx_part n p + 1) = p mod n + 1"
    using n slot_lt_capacity(1) [OF q, of p] by (simp add: unat_word_ariths)
  have add: "checked_add pr (idx_part n p) 1 = Inr (idx_part n p + 1)"
    using n slot_lt_capacity(1) [OF q, of p] by (intro checked_add_ok) simp
  show ?thesis
  proof (cases "p mod n + 1 < n")
    case True
    then show ?thesis
      by (simp add: advance_def add word_less_nat_alt i slot_lt_capacity(4) [OF q]
          checked_enc [OF lap] enc_Suc_same [OF lap])
  next
    case False
    with n have "p mod n + 1 = n" by linarith
    then show ?thesis
      by (simp add: advance_def add word_less_nat_alt i slot_lt_capacity(4) [OF q] lap_q
          enc_Suc_wrap [OF lap])
  qed
qed

lemmas stamp_arith = deconstruct_enc slot_index_enc advance_enc

section \<open>Loads keep the queue\<close>

lemma window_update:
  assumes "length b = n" "j < n" "m < n"
  shows "b[(h + m) mod n := s] ! ((h + j) mod n) = (if j = m then s else b ! ((h + j) mod n))"
  using assms window_slot_ne [of j n m h] by (auto simp: nth_list_update)

lemma shifted_slot:
  assumes "length b = n" "j < n"
  shows "b[h mod n := s] ! (Suc (h + j) mod n) = (if Suc j = n then s else b ! (Suc (h + j) mod n))"
proof (cases "Suc j = n")
  case True
  then have "Suc (h + j) mod n = h mod n" by (metis add_Suc_right mod_add_self2)
  with True assms show ?thesis by simp
next
  case False
  with assms window_update [of b n "Suc j" 0 h s] show ?thesis by simp
qed

lemma ring_upd_head: "ring k n h xs q \<Longrightarrow> patient c \<Longrightarrow> cval c = enc k n h \<Longrightarrow> ring k n h xs (q\<lparr>head := c\<rparr>)"
  and ring_upd_tail:
    "ring k n h xs q \<Longrightarrow> patient c \<Longrightarrow> cval c = enc k n (h + length xs) \<Longrightarrow> ring k n h xs (q\<lparr>tail := c\<rparr>)"
  by (auto simp: ring_def shape_def)

lemma ring_load_head:
  assumes "ring k n h xs q"
  obtains q' where "load_head q = (enc k n h, q')" "ring k n h xs q'" "tail q' = tail q"
    "length (cenv (head q')) \<le> length (cenv (head q))"
proof (rule that)
  note q = ringD(6,7) [OF assms]
  show "load_head q = (enc k n h, q\<lparr>head := snd (load (head q))\<rparr>)"
    using q by (simp add: load_head_def split_beta quiet_load patientD)
  show "ring k n h xs (q\<lparr>head := snd (load (head q))\<rparr>)"
    using q by (intro ring_upd_head [OF assms]) (simp_all add: patient_load quiet_load patientD)
qed (simp_all add: quiet_load patientD ringD [OF assms])

lemma ring_load_tail:
  assumes "ring k n h xs q"
  obtains q' where "load_tail q = (enc k n (h + length xs), q')" "ring k n h xs q'" "head q' = head q"
    "length (cenv (tail q')) \<le> length (cenv (tail q))"
proof (rule that)
  note q = ringD(8,9) [OF assms]
  show "load_tail q = (enc k n (h + length xs), q\<lparr>tail := snd (load (tail q))\<rparr>)"
    using q by (simp add: load_tail_def split_beta quiet_load patientD)
  show "ring k n h xs (q\<lparr>tail := snd (load (tail q))\<rparr>)"
    using q by (intro ring_upd_tail [OF assms]) (simp_all add: patient_load quiet_load patientD)
qed (simp_all add: quiet_load patientD ringD [OF assms])

text \<open>The stamp of the slot of position \<open>h + j\<close>.\<close>

lemma ring_load_stamp:
  assumes q: "ring k n h xs q" and j: "j < n"
  obtains q' where
    "load_stamp ((h + j) mod n) q = (enc k n (h + j) + (if j < length xs then 1 else 0), q')"
    "ring k n h xs q'" "head q' = head q" "tail q' = tail q"
proof (rule that)
  let ?i = "(h + j) mod n" and ?s = "buffer q ! ((h + j) mod n)"
  let ?q = "upd_slot ?i (\<lambda>s. s\<lparr>stamp := snd (load (stamp ?s))\<rparr>) q"
  have s: "slot_ok k n h xs j ?s" by (rule ringD(10) [OF q j])
  then show "load_stamp ?i q = (enc k n (h + j) + (if j < length xs then 1 else 0), ?q)"
    by (auto simp: load_stamp_def split_beta slot_ok_def quiet_load)
  have "slot_ok k n h xs j (?s\<lparr>stamp := snd (load (stamp ?s))\<rparr>)"
    using s by (auto simp: slot_ok_def quiet_load)
  moreover have "length (buffer q) = n" by (rule ringD(3) [OF q])
  ultimately show "ring k n h xs ?q"
    using q j by (auto simp: ring_def shape_def upd_slot_def window_update)
qed (simp_all add: upd_slot_def)

section \<open>Writes move the window\<close>

lemma shape_upd [simp]:
  "shape k n (upd_slot i f q) = shape k n q" "shape k n (q\<lparr>head := c\<rparr>) = shape k n q"
  "shape k n (q\<lparr>tail := c\<rparr>) = shape k n q"
  by (simp_all add: shape_def upd_slot_def)

lemma upd_slot_frame [simp]:
  "head (upd_slot i f q) = head q" "tail (upd_slot i f q) = tail q"
  "buffer (upd_slot i f q) = (buffer q)[i := f (buffer q ! i)]"
  by (simp_all add: upd_slot_def)

lemma ring_enqueue:
  assumes q: "ring k n h xs q" and room: "length xs < n"
    and c: "patient c" "cval c = enc k n (Suc (h + length xs))"
  shows "ring k n h (xs @ [v])
    (store_stamp ((h + length xs) mod n) (enc k n (h + length xs) + 1)
      (write_value ((h + length xs) mod n) v (q\<lparr>tail := c\<rparr>)))"
    (is "ring k n h (xs @ [v]) ?q")
proof (rule ringI)
  let ?i = "(h + length xs) mod n"
  note len = ringD(3) [OF q]
  have i: "?i < n" using ringD(11) [OF q] by simp
  have s: "slot_ok k n h xs (length xs) (buffer q ! ?i)" by (rule ringD(10) [OF q room])
  show "slot_ok k n h (xs @ [v]) j (buffer ?q ! ((h + j) mod n))" if j: "j < n" for j
    using ringD(10) [OF q j] s i
    by (cases "j = length xs")
      (auto simp: store_stamp_def write_value_def window_update [OF len j room] slot_ok_def
        quiet_store nth_append len split: if_splits)
qed (use ringD [OF q] c room in \<open>simp_all add: store_stamp_def write_value_def\<close>)

lemma ring_dequeue:
  assumes q: "ring k n h (x # xs) q" and c: "patient c" "cval c = enc k n (Suc h)"
  shows "ring k n (Suc h) xs (store_stamp (h mod n) (enc k n h + 2 ^ k) (q\<lparr>head := c\<rparr>))"
    (is "ring k n _ xs ?q")
proof (rule ringI)
  note len = ringD(3) [OF q]
  have i: "h mod n < n" using ringD(11) [OF q] by simp
  have s: "slot_ok k n h (x # xs) 0 (buffer q ! (h mod n))"
    using ringD(10) [OF q ringD(11) [OF q]] by simp
  have lap: "enc k n h + 2 ^ k = enc k n (h + n)" by (rule enc_add_lap [OF ringD(2) [OF q]])
  show "slot_ok k n (Suc h) xs j (buffer ?q ! ((Suc h + j) mod n))" if j: "j < n" for j
  proof (cases "Suc j = n")
    case True
    with s lap ringD(5) [OF q] show ?thesis
      by (auto simp: store_stamp_def shifted_slot [OF len j] slot_ok_def quiet_store)
  next
    case False
    with j have "Suc j < n" by simp
    from ringD(10) [OF q this] False show ?thesis
      by (auto simp: store_stamp_def shifted_slot [OF len j] slot_ok_def)
  qed
qed (use ringD [OF q] c in \<open>simp_all add: store_stamp_def\<close>)

lemma ring_replace:
  assumes q: "ring k n h (x # xs) q" and full: "length (x # xs) = n"
    and c: "patient c" "cval c = enc k n (Suc h)" and d: "patient d" "cval d = enc k n (Suc (h + n))"
  shows "ring k n (Suc h) (xs @ [v])
    (store_stamp (h mod n) (enc k n (h + n) + 1) (write_value (h mod n) v (q\<lparr>head := c, tail := d\<rparr>)))"
    (is "ring k n _ _ ?q")
proof (rule ringI)
  note len = ringD(3) [OF q]
  have i: "h mod n < n" using ringD(11) [OF q] by simp
  have s: "slot_ok k n h (x # xs) 0 (buffer q ! (h mod n))"
    using ringD(10) [OF q ringD(11) [OF q]] by simp
  show "slot_ok k n (Suc h) (xs @ [v]) j (buffer ?q ! ((Suc h + j) mod n))" if j: "j < n" for j
  proof (cases "Suc j = n")
    case True
    with s full i show ?thesis
      by (auto simp: store_stamp_def write_value_def shifted_slot [OF len j] slot_ok_def quiet_store
          nth_append len)
  next
    case False
    with j have "Suc j < n" by simp
    from ringD(10) [OF q this] False full show ?thesis
      by (auto simp: store_stamp_def write_value_def shifted_slot [OF len j] slot_ok_def nth_append len)
  qed
qed (use ringD [OF q] c d full in \<open>simp_all add: store_stamp_def write_value_def\<close>)

section \<open>Passes of the loops\<close>

lemma patient_cas:
  assumes "patient c" "cval c = old"
  obtains (Ok) c' where "compare_exchange_weak old new c = (Inr old, c')" "cval c' = new" "patient c'"
    "length (cenv c') \<le> length (cenv c)"
  | (Err) c' where "compare_exchange_weak old new c = (Inl old, c')" "cval c' = old" "patient c'"
    "length (cenv c') < length (cenv c)"
proof (cases rule: quiet_cas [OF patientD [OF assms(1)] assms(2), of new])
  case (1 c')
  with assms(1) show ?thesis by (intro Ok [of c']) (auto simp: patient_def)
next
  case (2 c')
  with assms(1) show ?thesis by (intro Err [of c']) (auto simp: patient_def)
qed

text \<open>The backoff has counted no more than the exchanges that have failed.\<close>

definition in_time :: "backoff \<Rightarrow> usize acell \<Rightarrow> bool" where
  "in_time bo c \<longleftrightarrow> unat (calls bo) + length (cenv c) < 2 ^ 63"

lemma in_time_new: "patient c \<Longrightarrow> in_time new_backoff c"
  by (simp add: in_time_def new_backoff_def patient_def)

lemma in_time_spun:
  assumes "in_time bo c" "length (cenv c') < length (cenv c)"
  obtains bo' where "spun pr bo = Inr bo'" "in_time bo' c'"
proof -
  have "unat (calls bo) + 1 < 2 ^ 64" using assms by (simp add: in_time_def)
  with assms that [of "\<lparr>calls = calls bo + 1\<rparr>"] show ?thesis
    by (simp add: spun_ok in_time_def unat_word_ariths)
qed

lemma push_pass_room:
  assumes q: "ring k n h xs q" and room: "length xs < n" and bo: "in_time bo (tail q)"
  shows "(\<exists>q'. push_pass pr f (v, enc k n (h + length xs), bo, q) = Leave (Inr (Inr ()), q') \<and>
               ring k n h (xs @ [v]) q') \<or>
    (\<exists>bo' q'. push_pass pr f (v, enc k n (h + length xs), bo, q) =
                 Again (v, enc k n (h + length xs), bo', q') \<and>
               ring k n h xs q' \<and> in_time bo' (tail q') \<and>
               length (cenv (tail q')) < length (cenv (tail q)))"
proof -
  obtain q1 where st: "load_stamp ((h + length xs) mod n) q = (enc k n (h + length xs), q1)"
    and q1: "ring k n h xs q1" and tl1: "tail q1 = tail q"
    using ring_load_stamp [OF q room] by auto
  note arith = stamp_arith [OF ringD(1) [OF q]] checked_enc [OF ringD(2) [OF q]]
  show ?thesis
  proof (cases rule: patient_cas [OF ringD(8,9) [OF q1], of "enc k n (Suc (h + length xs))"])
    case (1 c)
    have "push_pass pr f (v, enc k n (h + length xs), bo, q) =
      Leave (Inr (Inr ()), store_stamp ((h + length xs) mod n) (enc k n (h + length xs) + 1)
        (write_value ((h + length xs) mod n) v (q1\<lparr>tail := c\<rparr>)))"
      by (simp add: push_pass_def arith st 1)
    with ring_enqueue [OF q1 room 1(3,2)] show ?thesis by blast
  next
    case (2 c)
    then obtain bo' where bo': "spun pr bo = Inr bo'" "in_time bo' c"
      using in_time_spun [OF bo] tl1 by metis
    have "push_pass pr f (v, enc k n (h + length xs), bo, q) =
      Again (v, enc k n (h + length xs), bo', q1\<lparr>tail := c\<rparr>)"
      by (simp add: push_pass_def arith st 2 bo')
    moreover have "ring k n h xs (q1\<lparr>tail := c\<rparr>)" by (rule ring_upd_tail [OF q1 2(3,2)])
    ultimately show ?thesis using 2(4) bo' tl1 by simp
  qed
qed

text \<open>On a full queue the stamp lags one lap behind and the closure \<open>f\<close> decides.\<close>

lemma push_pass_full:
  assumes q: "ring k n h xs q" and full: "length xs = n"
  obtains q1 where "ring k n h xs q1" "head q1 = head q" "tail q1 = tail q"
    "push_pass pr f (v, enc k n (h + n), bo, q) =
       (case f v (enc k n (h + n)) (enc k n (Suc (h + n))) (h mod n) q1 of (r, q) \<Rightarrow>
            (case r of
               Inl e \<Rightarrow> Leave (Inl e, q)
             | Inr (Inl v) \<Rightarrow> Leave (Inr (Inl v), q)
             | Inr (Inr v) \<Rightarrow>
                 (case spun pr bo of Inl e \<Rightarrow> Leave (Inl e, q) | Inr bo \<Rightarrow>
                  (case load_tail q of (t, q) \<Rightarrow> Again (v, t, bo, q)))))"
proof -
  have lap: "lap_ok k n" and lap_q: "one_lap q = 2 ^ k" and n: "0 < n"
    using ringD [OF q] by auto
  obtain q1 where st: "load_stamp (h mod n) q = (enc k n h + 1, q1)"
    and q1: "ring k n h xs q1" "head q1 = head q" "tail q1 = tail q"
    using ring_load_stamp [OF q n] full n by auto
  have "one_lap q1 = 2 ^ k" by (rule ringD(4) [OF q1(1)])
  moreover have "enc k n h + 1 + 2 ^ k = enc k n (h + n) + 1"
    using enc_add_lap [OF lap, of h] by (simp add: algebra_simps)
  moreover have "enc k n h + 1 \<noteq> enc k n (h + n)"
    by (rule enc_plus_1_ne [OF lap]) simp
  ultimately have "push_pass pr f (v, enc k n (h + n), bo, q) =
       (case f v (enc k n (h + n)) (enc k n (Suc (h + n))) (h mod n) q1 of (r, q) \<Rightarrow>
            (case r of
               Inl e \<Rightarrow> Leave (Inl e, q)
             | Inr (Inl v) \<Rightarrow> Leave (Inr (Inl v), q)
             | Inr (Inr v) \<Rightarrow>
                 (case spun pr bo of Inl e \<Rightarrow> Leave (Inl e, q) | Inr bo \<Rightarrow>
                  (case load_tail q of (t, q) \<Rightarrow> Again (v, t, bo, q)))))"
    using stamp_arith [OF ringD(1) [OF q], of pr "h + n"] checked_enc [OF lap] st
    by (simp add: push_pass_def eq_commute [of "enc k n (h + n)"])
  with q1 that show ?thesis by blast
qed

section \<open>Push and force_push\<close>

lemma push_or_else_room:
  assumes q: "ring k n h xs q" and room: "length xs < n"
  shows "\<exists>q'. push_or_else pr f v q = Some (Inr (Inr ()), q') \<and> ring k n h (xs @ [v]) q'"
proof -
  obtain q1 where ld: "load_tail q = (enc k n (h + length xs), q1)" and q1: "ring k n h xs q1"
    using ring_load_tail [OF q] by blast
  let ?I = "\<lambda>(w, tv, bo, p). w = v \<and> tv = enc k n (h + length xs) \<and> ring k n h xs p \<and> in_time bo (tail p)"
  have "\<exists>r. run_loop (\<lambda>s. Some (push_pass pr f s)) (v, enc k n (h + length xs), new_backoff, q1) = Some r \<and>
      (fst r = Inr (Inr ()) \<and> ring k n h (xs @ [v]) (snd r))"
  proof (rule run_loop_total [where I = ?I and m = "\<lambda>(w, tv, bo, p). length (cenv (tail p))"])
    show "?I (v, enc k n (h + length xs), new_backoff, q1)"
      using q1 in_time_new [OF ringD(8) [OF q1]] by simp
  qed (use push_pass_room [OF _ room] in \<open>fastforce split: prod.splits\<close>)
  then show ?thesis by (auto simp: push_or_else_def ld)
qed

lemma push_room:
  "ring k n h xs q \<Longrightarrow> length xs < n \<Longrightarrow>
     \<exists>q'. push pr v q = Some (Inr (Inr ()), q') \<and> ring k n h (xs @ [v]) q'"
  unfolding push_def by (rule push_or_else_room)

lemma push_full:
  assumes q: "ring k n h xs q" and full: "length xs = n"
  shows "\<exists>q'. push pr v q = Some (Inr (Inl v), q') \<and> ring k n h xs q'"
proof -
  obtain q1 where ld: "load_tail q = (enc k n (h + n), q1)" and q1: "ring k n h xs q1"
    using ring_load_tail [OF q] full by blast
  obtain q2 where q2: "ring k n h xs q2"
    and pass: "push_pass pr push_on_full (v, enc k n (h + n), new_backoff, q1) =
       (case push_on_full v (enc k n (h + n)) (enc k n (Suc (h + n))) (h mod n) q2 of (r, q) \<Rightarrow>
            (case r of
               Inl e \<Rightarrow> Leave (Inl e, q)
             | Inr (Inl v) \<Rightarrow> Leave (Inr (Inl v), q)
             | Inr (Inr v) \<Rightarrow>
                 (case spun pr new_backoff of Inl e \<Rightarrow> Leave (Inl e, q) | Inr bo \<Rightarrow>
                  (case load_tail q of (t, q) \<Rightarrow> Again (v, t, bo, q)))))"
    by (rule push_pass_full [OF q1 full])
  obtain q3 where "load_head q2 = (enc k n h, q3)" and q3: "ring k n h xs q3"
    using ring_load_head [OF q2] by blast
  then have "push_pass pr push_on_full (v, enc k n (h + n), new_backoff, q1) = Leave (Inr (Inl v), q3)"
    using enc_add_lap [OF ringD(2) [OF q3], of h] ringD(4) [OF q3]
    by (simp add: pass push_on_full_def)
  then show ?thesis
    using q3 by (simp add: push_def push_or_else_def ld run_loop_leave)
qed

lemma force_pass_full:
  assumes q: "ring k n h (x # xs) q" and full: "length (x # xs) = n" and bo: "in_time bo (head q)"
  shows "(\<exists>q'. push_pass pr (force_on_full pr) (v, enc k n (h + n), bo, q) = Leave (Inr (Inl x), q') \<and>
               ring k n (Suc h) (xs @ [v]) q') \<or>
    (\<exists>bo' q'. push_pass pr (force_on_full pr) (v, enc k n (h + n), bo, q) =
                 Again (v, enc k n (h + n), bo', q') \<and>
               ring k n h (x # xs) q' \<and> in_time bo' (head q') \<and>
               length (cenv (head q')) < length (cenv (head q)))"
proof -
  have lap: "lap_ok k n" using ringD [OF q] by blast
  obtain q1 where q1: "ring k n h (x # xs) q1" "head q1 = head q"
    and pass: "push_pass pr (force_on_full pr) (v, enc k n (h + n), bo, q) =
       (case force_on_full pr v (enc k n (h + n)) (enc k n (Suc (h + n))) (h mod n) q1 of (r, q) \<Rightarrow>
            (case r of
               Inl e \<Rightarrow> Leave (Inl e, q)
             | Inr (Inl v) \<Rightarrow> Leave (Inr (Inl v), q)
             | Inr (Inr v) \<Rightarrow>
                 (case spun pr bo of Inl e \<Rightarrow> Leave (Inl e, q) | Inr bo \<Rightarrow>
                  (case load_tail q of (t, q) \<Rightarrow> Again (v, t, bo, q)))))"
    by (rule push_pass_full [OF q full])
  have lagging: "enc k n (h + n) - one_lap q1 = enc k n h"
    "enc k n (Suc (h + n)) - one_lap q1 = enc k n (Suc h)"
    using enc_add_lap [OF lap, of h] enc_add_lap [OF lap, of "Suc h"] ringD(4) [OF q1(1)]
    by (simp_all add: diff_eq_eq)
  have val: "sval (buffer q1 ! (h mod n)) = Some x"
    using ringD(10) [OF q1(1) ringD(11) [OF q]] by (simp add: slot_ok_def)
  show ?thesis
  proof (cases rule: patient_cas [OF ringD(6,7) [OF q1(1)], of "enc k n (Suc h)"])
    case (1 c)
    let ?d = "store (enc k n (Suc (h + n))) (tail q1)"
    have "patient ?d" "cval ?d = enc k n (Suc (h + n))"
      using ringD(8) [OF q1(1)] by (simp_all add: patient_store quiet_store patientD)
    from ring_replace [OF q1(1) full 1(3,2) this, of v] show ?thesis
      by (simp add: pass force_on_full_def lagging 1 read_value_def val checked_enc [OF lap])
  next
    case (2 c)
    then obtain bo' where bo': "spun pr bo = Inr bo'" "in_time bo' c"
      using in_time_spun [OF bo] q1(2) by metis
    have r: "ring k n h (x # xs) (q1\<lparr>head := c\<rparr>)" by (rule ring_upd_head [OF q1(1) 2(3,2)])
    obtain q2 where q2: "load_tail (q1\<lparr>head := c\<rparr>) = (enc k n (h + n), q2)"
      "ring k n h (x # xs) q2" "head q2 = c"
      using ring_load_tail [OF r] full by force
    have "push_pass pr (force_on_full pr) (v, enc k n (h + n), bo, q) =
      Again (v, enc k n (h + n), bo', q2)"
      by (simp add: pass force_on_full_def lagging 2 bo' q2)
    with q2 2(4) bo' q1(2) show ?thesis by simp
  qed
qed

lemma force_push_room:
  assumes "ring k n h xs q" "length xs < n"
  shows "\<exists>q'. force_push pr v q = Some (Inr None, q') \<and> ring k n h (xs @ [v]) q'"
  using push_or_else_room [OF assms, of pr "force_on_full pr" v] by (auto simp: force_push_def)

lemma force_push_full:
  assumes q: "ring k n h (x # xs) q" and full: "length (x # xs) = n"
  shows "\<exists>q'. force_push pr v q = Some (Inr (Some x), q') \<and> ring k n (Suc h) (xs @ [v]) q'"
proof -
  obtain q1 where ld: "load_tail q = (enc k n (h + n), q1)" and q1: "ring k n h (x # xs) q1"
    using ring_load_tail [OF q] full by force
  let ?I = "\<lambda>(w, tv, bo, p). w = v \<and> tv = enc k n (h + n) \<and> ring k n h (x # xs) p \<and> in_time bo (head p)"
  have "\<exists>r. run_loop (\<lambda>s. Some (push_pass pr (force_on_full pr) s)) (v, enc k n (h + n), new_backoff, q1) = Some r \<and>
      (fst r = Inr (Inl x) \<and> ring k n (Suc h) (xs @ [v]) (snd r))"
  proof (rule run_loop_total [where I = ?I and m = "\<lambda>(w, tv, bo, p). length (cenv (head p))"])
    show "?I (v, enc k n (h + n), new_backoff, q1)"
      using q1 in_time_new [OF ringD(6) [OF q1]] by simp
  qed (use force_pass_full [OF _ full] in \<open>fastforce split: prod.splits\<close>)
  then show ?thesis by (auto simp: force_push_def push_or_else_def ld)
qed

section \<open>Pop\<close>

lemma pop_pass_some:
  assumes q: "ring k n h (x # xs) q" and bo: "in_time bo (head q)"
  shows "(\<exists>q'. pop_pass pr (enc k n h, bo, q) = Leave (Inr (Some x), q') \<and> ring k n (Suc h) xs q') \<or>
    (\<exists>bo' q'. pop_pass pr (enc k n h, bo, q) = Again (enc k n h, bo', q') \<and>
               ring k n h (x # xs) q' \<and> in_time bo' (head q') \<and>
               length (cenv (head q')) < length (cenv (head q)))"
proof -
  obtain q1 where st: "load_stamp (h mod n) q = (enc k n h + 1, q1)"
    and q1: "ring k n h (x # xs) q1" and hd1: "head q1 = head q"
    using ring_load_stamp [OF q ringD(11) [OF q]] by auto
  note arith = stamp_arith [OF ringD(1) [OF q]] stamp_arith [OF ringD(1) [OF q1]]
    checked_enc [OF ringD(2) [OF q]]
  have val: "sval (buffer q1 ! (h mod n)) = Some x"
    using ringD(10) [OF q1 ringD(11) [OF q]] by (simp add: slot_ok_def)
  show ?thesis
  proof (cases rule: patient_cas [OF ringD(6,7) [OF q1], of "enc k n (Suc h)"])
    case (1 c)
    have "pop_pass pr (enc k n h, bo, q) = Leave (Inr (Some x),
        store_stamp (h mod n) (enc k n h + 2 ^ k) (q1\<lparr>head := c\<rparr>))"
      by (simp add: pop_pass_def arith st 1 read_value_def val ringD(4) [OF q1])
    with ring_dequeue [OF q1 1(3,2)] show ?thesis by blast
  next
    case (2 c)
    then obtain bo' where bo': "spun pr bo = Inr bo'" "in_time bo' c"
      using in_time_spun [OF bo] hd1 by metis
    have "pop_pass pr (enc k n h, bo, q) = Again (enc k n h, bo', q1\<lparr>head := c\<rparr>)"
      by (simp add: pop_pass_def arith st 2 bo')
    moreover have "ring k n h (x # xs) (q1\<lparr>head := c\<rparr>)" by (rule ring_upd_head [OF q1 2(3,2)])
    ultimately show ?thesis using 2(4) bo' hd1 by simp
  qed
qed

lemma pop_some:
  assumes q: "ring k n h (x # xs) q"
  shows "\<exists>q'. pop pr q = Some (Inr (Some x), q') \<and> ring k n (Suc h) xs q'"
proof -
  obtain q1 where ld: "load_head q = (enc k n h, q1)" and q1: "ring k n h (x # xs) q1"
    using ring_load_head [OF q] by blast
  let ?I = "\<lambda>(hv, bo, p). hv = enc k n h \<and> ring k n h (x # xs) p \<and> in_time bo (head p)"
  have "\<exists>r. run_loop (\<lambda>s. Some (pop_pass pr s)) (enc k n h, new_backoff, q1) = Some r \<and>
      (fst r = Inr (Some x) \<and> ring k n (Suc h) xs (snd r))"
  proof (rule run_loop_total [where I = ?I and m = "\<lambda>(hv, bo, p). length (cenv (head p))"])
    show "?I (enc k n h, new_backoff, q1)"
      using q1 in_time_new [OF ringD(6) [OF q1]] by simp
  qed (use pop_pass_some in \<open>fastforce split: prod.splits\<close>)
  then show ?thesis by (auto simp: pop_def ld)
qed

lemma pop_none:
  assumes q: "ring k n h [] q"
  shows "\<exists>q'. pop pr q = Some (Inr None, q') \<and> ring k n h [] q'"
proof -
  obtain q1 where ld: "load_head q = (enc k n h, q1)" and q1: "ring k n h [] q1"
    using ring_load_head [OF q] by blast
  obtain q2 where st: "load_stamp (h mod n) q1 = (enc k n h, q2)" and q2: "ring k n h [] q2"
    using ring_load_stamp [OF q1 ringD(11) [OF q1]] by auto
  obtain q3 where tl: "load_tail q2 = (enc k n h, q3)" and q3: "ring k n h [] q3"
    using ring_load_tail [OF q2] by auto
  have "pop_pass pr (enc k n h, new_backoff, q1) = Leave (Inr None, q3)"
    by (simp add: pop_pass_def stamp_arith [OF ringD(1) [OF q1]] checked_enc [OF ringD(2) [OF q1]] st tl)
  with q3 show ?thesis by (simp add: pop_def ld run_loop_leave)
qed

section \<open>Observers\<close>

lemma enc_full_iff:
  assumes "lap_ok k n" "m \<le> n"
  shows "enc k n h + 2 ^ k = enc k n (h + m) \<longleftrightarrow> m = n" "enc k n (h + m) = enc k n h \<longleftrightarrow> m = 0"
proof -
  show "enc k n h + 2 ^ k = enc k n (h + m) \<longleftrightarrow> m = n"
    using enc_inj [OF assms(1), of "h + m" "h + n"] assms(2)
    by (auto simp: enc_add_lap [OF assms(1)] dest: sym)
  show "enc k n (h + m) = enc k n h \<longleftrightarrow> m = 0"
    using enc_inj [OF assms(1), of h "h + m"] assms(2) by (auto dest: sym)
qed

lemma is_empty_ring:
  assumes "ring k n h xs q"
  shows "\<exists>q'. is_empty q = (xs = [], q') \<and> ring k n h xs q'"
proof -
  obtain q1 where 1: "load_head q = (enc k n h, q1)" "ring k n h xs q1"
    using ring_load_head [OF assms] by blast
  obtain q2 where 2: "load_tail q1 = (enc k n (h + length xs), q2)" "ring k n h xs q2"
    using ring_load_tail [OF 1(2)] by blast
  with 1 enc_full_iff(2) [OF ringD(2,5) [OF assms], of h] show ?thesis by (simp add: is_empty_def)
qed

lemma is_full_ring:
  assumes "ring k n h xs q"
  shows "\<exists>q'. is_full q = (length xs = n, q') \<and> ring k n h xs q'"
proof -
  obtain q1 where 1: "load_tail q = (enc k n (h + length xs), q1)" "ring k n h xs q1"
    using ring_load_tail [OF assms] by blast
  obtain q2 where 2: "load_head q1 = (enc k n h, q2)" "ring k n h xs q2"
    using ring_load_head [OF 1(2)] by blast
  with 1 enc_full_iff(1) [OF ringD(2,5) [OF assms], of h] ringD(4) [OF 2(2)] show ?thesis
    by (simp add: is_full_def)
qed

section \<open>Exclusive access: length, drop, iteration by value\<close>

text \<open>
  What \<open>&mut self\<close> code relies on: the positions and the values of the occupied slots. An
  iterator by value does not write stamps, so \<open>ring\<close> itself is lost on its first step.
\<close>

definition filled :: "nat \<Rightarrow> nat \<Rightarrow> nat \<Rightarrow> 'a list \<Rightarrow> 'a array_queue \<Rightarrow> bool" where
  "filled k n h xs q \<longleftrightarrow> shape k n q \<and> length xs \<le> n \<and>
     cval (head q) = enc k n h \<and> cval (tail q) = enc k n (h + length xs) \<and>
     (\<forall>j<length xs. sval (buffer q ! ((h + j) mod n)) = Some (xs ! j))"

lemma ring_filled: "ring k n h xs q \<Longrightarrow> filled k n h xs q"
  by (auto simp: filled_def ring_def slot_ok_def)

lemma mod_window:
  fixes n :: nat
  assumes "m \<le> n" "0 < n"
  shows "(h + m) mod n = (if m = n then h mod n
            else if h mod n + m < n then h mod n + m else h mod n + m - n)"
proof -
  have "(h + m) mod n = (h mod n + m) mod n" by (simp add: mod_simps)
  moreover have "h mod n < n" using assms by simp
  moreover have "(a + m) mod n = a + m - n" if "n \<le> a + m" "a < n" for a
    using that assms by (simp add: le_mod_geq)
  ultimately show ?thesis using assms by simp
qed

lemma queue_size_window:
  assumes q: "shape k n q" and m: "m \<le> n"
  shows "queue_size pr (capacity q) (enc k n h) (idx_part n h) (enc k n (h + m)) (idx_part n (h + m)) =
    Inr (word_of_nat m)"
proof -
  let ?a = "h mod n" and ?b = "(h + m) mod n"
  have lap: "lap_ok k n" using q by (simp add: shape_def)
  have n: "0 < n" "n < 2 ^ 63" and a: "?a < n" and b: "?b < n" using lap_okD [OF lap] by auto
  note u = slot_lt_capacity(1) [OF q, of h] slot_lt_capacity(1) [OF q, of "h + m"]
    slot_lt_capacity(4) [OF q]
  note b_eq = mod_window [OF m n(1), of h]
  consider (lt) "?a < ?b" | (gt) "?b < ?a" | (eq) "?a = ?b" by linarith
  then show ?thesis
  proof cases
    case lt
    then have b_sum: "?b = ?a + m" using b_eq a m by (auto split: if_splits)
    have "idx_part n (h + m) - idx_part n h = word_of_nat m"
      by (simp add: idx_part_def b_sum)
    moreover from lt have "idx_part n h < idx_part n (h + m)" by (simp add: word_less_nat_alt u)
    ultimately show ?thesis by (simp add: queue_size_def arith_ok)
  next
    case gt
    then have m_eq: "m = n - ?a + ?b" using b_eq a m by (auto split: if_splits)
    from gt have less: "idx_part n (h + m) < idx_part n h" by (simp add: word_less_nat_alt u)
    have sub: "checked_sub pr (capacity q) (idx_part n h) = Inr (word_of_nat (n - ?a))"
    proof -
      have "idx_part n h \<le> capacity q" using a by (simp add: word_le_nat_alt u)
      then have "checked_sub pr (capacity q) (idx_part n h) = Inr (capacity q - idx_part n h)"
        by (rule checked_sub_ok)
      also have "capacity q - idx_part n h = word_of_nat (n - ?a)"
        using a q by (simp add: capacity_def idx_part_def shape_def of_nat_diff)
      finally show ?thesis .
    qed
    have "unat (word_of_nat (n - ?a) :: usize) = n - ?a"
      using n by (simp only: unat_of_nat) simp
    then have "checked_add pr (word_of_nat (n - ?a)) (idx_part n (h + m)) =
        Inr (word_of_nat (n - ?a) + idx_part n (h + m))"
      using n a b by (intro checked_add_ok) (simp add: u)
    moreover have "word_of_nat (n - ?a) + idx_part n (h + m) = word_of_nat m"
      by (simp only: idx_part_def of_nat_add [symmetric] m_eq [symmetric])
    moreover have "\<not> idx_part n h < idx_part n (h + m)" using less by simp
    ultimately show ?thesis using less sub by (simp add: queue_size_def)
  next
    case eq
    then have "m = 0 \<or> m = n" using b_eq a m by (auto split: if_splits)
    moreover from eq have "idx_part n h = idx_part n (h + m)" by (simp add: idx_part_def)
    ultimately show ?thesis
      using enc_full_iff(2) [OF lap m, of h] q n
      by (auto simp: queue_size_def capacity_def shape_def)
  qed
qed

lemma len_ring:
  assumes "ring k n h xs q"
  shows "\<exists>q'. len pr q = Some (Inr (word_of_nat (length xs)), q') \<and> ring k n h xs q'"
proof -
  obtain q1 where 1: "load_tail q = (enc k n (h + length xs), q1)" "ring k n h xs q1"
    using ring_load_tail [OF assms] by blast
  obtain q2 where 2: "load_head q1 = (enc k n h, q2)" "ring k n h xs q2"
    using ring_load_head [OF 1(2)] by blast
  obtain q3 where 3: "load_tail q2 = (enc k n (h + length xs), q3)" "ring k n h xs q3"
    using ring_load_tail [OF 2(2)] by blast
  have "len_pass pr q = Leave (Inr (word_of_nat (length xs)), q3)"
    using 1 2 3 ringD(1,5) [OF 3(2)]
    by (simp add: len_pass_def deconstruct_enc queue_size_window)
  with 3 show ?thesis by (simp add: len_def run_loop_leave)
qed

lemma drop_slots_filled:
  assumes q: "filled k n h xs q" and "set is \<subseteq> {..<length xs}"
  shows "drop_slots pr q (idx_part n h) is = Inr (map ((!) xs) is)"
  using assms(2)
proof (induction "is")
  case (Cons i "is")
  have sh: "shape k n q" and len: "length xs \<le> n" and i: "i < length xs"
    using q Cons.prems by (auto simp: filled_def)
  have n: "0 < n" "n < 2 ^ 63" and a: "h mod n < n"
    using lap_okD [of k n] sh by (simp_all add: shape_def)
  have ui: "unat (word_of_nat i :: usize) = i" using i len n by (simp only: unat_of_nat) simp
  note u = slot_lt_capacity(1) [OF sh, of h] slot_lt_capacity(4) [OF sh]
  have "n < 9223372036854775808" using n(2) by simp
  then have bound: "h mod n + i < 18446744073709551616" using a i len by linarith
  then have sum: "unat (idx_part n h + word_of_nat i) = h mod n + i"
    by (simp only: unat_word_ariths u ui) simp
  have add: "checked_add pr (idx_part n h) (word_of_nat i) = Inr (idx_part n h + word_of_nat i)"
    using bound by (intro checked_add_ok) (simp add: u ui)
  have idx: "(if idx_part n h + word_of_nat i < capacity q then Inr (idx_part n h + word_of_nat i)
      else checked_sub pr (idx_part n h + word_of_nat i) (capacity q)) = Inr (idx_part n (h + i))"
  proof (cases "h mod n + i < n")
    case True
    with mod_window [of i n h] n i len have "idx_part n (h + i) = idx_part n h + word_of_nat i"
      by (simp add: idx_part_def)
    with True show ?thesis by (simp add: word_less_nat_alt sum u)
  next
    case False
    have "idx_part n h + word_of_nat i - capacity q = word_of_nat (h mod n + i - n)"
      using False sh by (simp add: idx_part_def capacity_def shape_def of_nat_diff)
    also have "\<dots> = idx_part n (h + i)"
      using False mod_window [of i n h] n i len by (simp add: idx_part_def)
    finally have diff: "idx_part n h + word_of_nat i - capacity q = idx_part n (h + i)" .
    have le: "capacity q \<le> idx_part n h + word_of_nat i" and "\<not> idx_part n h + word_of_nat i < capacity q"
      using False by (simp_all add: word_less_nat_alt word_le_nat_alt sum u)
    with checked_sub_ok [OF le, of pr] show ?thesis by (simp add: diff)
  qed
  have "sval (buffer q ! ((h + i) mod n)) = Some (xs ! i)" using q i by (simp add: filled_def)
  with Cons add idx show ?case
    by (simp add: slot_index_enc [OF sh] read_value_def)
qed simp

lemma drop_queue_filled:
  assumes q: "filled k n h xs q"
  shows "drop_queue pr True q = Inr xs"
proof -
  have sh: "shape k n q" and len: "length xs \<le> n" using q by (auto simp: filled_def)
  have "length xs < 2 ^ 63" using lap_okD(7) [of k n] sh len by (simp add: shape_def)
  then have "unat (word_of_nat (length xs) :: usize) = length xs"
    by (simp only: unat_of_nat) simp
  moreover have "map ((!) xs) [0..<length xs] = xs" by (rule map_nth)
  ultimately show ?thesis
    using q drop_slots_filled [OF q, of "[0..<length xs]" pr]
    by (simp add: drop_queue_def filled_def deconstruct_enc [OF sh] queue_size_window [OF sh len]
        lessThan_def subset_iff)
qed

lemma iter_next_some:
  assumes q: "filled k n h (x # xs) q"
  shows "\<exists>q'. iter_next pr q = (Inr (Some x), q') \<and> filled k n (Suc h) xs q'"
proof -
  have sh: "shape k n q" and lap: "lap_ok k n" and len: "length (x # xs) \<le> n"
    and h: "cval (head q) = enc k n h" and t: "cval (tail q) = enc k n (h + length (x # xs))"
    and v: "\<And>j. j < length (x # xs) \<Longrightarrow> sval (buffer q ! ((h + j) mod n)) = Some ((x # xs) ! j)"
    using q by (auto simp: filled_def shape_def)
  have ne: "cval (head q) \<noteq> cval (tail q)"
    using enc_full_iff(2) [OF lap len, of h] by (simp add: h t eq_commute)
  have "iter_next pr q = (Inr (Some x), q\<lparr>head := (head q)\<lparr>cval := enc k n (Suc h)\<rparr>\<rparr>)"
    using ne v [of 0]
    by (simp add: iter_next_def h deconstruct_enc [OF sh] slot_index_enc [OF sh]
        advance_enc [OF sh] read_value_def)
  moreover have "filled k n (Suc h) xs (q\<lparr>head := (head q)\<lparr>cval := enc k n (Suc h)\<rparr>\<rparr>)"
    using sh len t v [of "Suc _"] by (auto simp: filled_def)
  ultimately show ?thesis by blast
qed

lemma iter_next_none: "filled k n h [] q \<Longrightarrow> iter_next pr q = (Inr None, q)"
  by (simp add: iter_next_def filled_def)

section \<open>A new queue\<close>

lemma pow2_from_least:
  assumes "\<forall>j<i. (2::int) ^ j < n"
  shows "\<exists>k. pow2_from (2 ^ i) n = 2 ^ k \<and> n \<le> 2 ^ k \<and> (\<forall>j<k. 2 ^ j < n)"
  using assms
proof (induction "nat (n - 2 ^ i)" arbitrary: i rule: less_induct)
  case less
  show ?case
  proof (cases "(2::int) ^ i < n")
    case True
    then have "\<forall>j<Suc i. (2::int) ^ j < n" using less.prems by (auto simp: less_Suc_eq)
    moreover have "nat (n - 2 ^ Suc i) < nat (n - 2 ^ i)" using True by simp
    ultimately obtain k where "pow2_from (2 ^ Suc i) n = 2 ^ k" "n \<le> 2 ^ k" "\<forall>j<k. 2 ^ j < n"
      using less.hyps by blast
    with True show ?thesis by (auto simp: pow2_from.simps [of "2 ^ i"])
  next
    case False
    with less.prems show ?thesis by (auto simp: pow2_from.simps [of "2 ^ i"])
  qed
qed

text \<open>One lap is the least power of two above the capacity.\<close>

lemma next_power_of_two_lap:
  assumes "0 < n" "n < 2 ^ 63"
  shows "\<exists>k. next_power_of_two pr (word_of_nat n + 1) = Inr (2 ^ k) \<and> lap_ok k n \<and> 2 ^ k \<le> 2 * n"
proof -
  have u: "uint (word_of_nat n + 1 :: usize) = int n + 1"
  proof -
    have "unat (word_of_nat (Suc n) :: usize) = Suc n"
      using assms by (simp only: unat_of_nat) simp
    then have "uint (word_of_nat (Suc n) :: usize) = int n + 1"
      by (metis of_nat_Suc uint_nat add.commute)
    then show ?thesis by (simp add: add.commute)
  qed
  obtain k where k: "pow2_from 1 (int n + 1) = 2 ^ k" "int n + 1 \<le> 2 ^ k" "\<forall>j<k. 2 ^ j < int n + 1"
    using pow2_from_least [of 0 "int n + 1"] by auto
  have "k < 64"
  proof (rule ccontr)
    assume "\<not> k < 64"
    then have "63 < k" by simp
    with k(3) have "(2::int) ^ 63 < int n + 1" by blast
    then have "int (2 ^ 63) < int (n + 1)" by simp
    with assms(2) show False by (simp only: of_nat_less_iff)
  qed
  moreover have "n < 2 ^ k"
  proof -
    have "int n < 2 ^ k" using k(2) by linarith
    then show ?thesis by simp
  qed
  ultimately have lap: "lap_ok k n" using assms by (simp add: lap_ok_def)
  have "0 < k" using \<open>n < 2 ^ k\<close> assms(1) by (cases k) auto
  then have "(2::int) ^ (k - 1) < int n + 1" using k(3) by simp
  then have "(2::int) * 2 ^ (k - 1) \<le> 2 * int n" by simp
  then have "(2::int) ^ k \<le> 2 * int n" using \<open>0 < k\<close> by (simp flip: power_Suc)
  then have "int (2 ^ k) \<le> int (2 * n)" by simp
  then have "2 ^ k \<le> 2 * n" by (simp only: of_nat_le_iff)
  moreover have "(2::int) ^ k < 2 ^ 64" using \<open>k < 64\<close> by (intro power_strict_increasing) simp_all
  ultimately show ?thesis using lap by (auto simp: next_power_of_two_def u k(1))
qed

lemma new_queue_ring:
  assumes "C \<noteq> 0" "unat C < 2 ^ 63"
  shows "\<exists>k q. new_queue pr C = Inr q \<and> ring k (unat C) 0 [] q \<and> 2 ^ k \<le> 2 * unat C"
proof -
  have n: "0 < unat C" using assms(1) by (simp add: unat_gt_0)
  have "unat C + 1 < 2 ^ 64" using assms(2) by simp
  then have add: "checked_add pr C 1 = Inr (C + 1)" by (intro checked_add_ok) simp
  obtain k where k: "next_power_of_two pr (C + 1) = Inr (2 ^ k)" "lap_ok k (unat C)" "2 ^ k \<le> 2 * unat C"
    using next_power_of_two_lap [OF n assms(2), of pr] by auto
  let ?q = "\<lparr>head = new_cell 0, tail = new_cell 0,
      buffer = map (\<lambda>i. \<lparr>stamp = new_cell (word_of_nat i), sval = None\<rparr>) [0..<unat C],
      one_lap = 2 ^ k\<rparr> :: 'a array_queue"
  have "ring k (unat C) 0 [] ?q"
  proof (rule ringI)
    show "slot_ok k (unat C) 0 [] j (buffer ?q ! ((0 + j) mod unat C))" if "j < unat C" for j
      using that by (simp add: slot_ok_def quiet_cell enc_small)
  qed (use k n in \<open>simp_all add: shape_def patient_def quiet_cell enc_0\<close>)
  with assms(1) add k show ?thesis by (auto simp: new_queue_def)
qed

section \<open>The array queue is a bounded FIFO\<close>

interpretation array_fifo: forcing_fifo "push pr" "pop pr" holds "force_push pr"
proof unfold_locales
  fix q :: "'a array_queue" and n xs x v
  show "holds q n xs \<Longrightarrow> length xs < n \<Longrightarrow> \<exists>q'. push pr v q = Some (Inr (Inr ()), q') \<and> holds q' n (xs @ [v])"
    by (metis holds_def push_room)
  show "holds q n xs \<Longrightarrow> length xs = n \<Longrightarrow> \<exists>q'. push pr v q = Some (Inr (Inl v), q') \<and> holds q' n xs"
    by (metis holds_def push_full)
  show "holds q n (x # xs) \<Longrightarrow> \<exists>q'. pop pr q = Some (Inr (Some x), q') \<and> holds q' n xs"
    by (metis holds_def pop_some)
  show "holds q n [] \<Longrightarrow> \<exists>q'. pop pr q = Some (Inr None, q') \<and> holds q' n []"
    by (metis holds_def pop_none)
  show "holds q n xs \<Longrightarrow> length xs < n \<Longrightarrow> \<exists>q'. force_push pr v q = Some (Inr None, q') \<and> holds q' n (xs @ [v])"
    by (metis holds_def force_push_room)
  show "holds q n (x # xs) \<Longrightarrow> length (x # xs) = n \<Longrightarrow>
      \<exists>q'. force_push pr v q = Some (Inr (Some x), q') \<and> holds q' n (xs @ [v])"
    by (metis holds_def force_push_full)
qed (auto simp: holds_def dest: ringD)

end
