(* ===== verification/Queue_Properties.thy ===== *)
theory Queue_Properties
  imports Queue_Fifo
begin

text \<open>
  The properties of \<open>src/array_queue.rs\<close>: the queue of any capacity answers like a bounded
  FIFO list whatever exchanges fail spuriously, is built and taken apart without losing an
  element, and spins for as long as another thread is stopped in the middle of its operation.
\<close>

section \<open>Iteration\<close>

text \<open>\<open>j\<close> calls of \<open>IntoIter::next\<close>, and the elements they yield.\<close>

fun iter_many :: "profile \<Rightarrow> nat \<Rightarrow> 'a array_queue \<Rightarrow> (fault + 'a list) \<times> 'a array_queue" where
  "iter_many pr 0 q = (Inr [], q)"
| "iter_many pr (Suc j) q = (case iter_next pr q of (r, q) \<Rightarrow>
     (case r of
        Inl e \<Rightarrow> (Inl e, q)
      | Inr None \<Rightarrow> (Inr [], q)
      | Inr (Some v) \<Rightarrow> (case iter_many pr j q of (r, q) \<Rightarrow> (map_sum id ((#) v) r, q))))"

lemma iter_many_filled:
  "filled k n h xs q \<Longrightarrow> \<exists>q'. iter_many pr j q = (Inr (take j xs), q') \<and> (\<exists>h'. filled k n h' (drop j xs) q')"
proof (induction j arbitrary: h xs q)
  case (Suc j)
  show ?case
  proof (cases xs)
    case Nil
    with Suc.prems show ?thesis by (auto simp: iter_next_none)
  next
    case (Cons x ys)
    with Suc.prems obtain q1 where q1: "iter_next pr q = (Inr (Some x), q1)" "filled k n (Suc h) ys q1"
      using iter_next_some [of k n h x ys q pr] by blast
    from Suc.IH [OF q1(2)] q1(1) Cons show ?thesis by auto
  qed
qed auto

section \<open>Threads that stop in the middle\<close>

text \<open>
  An empty queue whose tail another thread's \<open>push\<close> has moved, before it stored the value and
  the stamp; and a full one whose head another thread's \<open>pop\<close> has moved, before it stored the
  stamp.
\<close>

definition push_stalled :: "nat \<Rightarrow> nat \<Rightarrow> nat \<Rightarrow> 'a array_queue \<Rightarrow> bool" where
  "push_stalled k n h q \<longleftrightarrow> shape k n q \<and> quiet (head q) \<and> cval (head q) = enc k n h \<and>
     quiet (tail q) \<and> cval (tail q) = enc k n (Suc h) \<and>
     quiet (stamp (buffer q ! (h mod n))) \<and> cval (stamp (buffer q ! (h mod n))) = enc k n h"

definition pop_stalled :: "nat \<Rightarrow> nat \<Rightarrow> nat \<Rightarrow> 'a array_queue \<Rightarrow> bool" where
  "pop_stalled k n h q \<longleftrightarrow> shape k n q \<and> quiet (head q) \<and> cval (head q) = enc k n (Suc h) \<and>
     quiet (tail q) \<and> cval (tail q) = enc k n (h + n) \<and>
     quiet (stamp (buffer q ! (h mod n))) \<and> cval (stamp (buffer q ! (h mod n))) = enc k n h + 1"

lemma load_parts:
  "quiet (head q) \<Longrightarrow> \<exists>c. load_head q = (cval (head q), q\<lparr>head := c\<rparr>) \<and> quiet c \<and> cval c = cval (head q)"
  "quiet (tail q) \<Longrightarrow> \<exists>c. load_tail q = (cval (tail q), q\<lparr>tail := c\<rparr>) \<and> quiet c \<and> cval c = cval (tail q)"
  "quiet (stamp (buffer q ! i)) \<Longrightarrow> \<exists>c. load_stamp i q = (cval (stamp (buffer q ! i)), upd_slot i (\<lambda>s. s\<lparr>stamp := c\<rparr>) q) \<and>
     quiet c \<and> cval c = cval (stamp (buffer q ! i))"
  by (auto simp: load_head_def load_tail_def load_stamp_def split_beta quiet_load)

lemma spun_release: "\<exists>bo'. spun Release bo = Inr bo'"
  by (simp add: spun_def spin_def)

lemma Suc_enc_ne: "lap_ok k n \<Longrightarrow> enc k n (Suc h) \<noteq> enc k n h"
  using enc_inj [of k n h "Suc h"] lap_okD(1) by fastforce

lemma pop_pass_stalled:
  assumes q: "push_stalled k n h q"
  shows "\<exists>bo' q'. pop_pass Release (enc k n h, bo, q) = Again (enc k n h, bo', q') \<and> push_stalled k n h q'"
proof -
  have sh: "shape k n q" and lap: "lap_ok k n" and i: "h mod n < length (buffer q)"
    using q lap_okD(1) [of k n] by (auto simp: push_stalled_def shape_def)
  obtain c1 where c1: "load_stamp (h mod n) q = (enc k n h, upd_slot (h mod n) (\<lambda>s. s\<lparr>stamp := c1\<rparr>) q)"
    "quiet c1" "cval c1 = enc k n h"
    using load_parts(3) [of q "h mod n"] q by (auto simp: push_stalled_def)
  let ?q1 = "upd_slot (h mod n) (\<lambda>s. s\<lparr>stamp := c1\<rparr>) q"
  obtain c2 where c2: "load_tail ?q1 = (enc k n (Suc h), ?q1\<lparr>tail := c2\<rparr>)" "quiet c2" "cval c2 = enc k n (Suc h)"
    using load_parts(2) [of ?q1] q by (auto simp: push_stalled_def)
  let ?q2 = "?q1\<lparr>tail := c2\<rparr>"
  obtain c3 where c3: "load_head ?q2 = (enc k n h, ?q2\<lparr>head := c3\<rparr>)" "quiet c3" "cval c3 = enc k n h"
    using load_parts(1) [of ?q2] q by (auto simp: push_stalled_def)
  have "push_stalled k n h (?q2\<lparr>head := c3\<rparr>)"
    using q i c1(2,3) c2(2,3) c3(2,3) by (auto simp: push_stalled_def)
  moreover have "enc k n h + 1 \<noteq> enc k n h" by simp
  ultimately show ?thesis
    using spun_release [of bo] c1(1) c2(1) c3(1) Suc_enc_ne [OF lap, of h] checked_enc [OF lap, of Release h]
    by (auto simp: pop_pass_def stamp_arith [OF sh])
qed

lemma push_pass_stalled:
  assumes q: "pop_stalled k n h q"
  shows "\<exists>bo' q'. push_pass Release push_on_full (v, enc k n (h + n), bo, q) = Again (v, enc k n (h + n), bo', q') \<and>
    pop_stalled k n h q'"
proof -
  have sh: "shape k n q" and lap: "lap_ok k n" and i: "h mod n < length (buffer q)"
    and lq: "one_lap q = 2 ^ k"
    using q lap_okD(1) [of k n] by (auto simp: pop_stalled_def shape_def)
  have idx: "(h + n) mod n = h mod n" by simp
  obtain c1 where c1: "load_stamp (h mod n) q = (enc k n h + 1, upd_slot (h mod n) (\<lambda>s. s\<lparr>stamp := c1\<rparr>) q)"
    "quiet c1" "cval c1 = enc k n h + 1"
    using load_parts(3) [of q "h mod n"] q by (auto simp: pop_stalled_def)
  let ?q1 = "upd_slot (h mod n) (\<lambda>s. s\<lparr>stamp := c1\<rparr>) q"
  obtain c2 where c2: "load_head ?q1 = (enc k n (Suc h), ?q1\<lparr>head := c2\<rparr>)" "quiet c2" "cval c2 = enc k n (Suc h)"
    using load_parts(1) [of ?q1] q by (auto simp: pop_stalled_def)
  let ?q2 = "?q1\<lparr>head := c2\<rparr>"
  obtain c3 where c3: "load_tail ?q2 = (enc k n (h + n), ?q2\<lparr>tail := c3\<rparr>)" "quiet c3" "cval c3 = enc k n (h + n)"
    using load_parts(2) [of ?q2] q by (auto simp: pop_stalled_def)
  have st: "pop_stalled k n h (?q2\<lparr>tail := c3\<rparr>)"
    using q i c1(2,3) c2(2,3) c3(2,3) by (auto simp: pop_stalled_def)
  have ne: "enc k n (h + n) \<noteq> enc k n h + 1" "enc k n (Suc h) + 2 ^ k \<noteq> enc k n (h + n)"
    using enc_plus_1_ne [OF lap, of h "h + n"] Suc_enc_ne [OF lap, of "h + n"] enc_add_lap [OF lap, of "Suc h"]
    by auto
  have one: "one_lap ?q1 = 2 ^ k" using lq by (simp add: upd_slot_def)
  obtain bo' where "spun Release bo = Inr bo'" using spun_release by blast
  with c1(1) c2(1) c3(1) ne checked_enc [OF lap, of Release "h + n"] st show ?thesis
    by (simp add: push_pass_def stamp_arith [OF sh] idx push_on_full_def one enc_add_lap [OF lap])
qed

section \<open>Properties\<close>

text \<open>C16: the array queue implements a bounded FIFO: any sequence of push, force_push and pop on a queue
  that holds xs returns what the list specification returns, whatever spurious failures the exchanges
  meet, and leaves a queue that holds what the specification leaves; no call faults or loops.\<close>

theorem queue_runs_as_fifo:
  assumes "holds q n xs"
  shows "\<exists>q'. impl_run (push pr) (force_push pr) (pop pr) ops q = Some (fst (fifo_run n ops xs), q') \<and>
    holds q' n (snd (fifo_run n ops xs))"
  by (rule array_fifo.run_refines [OF assms])

text \<open>From a capacity of \<open>2 ^ 63\<close> on the lap does not fit the machine word.\<close>

lemma big_power:
  assumes "2 ^ 63 < (c :: int)" "c < 2 ^ 64"
  shows "pow2_from 1 c = 2 ^ 64"
proof -
  obtain k where k: "pow2_from 1 c = 2 ^ k" "c \<le> 2 ^ k" "\<forall>j<k. 2 ^ j < c" using pow2_from_least [of 0 c] by auto
  have "63 < k"
  proof (rule ccontr)
    assume "\<not> 63 < k"
    then have "(2::int) ^ k \<le> 2 ^ 63" by (intro power_increasing) simp_all
    with k(2) assms(1) show False by linarith
  qed
  moreover have "\<not> 64 < k" using k(3) assms(2) by (meson less_asym)
  ultimately have "k = 64" by linarith
  with k(1) show ?thesis by simp
qed

lemma new_queue_huge:
  assumes "2 ^ 63 \<le> unat C"
  shows "(new_queue Debug C :: fault + 'a array_queue) = Inl Overflow"
    "\<exists>q :: 'a array_queue. new_queue Release C = Inr q \<and> length (buffer q) = unat C \<and> one_lap q = (if C = - 1 then 1 else 0)"
proof -
  have C: "C \<noteq> 0" using assms by auto
  have "(new_queue Debug C :: fault + 'a array_queue) = Inl Overflow \<and>
    (\<exists>q :: 'a array_queue. new_queue Release C = Inr q \<and> length (buffer q) = unat C \<and> one_lap q = (if C = - 1 then 1 else 0))"
  proof (cases "C = - 1")
    case True
    have "checked_add Debug (- 1 :: usize) 1 = Inl Overflow" "checked_add Release (- 1 :: usize) 1 = Inr 0"
      "next_power_of_two Release 0 = Inr 1" by code_simp+
    then show ?thesis using C unfolding True new_queue_def by simp
  next
    case False
    have max: "unat C + 1 < 2 ^ 64"
    proof (rule ccontr)
      assume "\<not> unat C + 1 < 2 ^ 64"
      moreover have "unat C < 2 ^ LENGTH(64)" by (rule unsigned_less)
      moreover have "unat (- 1 :: usize) = 2 ^ 64 - 1" by (simp add: unsigned_minus_1_eq_mask mask_eq_exp_minus_1)
      ultimately have "unat C = unat (- 1 :: usize)" by simp
      with False show False by (simp add: word_unat_eq_iff)
    qed
    have add: "checked_add pr C 1 = Inr (C + 1)" for pr using max by (intro checked_add_ok) simp
    have u: "uint (C + 1) = int (unat C) + 1"
    proof -
      have "unat (C + 1) = unat C + 1" using max by (simp add: unat_word_ariths)
      then show ?thesis by (metis of_nat_Suc uint_nat Suc_eq_plus1 add.commute)
    qed
    have "int (2 ^ 63) \<le> int (unat C)" "int (unat C + 1) < int (2 ^ 64)"
      by (simp_all only: of_nat_le_iff of_nat_less_iff assms max)
    then have "pow2_from 1 (uint (C + 1)) = 2 ^ 64" unfolding u by (intro big_power) simp_all
    then have "next_power_of_two Debug (C + 1) = Inl Overflow" "next_power_of_two Release (C + 1) = Inr 0"
      by (simp_all add: next_power_of_two_def)
    with C False add show ?thesis by (simp add: new_queue_def)
  qed
  then show "(new_queue Debug C :: fault + 'a array_queue) = Inl Overflow"
    "\<exists>q :: 'a array_queue. new_queue Release C = Inr q \<and> length (buffer q) = unat C \<and> one_lap q = (if C = - 1 then 1 else 0)" by blast+
qed

text \<open>C35: what new does for every capacity. Zero panics. Below 2^63 the queue is empty and its lap is the least power of two above
  the capacity. From there on the lap does not fit the machine word: a debug build panics, and a release build goes on with a lap of zero,
  or of one for the largest capacity of all (no array of that many slots fits into memory, so the type cannot be used there).\<close>

theorem new_queue_shape:
  "case new_queue pr C :: fault + 'a array_queue of
     Inl e \<Rightarrow> C = 0 \<and> e = Assert_Failed \<or> 2 ^ 63 \<le> unat C \<and> pr = Debug \<and> e = Overflow
   | Inr q \<Rightarrow> C \<noteq> 0 \<and> length (buffer q) = unat C \<and>
       (if unat C < 2 ^ 63 then holds q (unat C) [] \<and> (\<exists>k. one_lap q = 2 ^ k \<and> unat C < 2 ^ k \<and> 2 ^ k \<le> 2 * unat C)
        else pr = Release \<and> one_lap q = (if C = - 1 then 1 else 0))"
proof -
  consider "C = 0" | "C \<noteq> 0" "unat C < 2 ^ 63" | "2 ^ 63 \<le> unat C" by linarith
  then show ?thesis
  proof cases
    case 1
    then show ?thesis by (simp add: new_queue_def)
  next
    case 2
    obtain k and q :: "'a array_queue" where q: "new_queue pr C = Inr q" "ring k (unat C) 0 [] q" "2 ^ k \<le> 2 * unat C"
      using new_queue_ring [OF 2] by blast
    note r = ringD [OF q(2)]
    have "unat C < 2 ^ k" using lap_okD(2) [OF r(2)] .
    with 2 q r(3,4) show ?thesis by (auto simp: holds_def)
  next
    case 3
    then have "C \<noteq> 0" by auto
    with new_queue_huge [OF 3, where 'a = 'a] 3 show ?thesis by (cases pr) auto
  qed
qed

text \<open>The observers is_empty, is_full and len tell the truth about the elements in the queue and leave them there.\<close>

theorem observers_agree:
  assumes "holds q n xs"
  shows "(\<exists>q'. is_empty q = (xs = [], q') \<and> holds q' n xs) \<and>
    (\<exists>q'. is_full q = (length xs = n, q') \<and> holds q' n xs) \<and>
    (\<exists>q'. len pr q = Some (Inr (word_of_nat (length xs)), q') \<and> holds q' n xs)"
  using assms is_empty_ring is_full_ring len_ring unfolding holds_def by metis

text \<open>C36: dropping a queue drops exactly the elements it holds, each once, oldest first.\<close>

theorem drop_drops_elements:
  assumes "holds q n xs"
  shows "drop_queue pr True q = Inr xs"
  using assms drop_queue_filled ring_filled unfolding holds_def by blast

text \<open>Iterating by value yields the elements oldest first, and dropping the iterator part-way drops the
  others: no element is lost or dropped twice.\<close>

theorem iteration_then_drop:
  assumes "holds q n xs"
  shows "\<exists>q'. iter_many pr j q = (Inr (take j xs), q') \<and> drop_queue pr True q' = Inr (drop j xs)"
proof -
  obtain k h where "filled k n h xs q" using assms ring_filled unfolding holds_def by blast
  from iter_many_filled [OF this, of pr j] drop_queue_filled [of k n _ "drop j xs" _ pr] show ?thesis by blast
qed

text \<open>C37: the queue is not lock-free: while a push is stopped between its exchange and its store, a pop by
  another thread spins without end (release build), and while a pop is stopped there, so does a push.\<close>

theorem stalled_peer_spins:
  assumes "push_stalled k n h q" "pop_stalled k n h p"
  shows "pop Release q = None \<and> push Release v p = None"
proof
  obtain c where c: "load_head q = (enc k n h, q\<lparr>head := c\<rparr>)" "quiet c" "cval c = enc k n h"
    using load_parts(1) [of q] assms(1) by (auto simp: push_stalled_def)
  then have "push_stalled k n h (q\<lparr>head := c\<rparr>)" using assms(1) by (simp add: push_stalled_def)
  then have "run_loop (\<lambda>s. Some (pop_pass Release s)) (enc k n h, new_backoff, q\<lparr>head := c\<rparr>) = None"
    by (intro run_loop_diverges [where I = "\<lambda>(x, bo, q). x = enc k n h \<and> push_stalled k n h q"])
      (simp, use pop_pass_stalled in fastforce)
  with c(1) show "pop Release q = None" by (simp add: pop_def)
next
  obtain c where c: "load_tail p = (enc k n (h + n), p\<lparr>tail := c\<rparr>)" "quiet c" "cval c = enc k n (h + n)"
    using load_parts(2) [of p] assms(2) by (auto simp: pop_stalled_def)
  then have "pop_stalled k n h (p\<lparr>tail := c\<rparr>)" using assms(2) by (simp add: pop_stalled_def)
  then have "run_loop (\<lambda>s. Some (push_pass Release push_on_full s)) (v, enc k n (h + n), new_backoff, p\<lparr>tail := c\<rparr>) = None"
    by (intro run_loop_diverges [where I = "\<lambda>(w, x, bo, q). w = v \<and> x = enc k n (h + n) \<and> pop_stalled k n h q"])
      (simp, use push_pass_stalled in fastforce)
  with c(1) show "push Release v p = None" by (simp add: push_def push_or_else_def)
qed

section \<open>Witnesses\<close>

text \<open>A queue of capacity two whose first exchange of either end fails.\<close>

definition weak_two :: "nat array_queue" where
  "weak_two = (case new_queue Debug 2 of Inr q \<Rightarrow>
     q\<lparr>head := (head q)\<lparr>cenv := [(None, False), (None, True)]\<rparr>, tail := (tail q)\<lparr>cenv := [(None, False), (None, True)]\<rparr>\<rparr>)"

lemma weak_two_holds: "holds weak_two 2 []"
proof -
  obtain k and q :: "nat array_queue" where q: "new_queue Debug 2 = Inr q" "ring k 2 0 [] q"
    using new_queue_ring [of 2 Debug] by force
  then have "ring k 2 0 [] weak_two"
    by (auto simp: weak_two_def ring_def shape_def patient_def quiet_def)
  then show ?thesis by (auto simp: holds_def)
qed

theorem queue_runs_as_fifo_witness:
  "\<exists>q'. impl_run (push Debug) (force_push Debug) (pop Debug) [Push 1, Push 2, Push 3, Force_Push 4, Pop, Pop, Pop] weak_two =
     Some ([Pushed (Inr ()), Pushed (Inr ()), Pushed (Inl 3), Forced (Some 1), Popped (Some 2), Popped (Some 4), Popped None], q')"
  using queue_runs_as_fifo [OF weak_two_holds, of Debug "[Push 1, Push 2, Push 3, Force_Push 4, Pop, Pop, Pop]"] by auto

theorem observers_agree_witness: "(\<exists>q'. is_empty weak_two = (True, q')) \<and> (\<exists>q'. len Debug weak_two = Some (Inr 0, q'))"
  using observers_agree [OF weak_two_holds, of Debug] by auto

theorem drop_drops_elements_witness:
  "\<exists>q'. push Debug 7 weak_two = Some (Inr (Inr ()), q') \<and> drop_queue Debug True q' = Inr [7]"
proof -
  obtain q' where "push Debug 7 weak_two = Some (Inr (Inr ()), q')" "holds q' 2 [7]"
    using array_fifo.enq_room [OF weak_two_holds, of Debug 7] by auto
  with drop_drops_elements [of q' 2 "[7]" Debug] show ?thesis by blast
qed

theorem iteration_then_drop_witness:
  "\<exists>q' q''. push Debug 7 weak_two = Some (Inr (Inr ()), q') \<and>
     iter_many Debug 1 q' = (Inr [7], q'') \<and> drop_queue Debug True q'' = Inr []"
proof -
  obtain q' where "push Debug 7 weak_two = Some (Inr (Inr ()), q')" "holds q' 2 [7]"
    using array_fifo.enq_room [OF weak_two_holds, of Debug 7] by auto
  with iteration_then_drop [of q' 2 "[7]" Debug 1] show ?thesis by auto
qed

text \<open>Capacity one: the first push, and the first pop after it, stopped half-way.\<close>

definition half_pushed :: "nat array_queue" where
  "half_pushed = \<lparr>head = new_cell 0, tail = new_cell 2, buffer = [\<lparr>stamp = new_cell 0, sval = None\<rparr>], one_lap = 2\<rparr>"

definition half_popped :: "nat array_queue" where
  "half_popped = \<lparr>head = new_cell 2, tail = new_cell 2, buffer = [\<lparr>stamp = new_cell 1, sval = Some 7\<rparr>], one_lap = 2\<rparr>"

theorem stalled_peer_spins_witness: "pop Release half_pushed = None \<and> push Release 8 half_popped = None"
  by (rule stalled_peer_spins [of 1 1 0])
    (simp_all add: push_stalled_def pop_stalled_def half_pushed_def half_popped_def shape_def lap_ok_def enc_def quiet_cell)

end
