(* ===== verification/Machine.thy ===== *)
theory Machine
  imports Rc_Prelude
begin

text \<open>
  Loops against machines: the code's loops are \<open>run_loop\<close>s of a whole pass, the interleaved models
  make one access a step.
\<close>

section \<open>Loops as machines\<close>

text \<open>A machine makes at most \<open>n\<close> steps, until it stops.\<close>

fun until :: "('c \<Rightarrow> 'c) \<Rightarrow> ('c \<Rightarrow> bool) \<Rightarrow> nat \<Rightarrow> 'c \<Rightarrow> 'c" where
  "until step stop 0 c = c"
| "until step stop (Suc n) c = (if stop c then c else until step stop n (step c))"

lemma until_stop: "stop c \<Longrightarrow> until step stop n c = c"
  by (cases n) auto

lemma until_add: "until step stop (m + n) c = until step stop n (until step stop m c)"
  by (induction m arbitrary: c) (auto simp: until_stop)

text \<open>
  A machine that makes a pass of a loop in some steps, from one configuration that stands for the
  loop's variables to the next, stops exactly where the loop returns.
\<close>

locale loop_machine =
  fixes step :: "'c \<Rightarrow> 'c" and stop :: "'c \<Rightarrow> bool"
    and body :: "'s \<Rightarrow> ('s, 'r) pass" and start :: "'s \<Rightarrow> 'c" and fin :: "'r \<Rightarrow> 'c"
  assumes running: "\<not> stop (start s)" and stopped: "stop (fin r)"
    and one_pass: "\<exists>n>0. until step stop n (start s) = (case body s of Again s' \<Rightarrow> start s' | Leave r \<Rightarrow> fin r)"
begin

lemma loop_stops:
  assumes "run_loop (\<lambda>s. Some (body s)) s = Some r"
  shows "\<exists>n. until step stop n (start s) = fin r"
proof (rule run_loop_partial [where I = "\<lambda>t. \<exists>n. until step stop n (start s) = start t", OF assms])
  show "\<exists>n. until step stop n (start s) = start s" by (rule exI [of _ 0]) simp
next
  fix t t' assume t: "\<exists>n. until step stop n (start s) = start t" "Some (body t) = Some (Again t')"
  then obtain m n where "until step stop m (start s) = start t" "until step stop n (start t) = start t'"
    using one_pass [of t] by auto
  then have "until step stop (m + n) (start s) = start t'" by (simp add: until_add)
  then show "\<exists>n. until step stop n (start s) = start t'" ..
next
  fix t r assume t: "\<exists>n. until step stop n (start s) = start t" "Some (body t) = Some (Leave r)"
  then obtain m n where "until step stop m (start s) = start t" "until step stop n (start t) = fin r"
    using one_pass [of t] by auto
  then have "until step stop (m + n) (start s) = fin r" by (simp add: until_add)
  then show "\<exists>n. until step stop n (start s) = fin r" ..
qed

lemma stop_returns:
  assumes "stop (until step stop n (start s))"
  shows "\<exists>r. run_loop (\<lambda>s. Some (body s)) s = Some r \<and> until step stop n (start s) = fin r"
  using assms
proof (induction n arbitrary: s rule: less_induct)
  case (less n)
  obtain j where j: "j > 0" "until step stop j (start s) = (case body s of Again s' \<Rightarrow> start s' | Leave r \<Rightarrow> fin r)"
    using one_pass [of s] by blast
  have max: "until step stop (max n j) (start s) = until step stop n (start s)"
    using until_add [of step stop n "j - n" "start s"] until_stop [of stop, OF less.prems]
    by (cases "n \<le> j") (simp_all add: max_def)
  have rest: "until step stop (max n j) (start s) = until step stop (max n j - j) (until step stop j (start s))"
    using until_add [of step stop j "max n j - j" "start s"] by simp
  show ?case
  proof (cases "body s")
    case (Leave r)
    with max rest j(2) show ?thesis
      using until_stop [of stop "fin r", OF stopped] by (auto simp: run_loop_leave)
  next
    case (Again s')
    then have eq: "until step stop n (start s) = until step stop (max n j - j) (start s')"
      using max rest j(2) by simp
    with less.prems running [of s'] have "max n j - j \<noteq> 0" by (metis until.simps(1))
    then have "max n j - j < n" using j(1) by linarith
    with less.IH [of "max n j - j" s'] less.prems eq Again show ?thesis
      by (simp add: run_loop_again)
  qed
qed

lemma stops_iff_returns:
  "(\<exists>n. until step stop n (start s) = c \<and> stop c) \<longleftrightarrow>
   (\<exists>r. run_loop (\<lambda>s. Some (body s)) s = Some r \<and> fin r = c)"
  using loop_stops stop_returns stopped by metis

end

end
