(* ===== verification/Transition.thy ===== *)
theory Transition
  imports Main
begin

text \<open>
  Transition systems: reachability by an inductive predicate, and the two arguments the
  protocol theories use, an inductive invariant and a forward simulation, each stated once as
  a locale. Executing a list of scheduling decisions gives reachable states to witnesses.
\<close>

section \<open>Reachability\<close>

inductive reachable :: "('s \<Rightarrow> bool) \<Rightarrow> ('s \<Rightarrow> 's \<Rightarrow> bool) \<Rightarrow> 's \<Rightarrow> bool"
  for init :: "'s \<Rightarrow> bool" and step :: "'s \<Rightarrow> 's \<Rightarrow> bool" where
  start: "init s \<Longrightarrow> reachable init step s"
| further: "reachable init step s \<Longrightarrow> step s s' \<Longrightarrow> reachable init step s'"

lemma reachable_steps:
  assumes "step\<^sup>*\<^sup>* s s'" "reachable init step s"
  shows "reachable init step s'"
  using assms by (induction rule: rtranclp_induct) (auto intro: further)

lemma reachable_mono:
  "reachable init step s \<Longrightarrow> (\<And>s s'. step s s' \<Longrightarrow> step' s s') \<Longrightarrow> reachable init step' s"
  by (induction rule: reachable.induct) (auto intro: reachable.intros)

text \<open>Executing decisions one after the other; \<open>None\<close> if one of them is not possible.\<close>

fun schedule :: "('d \<Rightarrow> 's \<Rightarrow> 's option) \<Rightarrow> 'd list \<Rightarrow> 's \<Rightarrow> 's option" where
  "schedule f [] s = Some s"
| "schedule f (d # ds) s = (case f d s of None \<Rightarrow> None | Some s' \<Rightarrow> schedule f ds s')"

lemma schedule_append:
  "schedule f (ds @ es) s = (case schedule f ds s of None \<Rightarrow> None | Some s' \<Rightarrow> schedule f es s')"
  by (induction ds arbitrary: s) (auto split: option.splits)

lemma schedule_steps:
  assumes "schedule f ds s = Some s'"
    and "\<And>d s s'. d \<in> set ds \<Longrightarrow> f d s = Some s' \<Longrightarrow> step s s'"
  shows "step\<^sup>*\<^sup>* s s'"
  using assms
proof (induction ds arbitrary: s)
  case (Cons d ds)
  from Cons.prems(1) obtain s1 where s1: "f d s = Some s1" "schedule f ds s1 = Some s'"
    by (auto split: option.splits)
  have "step s s1" using Cons.prems(2) [of d s s1] s1(1) by simp
  moreover have "step\<^sup>*\<^sup>* s1 s'"
    by (rule Cons.IH [OF s1(2)]) (use Cons.prems(2) in auto)
  ultimately show ?case by (rule converse_rtranclp_into_rtranclp)
qed simp

section \<open>Inductive invariants\<close>

locale invariant_system =
  fixes init :: "'s \<Rightarrow> bool" and step :: "'s \<Rightarrow> 's \<Rightarrow> bool" and inv :: "'s \<Rightarrow> bool"
  assumes inv_init: "init s \<Longrightarrow> inv s"
    and inv_step: "inv s \<Longrightarrow> step s s' \<Longrightarrow> inv s'"
begin

lemma inv_reachable: "reachable init step s \<Longrightarrow> inv s"
  by (induction rule: reachable.induct) (auto intro: inv_init inv_step)

lemma inv_steps: "step\<^sup>*\<^sup>* s s' \<Longrightarrow> inv s \<Longrightarrow> inv s'"
  by (induction rule: rtranclp_induct) (auto intro: inv_step)

end

section \<open>Forward simulation\<close>

text \<open>
  Every step of the concrete system is some steps, or none, of an abstract one that has an
  invariant.
\<close>

locale safe_simulation = abstract: invariant_system ainit astep inv
  for ainit :: "'a \<Rightarrow> bool" and astep and inv +
  fixes cinit :: "'c \<Rightarrow> bool" and cstep :: "'c \<Rightarrow> 'c \<Rightarrow> bool"
    and glue :: "'c \<Rightarrow> 'a \<Rightarrow> bool"
  assumes sim_init: "cinit c \<Longrightarrow> \<exists>a. ainit a \<and> glue c a"
    and sim_step: "glue c a \<Longrightarrow> inv a \<Longrightarrow> cstep c c' \<Longrightarrow> \<exists>a'. astep\<^sup>*\<^sup>* a a' \<and> glue c' a'"
begin

lemma sim_reachable: "reachable cinit cstep c \<Longrightarrow> \<exists>a. reachable ainit astep a \<and> glue c a"
proof (induction rule: reachable.induct)
  case (start c)
  then show ?case using sim_init reachable.start [where init = ainit and step = astep] by metis
next
  case (further c c')
  then obtain a where a: "reachable ainit astep a" "glue c a" by blast
  from sim_step [OF a(2) abstract.inv_reachable [OF a(1)] further.hyps(2)] obtain a'
    where "astep\<^sup>*\<^sup>* a a'" "glue c' a'" by blast
  with a(1) show ?case using reachable_steps [of astep a a' ainit] by blast
qed

lemma sim_steps: "cstep\<^sup>*\<^sup>* c c' \<Longrightarrow> glue c a \<Longrightarrow> inv a \<Longrightarrow> \<exists>a'. astep\<^sup>*\<^sup>* a a' \<and> glue c' a'"
proof (induction rule: rtranclp_induct)
  case (step c' c'')
  then obtain a' where a': "astep\<^sup>*\<^sup>* a a'" "glue c' a'" by blast
  from sim_step [OF a'(2) abstract.inv_steps [OF a'(1) step.prems(2)] step.hyps(2)] a'(1) show ?case
    by (meson rtranclp_trans)
qed blast

text \<open>The abstract invariant, read through the glue.\<close>

lemma safe_reachable: "reachable cinit cstep c \<Longrightarrow> \<exists>a. inv a \<and> glue c a"
  using sim_reachable abstract.inv_reachable by blast

end

end
