(* ===== verification/Atomic_Queue.thy ===== *)
theory Atomic_Queue
  imports Fifo_Spec Transition
begin

text \<open>
  What a queue shared by threads promises: every call takes effect on the bounded FIFO list of
  \<open>Fifo_Spec\<close> at one moment between its start and its return, and returns the list's
  answer. The atomic queue is the machine with exactly these behaviours; the calls and returns of
  the threads are its visible events, its log is the order in which the calls take effect.
  \<open>Queue_Threads\<close> shows that the array queue under preemption has no other events.
\<close>

section \<open>The machine\<close>

datatype 'a queue_event = Asks nat "'a fifo_op" | Gets nat "'a fifo_answer"

datatype 'a phase = Free | Asked "'a fifo_op" | Answered "'a fifo_answer"

record 'a atomic_queue =
  items :: "'a list"
  phases :: "nat \<Rightarrow> 'a phase"
  events :: "'a queue_event list"
  log :: "(nat \<times> 'a fifo_op \<times> 'a fifo_answer) list"

definition idle_queue :: "nat \<Rightarrow> 'a atomic_queue \<Rightarrow> bool" where
  "idle_queue n s \<longleftrightarrow> 0 < n \<and> s = \<lparr>items = [], phases = (\<lambda>_. Free), events = [], log = []\<rparr>"

inductive atomic_step :: "nat \<Rightarrow> 'a atomic_queue \<Rightarrow> 'a atomic_queue \<Rightarrow> bool" for n where
  ask: "phases s t = Free \<Longrightarrow>
    atomic_step n s (s\<lparr>phases := (phases s)(t := Asked opn), events := events s @ [Asks t opn]\<rparr>)"
| effect: "phases s t = Asked opn \<Longrightarrow> fifo_step n opn (items s) = (a, xs) \<Longrightarrow>
    atomic_step n s (s\<lparr>items := xs, phases := (phases s)(t := Answered a), log := log s @ [(t, opn, a)]\<rparr>)"
| answer: "phases s t = Answered a \<Longrightarrow>
    atomic_step n s (s\<lparr>phases := (phases s)(t := Free), events := events s @ [Gets t a]\<rparr>)"

section \<open>What the log says of the events and of the elements\<close>

fun thread_of :: "'a queue_event \<Rightarrow> nat" where
  "thread_of (Asks t _) = t"
| "thread_of (Gets t _) = t"

definition events_of :: "nat \<Rightarrow> 'a queue_event list \<Rightarrow> 'a queue_event list" where
  "events_of t = filter (\<lambda>e. thread_of e = t)"

text \<open>The events a thread has seen, if these are its calls that have taken effect.\<close>

definition session :: "nat \<Rightarrow> (nat \<times> 'a fifo_op \<times> 'a fifo_answer) list \<Rightarrow> 'a queue_event list" where
  "session t l = concat (map (\<lambda>(u, opn, a). [Asks t opn, Gets t a]) (filter (\<lambda>e. fst e = t) l))"

text \<open>The elements that have entered the queue, and those that have left it, in order.\<close>

fun enters :: "'a fifo_op \<times> 'a fifo_answer \<Rightarrow> 'a list" where
  "enters (Push v, Pushed (Inr _)) = [v]"
| "enters (Force_Push v, _) = [v]"
| "enters _ = []"

fun leaves :: "'a fifo_op \<times> 'a fifo_answer \<Rightarrow> 'a list" where
  "leaves (_, Popped (Some x)) = [x]"
| "leaves (_, Forced (Some x)) = [x]"
| "leaves _ = []"

definition entered :: "(nat \<times> 'a fifo_op \<times> 'a fifo_answer) list \<Rightarrow> 'a list" where
  "entered l = concat (map (enters \<circ> snd) l)"

definition left :: "(nat \<times> 'a fifo_op \<times> 'a fifo_answer) list \<Rightarrow> 'a list" where
  "left l = concat (map (leaves \<circ> snd) l)"

lemma log_snoc:
  "entered (l @ [(t, opn, a)]) = entered l @ enters (opn, a)"
  "left (l @ [(t, opn, a)]) = left l @ leaves (opn, a)"
  "session u (l @ [(t, opn, a)]) = session u l @ (if t = u then [Asks t opn, Gets t a] else [])"
  by (simp_all add: entered_def left_def session_def)

lemma events_of_snoc:
  "events_of t (es @ [e]) = events_of t es @ (if thread_of e = t then [e] else [])"
  by (simp add: events_of_def)

text \<open>One step of the list keeps the elements, and their order.\<close>

lemma fifo_step_elements:
  assumes "fifo_step n opn xs = (a, ys)" "0 < n"
  shows "xs @ enters (opn, a) = leaves (opn, a) @ ys" "length xs \<le> n \<Longrightarrow> length ys \<le> n"
proof -
  have "xs \<noteq> []" if "\<not> length xs < n" using that assms(2) by auto
  with assms show "xs @ enters (opn, a) = leaves (opn, a) @ ys" "length xs \<le> n \<Longrightarrow> length ys \<le> n"
    by (cases opn; auto split: if_splits list.splits)+
qed

lemma fifo_run_snoc:
  "fifo_run n (ops @ [opn]) xs =
     (let (as, ys) = fifo_run n ops xs; (a, zs) = fifo_step n opn ys in (as @ [a], zs))"
  by (induction ops arbitrary: xs) (auto simp: split_beta Let_def)

section \<open>The invariant\<close>

definition phase_ok :: "'a atomic_queue \<Rightarrow> nat \<Rightarrow> bool" where
  "phase_ok s t \<longleftrightarrow> (case phases s t of
     Free \<Rightarrow> events_of t (events s) = session t (log s)
   | Asked opn \<Rightarrow> events_of t (events s) = session t (log s) @ [Asks t opn]
   | Answered a \<Rightarrow> events_of t (events s) @ [Gets t a] = session t (log s))"

text \<open>
  The log is a sequential run of the list with the same answers, its elements leave in the order
  in which they entered, and each thread has seen its own calls of the log.
\<close>

definition lawful :: "nat \<Rightarrow> 'a atomic_queue \<Rightarrow> bool" where
  "lawful n s \<longleftrightarrow> 0 < n \<and> length (items s) \<le> n \<and>
     fifo_run n (map (fst \<circ> snd) (log s)) [] = (map (snd \<circ> snd) (log s), items s) \<and>
     entered (log s) = left (log s) @ items s \<and> (\<forall>t. phase_ok s t)"

lemma lawful_idle: "idle_queue n s \<Longrightarrow> lawful n s"
  by (simp add: idle_queue_def lawful_def phase_ok_def events_of_def session_def entered_def left_def)

lemma lawful_step:
  assumes "lawful n s" "atomic_step n s s'"
  shows "lawful n s'"
  using assms(2)
proof cases
  case (effect t opn a xs)
  have "phase_ok s' u" for u
    using assms(1) effect(2) unfolding lawful_def effect(1)
    by (auto simp: phase_ok_def log_snoc dest!: spec [of _ u] split: phase.splits)
  with assms(1) fifo_step_elements [OF effect(3)] show ?thesis
    unfolding lawful_def by (auto simp: effect(1,3) fifo_run_snoc log_snoc)
next
  case (ask t opn)
  have "phase_ok s' u" for u
    using assms(1) ask(2) unfolding lawful_def ask(1)
    by (auto simp: phase_ok_def events_of_snoc dest!: spec [of _ u] split: phase.splits)
  with assms(1) show ?thesis unfolding lawful_def by (auto simp: ask(1))
next
  case (answer t a)
  have "phase_ok s' u" for u
    using assms(1) answer(2) unfolding lawful_def answer(1)
    by (auto simp: phase_ok_def events_of_snoc dest!: spec [of _ u] split: phase.splits)
  with assms(1) show ?thesis unfolding lawful_def by (auto simp: answer(1))
qed

interpretation atomic: invariant_system "idle_queue n" "atomic_step n" "lawful n" for n
  by unfold_locales (fact lawful_idle, fact lawful_step)

end
