(* ===== verification/Queue_Points.thy ===== *)
theory Queue_Points
  imports Machine Atomic_Queue Array_Queue
begin

text \<open>
  The calls of \<open>Array_Queue\<close> taken apart into their accesses to shared memory, so that calls
  of several threads can be interleaved. A program point holds the local variables of the code at
  that place; \<open>q_access\<close> makes the next access (a load, exchange or store of the head, the tail
  or a stamp, or a read or write of a slot's value) and what the code computes before the access after it. The
  section at the end proves that a thread that makes its accesses one after the other computes
  what \<open>push\<close>, \<open>force_push\<close> and \<open>pop\<close> compute.
\<close>

section \<open>Program points\<close>

text \<open>The closure that \<open>push_or_else\<close> is called with.\<close>

datatype push_kind = Plain | Forcing

definition on_full :: "profile \<Rightarrow> push_kind \<Rightarrow> 'a on_full" where
  "on_full pr k = (case k of Plain \<Rightarrow> push_on_full | Forcing \<Rightarrow> force_on_full pr)"

definition pushed :: "push_kind \<Rightarrow> 'a fifo_answer" where
  "pushed k = (case k of Plain \<Rightarrow> Pushed (Inr ()) | Forcing \<Rightarrow> Forced None)"

definition given_back :: "push_kind \<Rightarrow> 'a \<Rightarrow> 'a fifo_answer" where
  "given_back k x = (case k of Plain \<Rightarrow> Pushed (Inl x) | Forcing \<Rightarrow> Forced (Some x))"

text \<open>
  In the points of a push \<open>v\<close> is the value, \<open>tv\<close> the tail, \<open>nt\<close> the new tail, \<open>i\<close> the slot, \<open>st\<close>
  the stamp to store; in those of a pop \<open>h\<close> is the head and \<open>nh\<close> the new head.
\<close>

datatype 'a q_point =
    Q_Idle
  | Push_Load push_kind 'a                           \<comment> \<open>k v: the first load of the tail\<close>
  | Push_Stamp push_kind 'a usize backoff            \<comment> \<open>k v tv: a pass begins, the stamp is loaded\<close>
  | Push_Cas push_kind 'a usize usize nat backoff    \<comment> \<open>k v tv nt i: the exchange on the tail\<close>
  | Push_Write push_kind 'a usize nat                \<comment> \<open>k v tv i\<close>
  | Push_Publish push_kind usize nat                 \<comment> \<open>k st i\<close>
  | Push_Full push_kind 'a usize usize nat backoff   \<comment> \<open>k v tv nt i: the closure's first access\<close>
  | Push_Reload push_kind 'a backoff                 \<comment> \<open>k v: the load of the tail after a pause\<close>
  | Force_Tail 'a usize usize nat                    \<comment> \<open>v tv nt i: the store to the tail\<close>
  | Force_Swap 'a usize nat                          \<comment> \<open>v tv i: the replacement of the value\<close>
  | Force_Publish 'a usize nat                       \<comment> \<open>old st i\<close>
  | Pop_Load
  | Pop_Stamp usize backoff                          \<comment> \<open>h\<close>
  | Pop_Cas usize usize nat backoff                  \<comment> \<open>h nh i: the exchange on the head\<close>
  | Pop_Read usize nat                               \<comment> \<open>h i\<close>
  | Pop_Publish 'a usize nat                         \<comment> \<open>msg h i\<close>
  | Pop_Tail usize backoff                           \<comment> \<open>h: the load of the tail of a queue that looks empty\<close>
  | Pop_Reload backoff
  | Returns "'a fifo_answer"
  | Halted fault

definition begins :: "'a fifo_op \<Rightarrow> 'a q_point" where
  "begins opn = (case opn of Push v \<Rightarrow> Push_Load Plain v | Force_Push v \<Rightarrow> Push_Load Forcing v | Pop \<Rightarrow> Pop_Load)"

section \<open>One access\<close>

text \<open>The loop of \<open>push_or_else\<close>.\<close>

fun push_access :: "profile \<Rightarrow> 'a q_point \<Rightarrow> 'a array_queue \<Rightarrow> 'a q_point \<times> 'a array_queue" where
  "push_access pr (Push_Load k v) q = (let (tv, q) = load_tail q in (Push_Stamp k v tv new_backoff, q))"
| "push_access pr (Push_Stamp k v tv bo) q =
     (case deconstruct pr q tv of Inl e \<Rightarrow> (Halted e, q) | Inr (index, lap) \<Rightarrow>
     (case advance pr q tv index lap of Inl e \<Rightarrow> (Halted e, q) | Inr nt \<Rightarrow>
     (case slot_index pr q index of Inl e \<Rightarrow> (Halted e, q) | Inr i \<Rightarrow>
     (case load_stamp i q of (st, q) \<Rightarrow>
      (if tv = st then Push_Cas k v tv nt i bo
       else
         (case checked_add pr tv 1 of Inl e \<Rightarrow> Halted e | Inr tv1 \<Rightarrow>
            if st + one_lap q = tv1 then Push_Full k v tv nt i bo
            else (case snoozed pr bo of Inl e \<Rightarrow> Halted e | Inr bo \<Rightarrow> Push_Reload k v bo)), q)))))"
| "push_access pr (Push_Cas k v tv nt i bo) q =
     (case compare_exchange_weak tv nt (tail q) of (r, c) \<Rightarrow>
      (case r of
         Inr _ \<Rightarrow> Push_Write k v tv i
       | Inl t \<Rightarrow> (case spun pr bo of Inl e \<Rightarrow> Halted e | Inr bo \<Rightarrow> Push_Stamp k v t bo), q\<lparr>tail := c\<rparr>))"
| "push_access pr (Push_Write k v tv i) q =
     (case checked_add pr tv 1 of Inl e \<Rightarrow> Halted e | Inr st \<Rightarrow> Push_Publish k st i, write_value i v q)"
| "push_access pr (Push_Publish k st i) q = (Returns (pushed k), store_stamp i st q)"
| "push_access pr (Push_Reload k v bo) q = (let (tv, q) = load_tail q in (Push_Stamp k v tv bo, q))"
| "push_access pr p q = (p, q)"

text \<open>The closures of \<open>push\<close> and of \<open>force_push\<close>.\<close>

fun full_access :: "profile \<Rightarrow> 'a q_point \<Rightarrow> 'a array_queue \<Rightarrow> 'a q_point \<times> 'a array_queue" where
  "full_access pr (Push_Full k v tv nt i bo) q = (case k of
     Plain \<Rightarrow>
       (case load_head q of (h, q) \<Rightarrow>
        (if h + one_lap q = tv then Returns (given_back Plain v)
         else (case spun pr bo of Inl e \<Rightarrow> Halted e | Inr bo \<Rightarrow> Push_Reload Plain v bo), q))
   | Forcing \<Rightarrow>
       (case compare_exchange_weak (tv - one_lap q) (nt - one_lap q) (head q) of (r, c) \<Rightarrow>
        (case r of
           Inr _ \<Rightarrow> Force_Tail v tv nt i
         | Inl _ \<Rightarrow> (case spun pr bo of Inl e \<Rightarrow> Halted e | Inr bo \<Rightarrow> Push_Reload Forcing v bo), q\<lparr>head := c\<rparr>)))"
| "full_access pr (Force_Tail v tv nt i) q = (Force_Swap v tv i, q\<lparr>tail := store nt (tail q)\<rparr>)"
| "full_access pr (Force_Swap v tv i) q =
     (case read_value i q of Inl e \<Rightarrow> (Halted e, q) | Inr old \<Rightarrow>
       (case checked_add pr tv 1 of Inl e \<Rightarrow> Halted e | Inr st \<Rightarrow> Force_Publish old st i, write_value i v q))"
| "full_access pr (Force_Publish old st i) q = (Returns (given_back Forcing old), store_stamp i st q)"
| "full_access pr p q = (p, q)"

text \<open>The loop of \<open>pop\<close>.\<close>

fun pop_access :: "profile \<Rightarrow> 'a q_point \<Rightarrow> 'a array_queue \<Rightarrow> 'a q_point \<times> 'a array_queue" where
  "pop_access pr Pop_Load q = (let (h, q) = load_head q in (Pop_Stamp h new_backoff, q))"
| "pop_access pr (Pop_Stamp h bo) q =
     (case deconstruct pr q h of Inl e \<Rightarrow> (Halted e, q) | Inr (index, lap) \<Rightarrow>
     (case slot_index pr q index of Inl e \<Rightarrow> (Halted e, q) | Inr i \<Rightarrow>
     (case load_stamp i q of (st, q) \<Rightarrow>
      (case checked_add pr h 1 of Inl e \<Rightarrow> Halted e | Inr h1 \<Rightarrow>
         if h1 = st then
           (case advance pr q h index lap of Inl e \<Rightarrow> Halted e | Inr nh \<Rightarrow> Pop_Cas h nh i bo)
         else if st = h then Pop_Tail h bo
         else (case snoozed pr bo of Inl e \<Rightarrow> Halted e | Inr bo \<Rightarrow> Pop_Reload bo), q))))"
| "pop_access pr (Pop_Cas h nh i bo) q =
     (case compare_exchange_weak h nh (head q) of (r, c) \<Rightarrow>
      (case r of
         Inr _ \<Rightarrow> Pop_Read h i
       | Inl h' \<Rightarrow> (case spun pr bo of Inl e \<Rightarrow> Halted e | Inr bo \<Rightarrow> Pop_Stamp h' bo), q\<lparr>head := c\<rparr>))"
| "pop_access pr (Pop_Read h i) q =
     (case read_value i q of Inl e \<Rightarrow> Halted e | Inr msg \<Rightarrow> Pop_Publish msg h i, q)"
| "pop_access pr (Pop_Publish msg h i) q = (Returns (Popped (Some msg)), store_stamp i (h + one_lap q) q)"
| "pop_access pr (Pop_Tail h bo) q =
     (case load_tail q of (tv, q) \<Rightarrow>
      (if tv = h then Returns (Popped None)
       else (case spun pr bo of Inl e \<Rightarrow> Halted e | Inr bo \<Rightarrow> Pop_Reload bo), q))"
| "pop_access pr (Pop_Reload bo) q = (let (h, q) = load_head q in (Pop_Stamp h bo, q))"
| "pop_access pr p q = (p, q)"

text \<open>The routine a point belongs to.\<close>

fun q_access :: "profile \<Rightarrow> 'a q_point \<Rightarrow> 'a array_queue \<Rightarrow> 'a q_point \<times> 'a array_queue" where
  "q_access pr (Push_Full a b c d e f) q = full_access pr (Push_Full a b c d e f) q"
| "q_access pr (Force_Tail a b c d) q = full_access pr (Force_Tail a b c d) q"
| "q_access pr (Force_Swap a b c) q = full_access pr (Force_Swap a b c) q"
| "q_access pr (Force_Publish a b c) q = full_access pr (Force_Publish a b c) q"
| "q_access pr Pop_Load q = pop_access pr Pop_Load q"
| "q_access pr (Pop_Stamp a b) q = pop_access pr (Pop_Stamp a b) q"
| "q_access pr (Pop_Cas a b c d) q = pop_access pr (Pop_Cas a b c d) q"
| "q_access pr (Pop_Read a b) q = pop_access pr (Pop_Read a b) q"
| "q_access pr (Pop_Publish a b c) q = pop_access pr (Pop_Publish a b c) q"
| "q_access pr (Pop_Tail a b) q = pop_access pr (Pop_Tail a b) q"
| "q_access pr (Pop_Reload a) q = pop_access pr (Pop_Reload a) q"
| "q_access pr p q = push_access pr p q"

text \<open>One thread alone: at most \<open>n\<close> accesses, until the call has returned or panicked.\<close>

fun ended :: "'a q_point \<Rightarrow> bool" where
  "ended (Returns _) = True"
| "ended (Halted _) = True"
| "ended _ = False"

definition q_solo :: "profile \<Rightarrow> nat \<Rightarrow> 'a q_point \<times> 'a array_queue \<Rightarrow> 'a q_point \<times> 'a array_queue" where
  "q_solo pr = until (\<lambda>(p, q). q_access pr p q) (\<lambda>(p, q). ended p)"

section \<open>A pass of the loops\<close>

definition push_end :: "push_kind \<Rightarrow> fault + ('a + unit) \<Rightarrow> 'a q_point" where
  "push_end k r = (case r of
     Inl e \<Rightarrow> Halted e | Inr (Inl x) \<Rightarrow> Returns (given_back k x) | Inr (Inr _) \<Rightarrow> Returns (pushed k))"

definition pop_end :: "fault + 'a option \<Rightarrow> 'a q_point" where
  "pop_end r = (case r of Inl e \<Rightarrow> Halted e | Inr x \<Rightarrow> Returns (Popped x))"

text \<open>The accesses from the beginning of a pass to the beginning of the next.\<close>

fun at_pass :: "'a q_point \<Rightarrow> bool" where
  "at_pass (Push_Stamp _ _ _ _) = True"
| "at_pass (Pop_Stamp _ _) = True"
| "at_pass p = ended p"

fun q_rest :: "profile \<Rightarrow> nat \<Rightarrow> 'a q_point \<Rightarrow> 'a array_queue \<Rightarrow> 'a q_point \<times> 'a array_queue" where
  "q_rest pr 0 p q = (p, q)"
| "q_rest pr (Suc n) p q = (if at_pass p then (p, q) else (case q_access pr p q of (p, q) \<Rightarrow> q_rest pr n p q))"

lemma q_rest_at_pass: "at_pass p \<Longrightarrow> q_rest pr n p q = (p, q)"
  by (cases n) auto

lemma q_rest_ends [simp]: "q_rest pr n (Halted e) q = (Halted e, q)" "q_rest pr n (Returns a) q = (Returns a, q)"
  by (simp_all add: q_rest_at_pass)

lemma q_rest_step: "\<not> at_pass p \<Longrightarrow> q_rest pr (Suc n) p q = (case q_access pr p q of (p, q) \<Rightarrow> q_rest pr n p q)"
  by simp

lemma rest_reload:
  "q_rest pr (Suc n) (Push_Reload k v bo) q = (case load_tail q of (tv, q) \<Rightarrow> (Push_Stamp k v tv bo, q))"
  "q_rest pr (Suc n) (Pop_Reload bo) q = (case load_head q of (h, q) \<Rightarrow> (Pop_Stamp h bo, q))"
  by (cases "load_tail q"; cases "load_head q"; simp add: q_rest_at_pass)+

lemma rest_cas:
  "q_rest pr (Suc (Suc (Suc n))) (Push_Cas k v tv nt i bo) q =
     (case compare_exchange_weak tv nt (tail q) of
        (Inr _, c) \<Rightarrow>
          (let q = write_value i v (q\<lparr>tail := c\<rparr>) in
           case checked_add pr tv 1 of Inl e \<Rightarrow> (Halted e, q) | Inr st \<Rightarrow> (Returns (pushed k), store_stamp i st q))
      | (Inl t, c) \<Rightarrow>
          (case spun pr bo of Inl e \<Rightarrow> Halted e | Inr bo \<Rightarrow> Push_Stamp k v t bo, q\<lparr>tail := c\<rparr>))"
  by (cases "compare_exchange_weak tv nt (tail q)"; cases "fst (compare_exchange_weak tv nt (tail q))";
      cases "checked_add pr tv 1"; cases "spun pr bo"; simp add: q_rest_at_pass Let_def)

lemma rest_full:
  "q_rest pr (Suc (Suc n)) (Push_Full Plain v tv nt i bo) q =
     (case load_head q of (h, q) \<Rightarrow>
      if h + one_lap q = tv then (Returns (given_back Plain v), q)
      else (case spun pr bo of Inl e \<Rightarrow> (Halted e, q) | Inr bo \<Rightarrow>
              (case load_tail q of (tv, q) \<Rightarrow> (Push_Stamp Plain v tv bo, q))))"
  "q_rest pr (Suc (Suc (Suc (Suc n)))) (Push_Full Forcing v tv nt i bo) q =
     (case compare_exchange_weak (tv - one_lap q) (nt - one_lap q) (head q) of
        (Inr _, c) \<Rightarrow>
          (let q = q\<lparr>head := c\<rparr>; q = q\<lparr>tail := store nt (tail q)\<rparr> in
           case read_value i q of Inl e \<Rightarrow> (Halted e, q) | Inr old \<Rightarrow>
             (let q = write_value i v q in
              case checked_add pr tv 1 of Inl e \<Rightarrow> (Halted e, q) | Inr st \<Rightarrow>
                (Returns (given_back Forcing old), store_stamp i st q)))
      | (Inl _, c) \<Rightarrow>
          (let q = q\<lparr>head := c\<rparr> in
           case spun pr bo of Inl e \<Rightarrow> (Halted e, q) | Inr bo \<Rightarrow>
              (case load_tail q of (tv, q) \<Rightarrow> (Push_Stamp Forcing v tv bo, q))))"
  subgoal
    by (cases "load_head q"; cases "spun pr bo"; simp add: q_rest_at_pass split: prod.split)
  subgoal
    by (cases "compare_exchange_weak (tv - one_lap q) (nt - one_lap q) (head q)";
        cases "fst (compare_exchange_weak (tv - one_lap q) (nt - one_lap q) (head q))";
        cases "read_value i (q\<lparr>tail := store nt (tail q)\<rparr>)";
        cases "checked_add pr tv 1"; cases "spun pr bo"; simp add: q_rest_at_pass Let_def read_value_def split: prod.split)
  done

lemma rest_pop:
  "q_rest pr (Suc (Suc (Suc n))) (Pop_Cas h nh i bo) q =
     (case compare_exchange_weak h nh (head q) of
        (Inr _, c) \<Rightarrow>
          (let q = q\<lparr>head := c\<rparr> in
           case read_value i q of Inl e \<Rightarrow> (Halted e, q) | Inr msg \<Rightarrow>
             (Returns (Popped (Some msg)), store_stamp i (h + one_lap q) q))
      | (Inl h', c) \<Rightarrow>
          (case spun pr bo of Inl e \<Rightarrow> Halted e | Inr bo \<Rightarrow> Pop_Stamp h' bo, q\<lparr>head := c\<rparr>))"
  "q_rest pr (Suc (Suc n)) (Pop_Tail h bo) q =
     (case load_tail q of (tv, q) \<Rightarrow>
      if tv = h then (Returns (Popped None), q)
      else (case spun pr bo of Inl e \<Rightarrow> (Halted e, q) | Inr bo \<Rightarrow>
              (case load_head q of (h', q) \<Rightarrow> (Pop_Stamp h' bo, q))))"
  subgoal
    by (cases "compare_exchange_weak h nh (head q)"; cases "fst (compare_exchange_weak h nh (head q))";
        cases "read_value i q"; cases "spun pr bo"; simp add: q_rest_at_pass Let_def read_value_def)
  subgoal
    by (cases "load_tail q"; cases "spun pr bo"; simp add: q_rest_at_pass split: prod.split)
  done

lemma push_pass_points:
  "(case q_access pr (Push_Stamp k v tv bo) q of (p, q) \<Rightarrow> q_rest pr 4 p q) =
   (case push_pass pr (on_full pr k) (v, tv, bo, q) of
      Again (v, tv, bo, q) \<Rightarrow> (Push_Stamp k v tv bo, q)
    | Leave (r, q) \<Rightarrow> (push_end k r, q))"
proof (cases "deconstruct pr q tv")
  case (Inr il)
  obtain index lap where il: "il = (index, lap)" by fastforce
  show ?thesis
  proof (cases "advance pr q tv index lap")
    case adv: (Inr nt)
    show ?thesis
    proof (cases "slot_index pr q index")
      case i: (Inr i)
      obtain st q1 where st: "load_stamp i q = (st, q1)" by fastforce
      note pass = push_pass_def Inr il adv i st numeral_eq_Suc push_end_def Let_def
      consider "tv = st" | e where "tv \<noteq> st" "checked_add pr tv 1 = Inl e"
        | tv1 where "tv \<noteq> st" "checked_add pr tv 1 = Inr tv1" "st + one_lap q1 = tv1"
        | tv1 where "tv \<noteq> st" "checked_add pr tv 1 = Inr tv1" "st + one_lap q1 \<noteq> tv1"
        by (cases "checked_add pr tv 1") auto
      then show ?thesis
      proof cases
        case 1
        then have eq: "st = tv" by simp
        show ?thesis
          by (simp add: pass eq rest_cas del: q_rest.simps(2) split: sum.split prod.split)
      next
        case 3
        then show ?thesis
          by (cases k) (simp_all add: pass rest_full on_full_def push_on_full_def force_on_full_def
              del: q_rest.simps(2) split: sum.split prod.split)
      qed (simp_all add: pass rest_reload del: q_rest.simps(2) split: sum.split prod.split)
    qed (simp add: push_pass_def Inr il adv push_end_def q_rest_at_pass)
  qed (simp add: push_pass_def Inr il push_end_def q_rest_at_pass)
qed (simp add: push_pass_def push_end_def q_rest_at_pass)

lemma pop_pass_points:
  "(case q_access pr (Pop_Stamp h bo) q of (p, q) \<Rightarrow> q_rest pr 4 p q) =
   (case pop_pass pr (h, bo, q) of
      Again (h, bo, q) \<Rightarrow> (Pop_Stamp h bo, q)
    | Leave (r, q) \<Rightarrow> (pop_end r, q))"
proof (cases "deconstruct pr q h")
  case (Inr il)
  obtain index lap where il: "il = (index, lap)" by fastforce
  show ?thesis
  proof (cases "slot_index pr q index")
    case i: (Inr i)
    obtain st q1 where st: "load_stamp i q = (st, q1)" by fastforce
    note pass = pop_pass_def Inr il i st numeral_eq_Suc pop_end_def Let_def
    consider e where "checked_add pr h 1 = Inl e" | "checked_add pr h 1 = Inr st"
      | h1 where "checked_add pr h 1 = Inr h1" "h1 \<noteq> st" "st = h"
      | h1 where "checked_add pr h 1 = Inr h1" "h1 \<noteq> st" "st \<noteq> h"
      by (cases "checked_add pr h 1") auto
    then show ?thesis
    proof cases
      case 2
      then show ?thesis
        by (cases "advance pr q1 h index lap") (simp_all add: pass rest_pop del: q_rest.simps(2) split: sum.split prod.split)
    qed (simp_all add: pass rest_pop rest_reload del: q_rest.simps(2) split: sum.split prod.split)
  qed (simp add: pop_pass_def Inr il pop_end_def q_rest_at_pass)
qed (simp add: pop_pass_def pop_end_def q_rest_at_pass)

section \<open>A whole call\<close>

lemma q_rest_solo:
  "\<exists>j. q_solo pr j (p, q) = q_rest pr n p q"
proof (induction n arbitrary: p q)
  case 0
  then show ?case by (auto simp: q_solo_def intro: exI [of _ 0])
next
  case (Suc n)
  show ?case
  proof (cases "at_pass p")
    case True
    then show ?thesis by (auto simp: q_solo_def intro: exI [of _ 0])
  next
    case False
    obtain p1 q1 where a: "q_access pr p q = (p1, q1)" by fastforce
    obtain j where "q_solo pr j (p1, q1) = q_rest pr n p1 q1" using Suc.IH by blast
    moreover have "\<not> ended p" using False by (cases p) simp_all
    ultimately have "q_solo pr (Suc j) (p, q) = q_rest pr (Suc n) p q"
      using False a by (simp add: q_solo_def)
    then show ?thesis ..
  qed
qed

lemma pass_solo:
  assumes "\<not> ended p"
  shows "\<exists>n>0. q_solo pr n (p, q) = (case q_access pr p q of (p, q) \<Rightarrow> q_rest pr m p q)"
proof -
  obtain p1 q1 where a: "q_access pr p q = (p1, q1)" by fastforce
  obtain j where "q_solo pr j (p1, q1) = q_rest pr m p1 q1" using q_rest_solo by blast
  with a assms have "q_solo pr (Suc j) (p, q) = q_rest pr m p1 q1" by (simp add: q_solo_def)
  with a show ?thesis by auto
qed

interpretation push_machine: loop_machine "\<lambda>(p, q). q_access pr p q" "\<lambda>(p, q). ended p"
    "push_pass pr (on_full pr k)" "\<lambda>(v, tv, bo, q). (Push_Stamp k v tv bo, q)" "\<lambda>(r, q). (push_end k r, q)"
  for pr k
proof
  fix s :: "'a push_vars" and r :: "'a push_result"
  obtain v tv bo q where s: "s = (v, tv, bo, q)" by (cases s) auto
  show "\<not> (case (case s of (v, tv, bo, q) \<Rightarrow> (Push_Stamp k v tv bo, q)) of (p, q) \<Rightarrow> ended p)" by (simp add: s)
  show "case (case r of (r, q) \<Rightarrow> (push_end k r, q)) of (p, q) \<Rightarrow> ended p"
    by (auto simp: push_end_def split: prod.split sum.split)
  show "\<exists>n>0. until (\<lambda>(p, q). q_access pr p q) (\<lambda>(p, q). ended p) n
      (case s of (v, tv, bo, q) \<Rightarrow> (Push_Stamp k v tv bo, q)) =
      (case push_pass pr (on_full pr k) s of Again s' \<Rightarrow> (case s' of (v, tv, bo, q) \<Rightarrow> (Push_Stamp k v tv bo, q))
       | Leave r \<Rightarrow> (case r of (r, q) \<Rightarrow> (push_end k r, q)))"
    using pass_solo [of "Push_Stamp k v tv bo" pr q 4] push_pass_points [of pr k v tv bo q]
    by (simp add: s q_solo_def)
qed

interpretation pop_machine: loop_machine "\<lambda>(p, q). q_access pr p q" "\<lambda>(p, q). ended p"
    "pop_pass pr" "\<lambda>(h, bo, q). (Pop_Stamp h bo, q)" "\<lambda>(r, q). (pop_end r, q)"
  for pr
proof
  fix s :: "'a pop_vars" and r :: "'a pop_result"
  obtain h bo q where s: "s = (h, bo, q)" by (cases s) auto
  show "\<not> (case (case s of (h, bo, q) \<Rightarrow> (Pop_Stamp h bo, q)) of (p, q) \<Rightarrow> ended p)" by (simp add: s)
  show "case (case r of (r, q) \<Rightarrow> (pop_end r, q)) of (p, q) \<Rightarrow> ended p"
    by (auto simp: pop_end_def split: prod.split sum.split)
  show "\<exists>n>0. until (\<lambda>(p, q). q_access pr p q) (\<lambda>(p, q). ended p) n
      (case s of (h, bo, q) \<Rightarrow> (Pop_Stamp h bo, q)) =
      (case pop_pass pr s of Again s' \<Rightarrow> (case s' of (h, bo, q) \<Rightarrow> (Pop_Stamp h bo, q))
       | Leave r \<Rightarrow> (case r of (r, q) \<Rightarrow> (pop_end r, q)))"
    using pass_solo [of "Pop_Stamp h bo" pr q 4] pop_pass_points [of pr h bo q]
    by (simp add: s q_solo_def)
qed

text \<open>The first load leads to the first pass.\<close>

lemma solo_first:
  assumes "\<not> ended p" "q_access pr p q = c" "\<not> ended (fst c)"
  shows "(\<exists>n. q_solo pr n (p, q) = x \<and> ended (fst x)) \<longleftrightarrow> (\<exists>n. q_solo pr n c = x \<and> ended (fst x))"
proof
  assume "\<exists>n. q_solo pr n (p, q) = x \<and> ended (fst x)"
  then obtain n where n: "q_solo pr n (p, q) = x" "ended (fst x)" by blast
  with assms(1) obtain m where "n = Suc m" by (cases n) (auto simp: q_solo_def)
  with n assms show "\<exists>n. q_solo pr n c = x \<and> ended (fst x)" by (auto simp: q_solo_def)
next
  assume "\<exists>n. q_solo pr n c = x \<and> ended (fst x)"
  then obtain n where n: "q_solo pr n c = x" "ended (fst x)" by blast
  with assms have "q_solo pr (Suc n) (p, q) = x" by (simp add: q_solo_def)
  with n show "\<exists>n. q_solo pr n (p, q) = x \<and> ended (fst x)" by blast
qed

lemma push_points:
  "(\<exists>n. q_solo pr n (Push_Load k v, q) = (p, q') \<and> ended p) \<longleftrightarrow>
   (\<exists>r. push_or_else pr (on_full pr k) v q = Some (r, q') \<and> p = push_end k r)"
proof -
  obtain tv q1 where ld: "load_tail q = (tv, q1)" by fastforce
  then have "q_access pr (Push_Load k v) q = (Push_Stamp k v tv new_backoff, q1)" by simp
  from solo_first [OF _ this, of "(p, q')"]
    push_machine.stops_iff_returns [of pr k "(v, tv, new_backoff, q1)" "(p, q')"]
  show ?thesis by (auto simp: q_solo_def push_or_else_def ld)
qed

lemma pop_points:
  "(\<exists>n. q_solo pr n (Pop_Load, q) = (p, q') \<and> ended p) \<longleftrightarrow>
   (\<exists>r. pop pr q = Some (r, q') \<and> p = pop_end r)"
proof -
  obtain h q1 where ld: "load_head q = (h, q1)" by fastforce
  then have "q_access pr Pop_Load q = (Pop_Stamp h new_backoff, q1)" by simp
  from solo_first [OF _ this, of "(p, q')"] pop_machine.stops_iff_returns [of pr "(h, new_backoff, q1)" "(p, q')"]
  show ?thesis by (auto simp: q_solo_def pop_def ld)
qed

text \<open>C26: the accesses are the code's: on cells with any interference in between, a thread that makes the accesses
  of a push ends, by a return or a panic, exactly when push_or_else returns with the closure of push or of
  force_push, with the same answer and leaving the same queue; and a thread that makes those of a pop, exactly when pop returns.\<close>

theorem queue_points_are_the_code:
  "((\<exists>n. q_solo pr n (Push_Load k v, q) = (p, q') \<and> ended p) \<longleftrightarrow>
    (\<exists>r. push_or_else pr (on_full pr k) v q = Some (r, q') \<and> p = push_end k r)) \<and>
   ((\<exists>n. q_solo pr n (Pop_Load, q) = (p, q') \<and> ended p) \<longleftrightarrow>
    (\<exists>r. pop pr q = Some (r, q') \<and> p = pop_end r))"
  by (rule conjI [OF push_points pop_points])

end
