(* ===== verification/Queue_Threads.thy ===== *)
theory Queue_Threads
  imports Queue_Points Queue_Fifo
begin

text \<open>
  Any number of threads calling \<open>push\<close>, \<open>force_push\<close> and \<open>pop\<close> on one queue, one access of
  one thread a step (\<open>q_access\<close>), in any order. The proof that they refine the atomic queue of
  \<open>Atomic_Queue\<close> follows the code's own argument: the exchanges on the head and the tail hand
  out positions, and the stamp of a slot tells whose turn it is. The ghost of a state says which
  positions have been handed out and which one each thread works on.
\<close>

section \<open>Interleaved calls\<close>

record 'a queue_world =
  shared :: "'a array_queue"
  at_point :: "nat \<Rightarrow> 'a q_point"
  history :: "'a queue_event list"
  tail_moves :: nat   \<comment> \<open>auxiliary: how often the tail has moved\<close>

text \<open>The flag of an access makes a weak exchange fail spuriously.\<close>

definition stirred :: "bool \<Rightarrow> 'a array_queue \<Rightarrow> 'a array_queue" where
  "stirred sp q = q\<lparr>head := (head q)\<lparr>cenv := [(None, sp)]\<rparr>, tail := (tail q)\<lparr>cenv := [(None, sp)]\<rparr>\<rparr>"

definition stilled :: "'a array_queue \<Rightarrow> 'a array_queue" where
  "stilled q = q\<lparr>head := new_cell (cval (head q)), tail := new_cell (cval (tail q))\<rparr>"

definition q_acts :: "profile \<Rightarrow> bool \<Rightarrow> 'a q_point \<Rightarrow> 'a array_queue \<Rightarrow> 'a q_point \<times> 'a array_queue" where
  "q_acts pr sp p q = (case q_access pr p (stirred sp q) of (p, q) \<Rightarrow> (p, stilled q))"

definition q_move :: "profile \<Rightarrow> bool \<Rightarrow> nat \<Rightarrow> 'a queue_world \<Rightarrow> 'a queue_world" where
  "q_move pr sp t w =
     (case q_acts pr sp (at_point w t) (shared w) of (p, q) \<Rightarrow>
      w\<lparr>shared := q, at_point := (at_point w)(t := p),
        tail_moves := tail_moves w + (if cval (tail q) = cval (tail (shared w)) then 0 else 1)\<rparr>)"

datatype 'a q_choice = Ask "'a fifo_op" | Act bool

definition q_task :: "profile \<Rightarrow> nat \<times> 'a q_choice \<Rightarrow> 'a queue_world \<Rightarrow> 'a queue_world option" where
  "q_task pr d w = (case d of (t, ch) \<Rightarrow> (case ch of
     Ask opn \<Rightarrow>
       (case at_point w t of
          Q_Idle \<Rightarrow> Some (w\<lparr>at_point := (at_point w)(t := begins opn), history := history w @ [Asks t opn]\<rparr>)
        | _ \<Rightarrow> None)
   | Act sp \<Rightarrow>
       (case at_point w t of
          Q_Idle \<Rightarrow> None
        | Halted _ \<Rightarrow> None
        | Returns a \<Rightarrow> Some (w\<lparr>at_point := (at_point w)(t := Q_Idle), history := history w @ [Gets t a]\<rparr>)
        | _ \<Rightarrow> Some (q_move pr sp t w))))"

inductive q_step :: "profile \<Rightarrow> 'a queue_world \<Rightarrow> 'a queue_world \<Rightarrow> bool" for pr where
  q_step: "q_task pr d w = Some w' \<Longrightarrow> q_step pr w w'"

definition fresh_queue :: "profile \<Rightarrow> usize \<Rightarrow> 'a queue_world \<Rightarrow> bool" where
  "fresh_queue pr C w \<longleftrightarrow> (\<exists>q. new_queue pr C = Inr q \<and>
     w = \<lparr>shared = q, at_point = (\<lambda>_. Q_Idle), history = [], tail_moves = 0\<rparr>)"

section \<open>Stamps that have not wrapped around\<close>

definition turns :: "nat \<Rightarrow> nat \<Rightarrow> nat" where
  "turns k n = n * 2 ^ (64 - k)"

lemma enc_inj_turns:
  assumes lap: "lap_ok k n" and eq: "enc k n p = enc k n p'" and small: "p < turns k n" "p' < turns k n"
  shows "p = p'"
proof -
  have n: "0 < n" "n < 2 ^ k" "k < 64" using lap_okD [OF lap] by auto
  have pow: "(2::nat) ^ (64 - k) * 2 ^ k = 2 ^ 64"
    using n(3) by (simp add: power_add [symmetric])
  have word: "unat (enc k n b) = b div n * 2 ^ k + b mod n" if "b < turns k n" for b
  proof -
    have "b div n < 2 ^ (64 - k)"
      using that n(1) by (simp add: turns_def less_mult_imp_div_less mult.commute)
    then have "(b div n + 1) * 2 ^ k \<le> 2 ^ (64 - k) * 2 ^ k" by (intro mult_le_mono1) simp
    then have "b div n * 2 ^ k + 2 ^ k \<le> 2 ^ 64" by (simp add: pow)
    moreover have "b mod n < 2 ^ k" using lap_okD(5) [OF lap] .
    ultimately have "b div n * 2 ^ k + b mod n < 2 ^ 64" by linarith
    then show ?thesis by (simp only: enc_def unat_of_nat) simp
  qed
  have m: "p mod n = p' mod n"
    using unat_enc_mod [OF lap, of p] unat_enc_mod [OF lap, of p'] eq by simp
  with word [OF small(1)] word [OF small(2)] eq have "p div n * 2 ^ k = p' div n * 2 ^ k" by simp
  then have "p div n = p' div n" by simp
  with m show ?thesis by (metis div_mult_mod_eq)
qed

section \<open>Ghost state\<close>

text \<open>
  The next position to pop and to push, the end of the list (one beyond the tail while a
  \<open>force_push\<close> has moved the head and not yet the tail), the value pushed at each position, and the
  position of each thread.
\<close>

record 'a ghost =
  hd_pos :: nat
  tl_pos :: nat
  end_pos :: nat
  val_at :: "nat \<Rightarrow> 'a"
  pos :: "nat \<Rightarrow> nat"

definition st_at :: "nat \<Rightarrow> 'a array_queue \<Rightarrow> nat \<Rightarrow> usize" where
  "st_at n q p = cval (stamp (buffer q ! (p mod n)))"

definition vl_at :: "nat \<Rightarrow> 'a array_queue \<Rightarrow> nat \<Rightarrow> 'a option" where
  "vl_at n q p = sval (buffer q ! (p mod n))"

lemma at_next_lap [simp]: "st_at n q (p + n) = st_at n q p" "vl_at n q (p + n) = vl_at n q p"
  by (simp_all add: st_at_def vl_at_def)

text \<open>
  The position, in the window of \<open>n\<close> positions from the head, whose slot a thread has to
  itself: a writer's own, for a reader the one after its own in the same slot.
\<close>

fun claim :: "nat \<Rightarrow> 'a q_point \<Rightarrow> nat \<Rightarrow> nat option" where
  "claim n (Push_Write _ _ _ _) a = Some a"
| "claim n (Push_Publish _ _ _) a = Some a"
| "claim n (Force_Tail _ _ _ _) a = Some a"
| "claim n (Force_Swap _ _ _) a = Some a"
| "claim n (Force_Publish _ _ _) a = Some a"
| "claim n (Pop_Read _ _) a = Some (a + n)"
| "claim n (Pop_Publish _ _ _) a = Some (a + n)"
| "claim n _ a = None"

text \<open>What a thread knows after it has seen the stamp of a free or of a filled slot.\<close>

definition seen_free :: "nat \<Rightarrow> nat \<Rightarrow> 'a ghost \<Rightarrow> 'a array_queue \<Rightarrow> nat \<Rightarrow> bool" where
  "seen_free k n g q a \<longleftrightarrow> a \<le> tl_pos g \<and> (a = tl_pos g \<longrightarrow> st_at n q a = enc k n a)"

definition seen_full :: "nat \<Rightarrow> nat \<Rightarrow> 'a ghost \<Rightarrow> 'a array_queue \<Rightarrow> nat \<Rightarrow> bool" where
  "seen_full k n g q a \<longleftrightarrow> a \<le> hd_pos g \<and> (a = hd_pos g \<longrightarrow> st_at n q a = enc k n a + 1)"

definition writing :: "'a ghost \<Rightarrow> nat \<Rightarrow> bool" where
  "writing g a \<longleftrightarrow> hd_pos g \<le> a \<and> a < end_pos g"

definition reading :: "nat \<Rightarrow> 'a ghost \<Rightarrow> nat \<Rightarrow> bool" where
  "reading n g a \<longleftrightarrow> a < hd_pos g \<and> end_pos g \<le> a + n"

definition push_op :: "push_kind \<Rightarrow> 'a \<Rightarrow> 'a fifo_op" where
  "push_op kd v = (case kd of Plain \<Rightarrow> Push v | Forcing \<Rightarrow> Force_Push v)"

text \<open>What holds of a thread at a point: its variables, its slot, and the phase of its call.\<close>

fun thread_ok :: "profile \<Rightarrow> nat \<Rightarrow> nat \<Rightarrow> 'a ghost \<Rightarrow> 'a array_queue \<Rightarrow> nat \<Rightarrow> 'a phase \<Rightarrow> 'a q_point \<Rightarrow> bool" where
  "thread_ok pr k n g q a ph Q_Idle \<longleftrightarrow> ph = Free"
| "thread_ok pr k n g q a ph (Push_Load kd v) \<longleftrightarrow> ph = Asked (push_op kd v)"
| "thread_ok pr k n g q a ph (Push_Stamp kd v tv bo) \<longleftrightarrow>
     ph = Asked (push_op kd v) \<and> tv = enc k n a \<and> a \<le> tl_pos g"
| "thread_ok pr k n g q a ph (Push_Cas kd v tv nt i bo) \<longleftrightarrow>
     ph = Asked (push_op kd v) \<and> tv = enc k n a \<and> nt = enc k n (Suc a) \<and> i = a mod n \<and> seen_free k n g q a"
| "thread_ok pr k n g q a ph (Push_Write kd v tv i) \<longleftrightarrow>
     ph = Answered (pushed kd) \<and> tv = enc k n a \<and> i = a mod n \<and> writing g a \<and> a < tl_pos g \<and>
     st_at n q a = enc k n a \<and> val_at g a = v"
| "thread_ok pr k n g q a ph (Push_Publish kd st i) \<longleftrightarrow>
     ph = Answered (pushed kd) \<and> st = enc k n a + 1 \<and> i = a mod n \<and> writing g a \<and> a < tl_pos g \<and>
     st_at n q a = enc k n a \<and> vl_at n q a = Some (val_at g a)"
| "thread_ok pr k n g q a ph (Push_Full kd v tv nt i bo) \<longleftrightarrow>
     ph = Asked (push_op kd v) \<and> tv = enc k n a \<and> nt = enc k n (Suc a) \<and> i = a mod n \<and>
     a \<le> tl_pos g \<and> n \<le> a \<and> seen_full k n g q (a - n)"
| "thread_ok pr k n g q a ph (Push_Reload kd v bo) \<longleftrightarrow> ph = Asked (push_op kd v)"
| "thread_ok pr k n g q a ph (Force_Tail v tv nt i) \<longleftrightarrow>
     tv = enc k n a \<and> nt = enc k n (Suc a) \<and> i = a mod n \<and> writing g a \<and> \<not> a < tl_pos g \<and> n \<le> a \<and>
     st_at n q a = enc k n (a - n) + 1 \<and> val_at g a = v \<and>
     (\<exists>old. vl_at n q a = Some old \<and> ph = Answered (given_back Forcing old))"
| "thread_ok pr k n g q a ph (Force_Swap v tv i) \<longleftrightarrow>
     tv = enc k n a \<and> i = a mod n \<and> writing g a \<and> a < tl_pos g \<and> n \<le> a \<and>
     st_at n q a = enc k n (a - n) + 1 \<and> val_at g a = v \<and>
     (\<exists>old. vl_at n q a = Some old \<and> ph = Answered (given_back Forcing old))"
| "thread_ok pr k n g q a ph (Force_Publish old st i) \<longleftrightarrow>
     ph = Answered (given_back Forcing old) \<and> st = enc k n a + 1 \<and> i = a mod n \<and> writing g a \<and> a < tl_pos g \<and>
     n \<le> a \<and> st_at n q a = enc k n (a - n) + 1 \<and> vl_at n q a = Some (val_at g a)"
| "thread_ok pr k n g q a ph Pop_Load \<longleftrightarrow> ph = Asked Pop"
| "thread_ok pr k n g q a ph (Pop_Stamp h bo) \<longleftrightarrow> ph = Asked Pop \<and> h = enc k n a \<and> a \<le> hd_pos g"
| "thread_ok pr k n g q a ph (Pop_Cas h nh i bo) \<longleftrightarrow>
     ph = Asked Pop \<and> h = enc k n a \<and> nh = enc k n (Suc a) \<and> i = a mod n \<and> seen_full k n g q a"
| "thread_ok pr k n g q a ph (Pop_Read h i) \<longleftrightarrow>
     h = enc k n a \<and> i = a mod n \<and> reading n g a \<and> st_at n q a = enc k n a + 1 \<and>
     (\<exists>m. vl_at n q a = Some m \<and> ph = Answered (Popped (Some m)))"
| "thread_ok pr k n g q a ph (Pop_Publish m h i) \<longleftrightarrow>
     ph = Answered (Popped (Some m)) \<and> h = enc k n a \<and> i = a mod n \<and> reading n g a \<and> st_at n q a = enc k n a + 1"
| "thread_ok pr k n g q a ph (Pop_Tail h bo) \<longleftrightarrow>
     ph = Asked Pop \<and> h = enc k n a \<and> a \<le> hd_pos g \<and> seen_free k n g q a"
| "thread_ok pr k n g q a ph (Pop_Reload bo) \<longleftrightarrow> ph = Asked Pop"
| "thread_ok pr k n g q a ph (Returns an) \<longleftrightarrow> ph = Answered an"
| "thread_ok pr k n g q a ph (Halted e) \<longleftrightarrow> pr = Debug \<and> e = Overflow"

definition slot_fits :: "nat \<Rightarrow> nat \<Rightarrow> 'a ghost \<Rightarrow> 'a array_queue \<Rightarrow> nat \<Rightarrow> bool" where
  "slot_fits k n g q p \<longleftrightarrow>
     (if p < end_pos g then st_at n q p = enc k n p + 1 \<and> vl_at n q p = Some (val_at g p)
      else st_at n q p = enc k n p)"

definition mem_ok :: "nat \<Rightarrow> nat \<Rightarrow> 'a ghost \<Rightarrow> 'a array_queue \<Rightarrow> bool" where
  "mem_ok k n g q \<longleftrightarrow> shape k n q \<and> (\<forall>j<n. cenv (stamp (buffer q ! j)) = []) \<and>
     head q = new_cell (enc k n (hd_pos g)) \<and> tail q = new_cell (enc k n (tl_pos g)) \<and>
     hd_pos g \<le> tl_pos g \<and> tl_pos g \<le> end_pos g \<and> end_pos g \<le> Suc (tl_pos g) \<and>
     end_pos g \<le> hd_pos g + n \<and> tl_pos g + 2 * n + 1 < turns k n"

definition in_window :: "nat \<Rightarrow> 'a ghost \<Rightarrow> nat \<Rightarrow> bool" where
  "in_window n g c \<longleftrightarrow> hd_pos g \<le> c \<and> c < hd_pos g + n"

definition claims :: "nat \<Rightarrow> 'a ghost \<Rightarrow> (nat \<Rightarrow> 'a q_point) \<Rightarrow> nat \<Rightarrow> nat option" where
  "claims n g pts u = claim n (pts u) (pos g u)"

definition coherent ::
  "profile \<Rightarrow> nat \<Rightarrow> nat \<Rightarrow> 'a ghost \<Rightarrow> 'a array_queue \<Rightarrow> (nat \<Rightarrow> 'a q_point) \<Rightarrow> (nat \<Rightarrow> 'a phase) \<Rightarrow> bool" where
  "coherent pr k n g q pts phs \<longleftrightarrow> mem_ok k n g q \<and>
     (\<forall>t. thread_ok pr k n g q (pos g t) (phs t) (pts t)) \<and>
     (\<forall>c. in_window n g c \<longrightarrow> (\<forall>u. claims n g pts u \<noteq> Some c) \<longrightarrow> slot_fits k n g q c) \<and>
     (\<forall>t u c. claims n g pts t = Some c \<longrightarrow> claims n g pts u = Some c \<longrightarrow> t = u) \<and>
     (end_pos g = Suc (tl_pos g) \<longrightarrow> (\<exists>t. claims n g pts t = Some (tl_pos g)))"

end
