(* ===== verification/Queue_Linear.thy ===== *)
theory Queue_Linear
  imports Queue_Threads
begin

text \<open>
  The steps of \<open>Queue_Threads\<close> keep the ghost coherent. An access changes at most one of the head,
  the tail and one slot; each kind of change is one lemma.
\<close>

section \<open>Interference\<close>

text \<open>What a step of one thread may do to the state, seen by a thread with the claim \<open>cl\<close>.\<close>

definition keeps :: "nat \<Rightarrow> nat \<Rightarrow> 'a ghost \<Rightarrow> 'a array_queue \<Rightarrow> 'a ghost \<Rightarrow> 'a array_queue \<Rightarrow> nat \<Rightarrow> bool" where
  "keeps k n g q g' q' c \<longleftrightarrow> in_window n g' c \<and> (c < end_pos g' \<longleftrightarrow> c < end_pos g) \<and>
     (c < end_pos g \<longrightarrow> (c < tl_pos g' \<longleftrightarrow> c < tl_pos g) \<and> val_at g' c = val_at g c) \<and>
     st_at n q' c = st_at n q c \<and> vl_at n q' c = vl_at n q c"

definition advances :: "nat \<Rightarrow> nat \<Rightarrow> 'a ghost \<Rightarrow> 'a array_queue \<Rightarrow> 'a ghost \<Rightarrow> 'a array_queue \<Rightarrow> bool" where
  "advances k n g q g' q' \<longleftrightarrow> tl_pos g \<le> tl_pos g' \<and> hd_pos g \<le> hd_pos g' \<and>
     (\<forall>b. seen_free k n g q b \<longrightarrow> seen_free k n g' q' b) \<and> (\<forall>b. seen_full k n g q b \<longrightarrow> seen_full k n g' q' b)"

lemma claim_in_window:
  assumes "thread_ok pr k n g q a ph p" "mem_ok k n g q" "claim n p a = Some c"
  shows "in_window n g c"
  using assms by (cases p) (auto simp: in_window_def writing_def reading_def mem_ok_def)

lemma thread_ok_mono:
  assumes ok: "thread_ok pr k n g q a ph p" and mem: "mem_ok k n g q" and adv: "advances k n g q g' q'"
    and keep: "\<And>c. claim n p a = Some c \<Longrightarrow> keeps k n g q g' q' c"
  shows "thread_ok pr k n g' q' a ph p"
proof (cases "claim n p a")
  case None
  with ok adv show ?thesis by (cases p) (auto simp: advances_def)
next
  case (Some c)
  have w: "in_window n g c" by (rule claim_in_window [OF ok mem Some])
  from ok Some keep [OF Some] w show ?thesis
    by (cases p) (auto simp: keeps_def in_window_def writing_def reading_def)
qed

lemma window_inj:
  assumes "in_window n g c" "in_window n g d" "c mod n = d mod n"
  shows "c = d"
proof (rule ccontr)
  assume "c \<noteq> d"
  obtain i j where "c = hd_pos g + i" "d = hd_pos g + j" "i < n" "j < n"
    using assms(1,2) unfolding in_window_def by (metis add.commute le_Suc_ex nat_add_left_cancel_less)
  with assms(3) \<open>c \<noteq> d\<close> window_slot_ne [of i n j "hd_pos g"] show False by auto
qed

lemma coherentD:
  assumes "coherent pr k n g q pts phs"
  shows "mem_ok k n g q" "thread_ok pr k n g q (pos g t) (phs t) (pts t)"
    "in_window n g c \<Longrightarrow> (\<And>u. claims n g pts u \<noteq> Some c) \<Longrightarrow> slot_fits k n g q c"
    "claims n g pts t = Some c \<Longrightarrow> claims n g pts u = Some c \<Longrightarrow> t = u"
    "end_pos g = Suc (tl_pos g) \<Longrightarrow> \<exists>t. claims n g pts t = Some (tl_pos g)"
  using assms unfolding coherent_def by blast+

lemma claimed_window:
  assumes "coherent pr k n g q pts phs" "claims n g pts t = Some c"
  shows "in_window n g c"
  using claim_in_window [OF coherentD(2,1) [OF assms(1)]] assms(2) by (auto simp: claims_def)

lemma pending_other:
  assumes "coherent pr k n g q pts phs" "end_pos g = Suc (tl_pos g)" "claims n g pts t \<noteq> Some (tl_pos g)"
  shows "\<exists>u. u \<noteq> t \<and> claims n g pts u = Some (tl_pos g)"
  using coherentD(5) [OF assms(1,2)] assms(3) by metis

text \<open>One thread moves.\<close>

lemma coherent_update:
  assumes coh: "coherent pr k n g q pts phs" and pos: "pos g' = (pos g)(t := a')"
    and mem: "mem_ok k n g' q'" and adv: "advances k n g q g' q'"
    and keep: "\<And>u c. u \<noteq> t \<Longrightarrow> claims n g pts u = Some c \<Longrightarrow> keeps k n g q g' q' c"
    and thr: "thread_ok pr k n g' q' a' ph' p'"
    and sole: "\<And>u c. claim n p' a' = Some c \<Longrightarrow> u \<noteq> t \<Longrightarrow> claims n g pts u \<noteq> Some c"
    and slots: "\<And>c. in_window n g' c \<Longrightarrow> claim n p' a' \<noteq> Some c \<Longrightarrow>
      (\<And>u. u \<noteq> t \<Longrightarrow> claims n g pts u \<noteq> Some c) \<Longrightarrow> slot_fits k n g' q' c"
    and pend: "end_pos g' = Suc (tl_pos g') \<Longrightarrow>
      claim n p' a' = Some (tl_pos g') \<or> (\<exists>u. u \<noteq> t \<and> claims n g pts u = Some (tl_pos g'))"
  shows "coherent pr k n g' q' (pts(t := p')) (phs(t := ph'))"
proof -
  have cl: "claims n g' (pts(t := p')) u = (if u = t then claim n p' a' else claims n g pts u)" for u
    by (simp add: claims_def pos)
  have "thread_ok pr k n g' q' (pos g' u) ((phs(t := ph')) u) ((pts(t := p')) u)" for u
  proof (cases "u = t")
    case False
    then show ?thesis
      using thread_ok_mono [OF coherentD(2,1) [OF coh] adv, of u] keep [of u]
      by (simp add: pos claims_def)
  qed (simp add: pos thr)
  moreover have "slot_fits k n g' q' c" if "in_window n g' c" "\<forall>u. claims n g' (pts(t := p')) u \<noteq> Some c" for c
  proof (rule slots [OF that(1)])
    show "claim n p' a' \<noteq> Some c" using that(2) [rule_format, of t] by (simp add: cl)
    show "claims n g pts u \<noteq> Some c" if "u \<noteq> t" for u
      using \<open>\<forall>u. claims n g' (pts(t := p')) u \<noteq> Some c\<close> [rule_format, of u] that by (simp add: cl)
  qed
  moreover have "u = v" if "claims n g' (pts(t := p')) u = Some c" "claims n g' (pts(t := p')) v = Some c" for u v c
    using that sole [of c u] sole [of c v] coherentD(4) [OF coh, of u c v] by (auto simp: cl split: if_splits)
  moreover have "\<exists>u. claims n g' (pts(t := p')) u = Some (tl_pos g')" if "end_pos g' = Suc (tl_pos g')"
    using pend [OF that] by (auto simp: cl)
  ultimately show ?thesis using mem unfolding coherent_def by blast
qed

section \<open>Steps that leave the memory alone\<close>

lemma coherent_local:
  assumes coh: "coherent pr k n g q pts phs" and before: "claims n g pts t = None" and after: "claim n p' a' = None"
    and thr: "thread_ok pr k n g q a' ph' p'"
  shows "coherent pr k n (g\<lparr>pos := (pos g)(t := a')\<rparr>) q (pts(t := p')) (phs(t := ph'))" (is "coherent _ _ _ ?g _ _ _")
proof (rule coherent_update [OF coh])
  show "pos ?g = (pos g)(t := a')" by simp
  show "mem_ok k n ?g q" using coherentD(1) [OF coh] by (simp add: mem_ok_def)
  show "advances k n g q ?g q" by (simp add: advances_def seen_free_def seen_full_def)
  show "keeps k n g q ?g q c" if "u \<noteq> t" "claims n g pts u = Some c" for u c
    using claimed_window [OF coh that(2)] by (simp add: keeps_def in_window_def)
  show "thread_ok pr k n ?g q a' ph' p'"
    by (rule thread_ok_mono [OF thr coherentD(1) [OF coh]])
      (simp_all add: advances_def seen_free_def seen_full_def after)
  show "slot_fits k n ?g q c" if "in_window n ?g c" "\<And>u. u \<noteq> t \<Longrightarrow> claims n g pts u \<noteq> Some c" for c
  proof -
    have "claims n g pts u \<noteq> Some c" for u using that(2) [of u] before by (cases "u = t") auto
    with coherentD(3) [OF coh, of c] that(1) show ?thesis by (simp add: in_window_def slot_fits_def)
  qed
  show "claim n p' a' = Some (tl_pos ?g) \<or> (\<exists>u. u \<noteq> t \<and> claims n g pts u = Some (tl_pos ?g))"
    if "end_pos ?g = Suc (tl_pos ?g)"
    using pending_other [OF coh, of t] that before by simp
qed (simp add: after)

section \<open>What a stamp tells\<close>

lemma mem_okD:
  assumes "mem_ok k n g q"
  shows "shape k n q" "lap_ok k n" "0 < n" "length (buffer q) = n" "one_lap q = 2 ^ k"
    "head q = new_cell (enc k n (hd_pos g))" "tail q = new_cell (enc k n (tl_pos g))"
    "hd_pos g \<le> tl_pos g" "tl_pos g \<le> end_pos g" "end_pos g \<le> Suc (tl_pos g)" "end_pos g \<le> hd_pos g + n"
    "tl_pos g + 2 * n + 1 < turns k n" "j < n \<Longrightarrow> cenv (stamp (buffer q ! j)) = []"
  using assms by (auto simp: mem_ok_def shape_def dest: lap_okD)

lemma back_a_lap: "n \<le> c \<Longrightarrow> (c - n) mod n = c mod (n::nat)"
  by (simp add: mod_if)

lemma claimed_stamp:
  assumes "coherent pr k n g q pts phs" "claims n g pts u = Some c"
  shows "st_at n q c = enc k n c \<and> c < tl_pos g \<or> n \<le> c \<and> st_at n q c = enc k n (c - n) + 1"
  using coherentD(2) [OF assms(1), of u] assms(2)
  by (cases "pts u") (auto simp: claims_def)

lemma stamp_forms:
  assumes coh: "coherent pr k n g q pts phs" and c: "in_window n g c"
  obtains "st_at n q c = enc k n c" "c < tl_pos g"
  | "st_at n q c = enc k n c" "end_pos g \<le> c"
  | "st_at n q c = enc k n c + 1" "c < end_pos g" "\<And>u. claims n g pts u \<noteq> Some c" "vl_at n q c = Some (val_at g c)"
  | "n \<le> c" "st_at n q c = enc k n (c - n) + 1"
proof (cases "\<exists>u. claims n g pts u = Some c")
  case True
  then show ?thesis using claimed_stamp [OF coh] that(1,4) by metis
next
  case False
  with coherentD(3) [OF coh c] have "slot_fits k n g q c" by blast
  with False that(2,3) show ?thesis by (auto simp: slot_fits_def split: if_splits)
qed

lemma enc_back_ne: "lap_ok k n \<Longrightarrow> n \<le> c \<Longrightarrow> enc k n (c - n) + 1 \<noteq> enc k n c"
  by (rule enc_plus_1_ne) (simp_all add: back_a_lap)

lemma enc_lap_ne: "lap_ok k n \<Longrightarrow> enc k n (c + n) \<noteq> enc k n c"
  using enc_inj [of k n c "c + n"] by (auto dest: lap_okD)

text \<open>The stamp of the tail in the tail's slot: the slot is free, and nobody has it.\<close>

lemma tail_slot_free:
  assumes coh: "coherent pr k n g q pts phs" and st: "st_at n q (tl_pos g) = enc k n (tl_pos g)"
  shows "end_pos g = tl_pos g" "tl_pos g < hd_pos g + n" "claims n g pts u \<noteq> Some (tl_pos g)"
proof -
  note m = mem_okD [OF coherentD(1) [OF coh]]
  show unclaimed: "claims n g pts u \<noteq> Some (tl_pos g)" for u
    using claimed_stamp [OF coh, of u "tl_pos g"] st enc_back_ne [OF m(2), of "tl_pos g"] by auto
  then have "end_pos g \<noteq> Suc (tl_pos g)" using coherentD(5) [OF coh] by blast
  then show e: "end_pos g = tl_pos g" using m(9,10) by linarith
  show "tl_pos g < hd_pos g + n"
  proof (rule ccontr)
    assume "\<not> tl_pos g < hd_pos g + n"
    then have t: "tl_pos g = hd_pos g + n" using m(9,11) by linarith
    have w: "in_window n g (hd_pos g)" using m(3) by (simp add: in_window_def)
    have st': "st_at n q (hd_pos g) = enc k n (hd_pos g + n)" using st by (simp add: t)
    show False
      using coh w
    proof (cases rule: stamp_forms)
      case 1
      with st' enc_lap_ne [OF m(2)] show False by metis
    next
      case 2
      with e t m(3) show False by linarith
    next
      case 3
      with st' enc_plus_1_ne [OF m(2), of "hd_pos g" "hd_pos g + n"] show False by simp
    next
      case 4
      with st' enc_plus_1_ne [OF m(2), of "hd_pos g - n" "hd_pos g + n"] show False by (simp add: back_a_lap)
    qed
  qed
qed

text \<open>The stamp after the head in the head's slot: the slot is filled, and nobody has it.\<close>

lemma head_slot_full:
  assumes coh: "coherent pr k n g q pts phs" and st: "st_at n q (hd_pos g) = enc k n (hd_pos g) + 1"
  shows "hd_pos g < tl_pos g" "vl_at n q (hd_pos g) = Some (val_at g (hd_pos g))"
    "claims n g pts u \<noteq> Some (hd_pos g)"
proof -
  note m = mem_okD [OF coherentD(1) [OF coh]]
  have w: "in_window n g (hd_pos g)" using m(3) by (simp add: in_window_def)
  have "hd_pos g < end_pos g \<and> (\<forall>u. claims n g pts u \<noteq> Some (hd_pos g)) \<and> vl_at n q (hd_pos g) = Some (val_at g (hd_pos g))"
    using coh w
  proof (cases rule: stamp_forms)
    case 4
    with st have "enc k n (hd_pos g - n + n) = enc k n (hd_pos g - n)" by simp
    with enc_lap_ne [OF m(2)] show ?thesis by blast
  qed (use st in auto)
  then have c: "hd_pos g < end_pos g" "\<And>u. claims n g pts u \<noteq> Some (hd_pos g)" "vl_at n q (hd_pos g) = Some (val_at g (hd_pos g))"
    by auto
  show "vl_at n q (hd_pos g) = Some (val_at g (hd_pos g))" "claims n g pts u \<noteq> Some (hd_pos g)" by (fact c)+
  show "hd_pos g < tl_pos g"
  proof (rule ccontr)
    assume "\<not> hd_pos g < tl_pos g"
    with c(1) m(8,10) have "end_pos g = Suc (tl_pos g)" "tl_pos g = hd_pos g" by linarith+
    with coherentD(5) [OF coh] c(2) show False by auto
  qed
qed

section \<open>Handing out positions\<close>

lemma at_frame [simp]:
  "st_at n (q\<lparr>head := c\<rparr>) = st_at n q" "st_at n (q\<lparr>tail := c\<rparr>) = st_at n q"
  "vl_at n (q\<lparr>head := c\<rparr>) = vl_at n q" "vl_at n (q\<lparr>tail := c\<rparr>) = vl_at n q"
  by (auto simp: st_at_def vl_at_def)

lemma claim_of: "coherent pr k n g q pts phs \<Longrightarrow> u \<noteq> t \<Longrightarrow> claims n g pts t = Some c \<Longrightarrow> claims n g pts u \<noteq> Some c"
  using coherentD(4) by blast

text \<open>The exchange on the tail of a push.\<close>

lemma coherent_push:
  fixes g :: "'a ghost"
  defines "T \<equiv> tl_pos g"
  assumes coh: "coherent pr k n g q pts phs" and idle: "claims n g pts t = None" and st: "st_at n q T = enc k n T"
    and at: "pos g t = T" and bound: "T + 2 * n + 2 < turns k n"
  shows "coherent pr k n (g\<lparr>tl_pos := Suc T, end_pos := Suc T, val_at := (val_at g)(T := v)\<rparr>)
    (q\<lparr>tail := new_cell (enc k n (Suc T))\<rparr>) (pts(t := Push_Write kd v (enc k n T) (T mod n))) (phs(t := Answered (pushed kd)))"
    (is "coherent _ _ _ ?g ?q (pts(t := ?p)) _")
proof (rule coherent_update [OF coh])
  note m = mem_okD [OF coherentD(1) [OF coh]]
  note f = tail_slot_free [OF coh st [unfolded T_def]]
  have others: "c \<noteq> T" if "claims n g pts u = Some c" for u c using f(3) [of u] that by (auto simp: T_def)
  show "pos ?g = (pos g)(t := T)" using at by auto
  show "mem_ok k n ?g ?q"
    using coherentD(1) [OF coh] f(2) bound by (simp add: mem_ok_def shape_def T_def)
  show "advances k n g q ?g ?q" by (auto simp: advances_def seen_free_def seen_full_def T_def)
  show "keeps k n g q ?g ?q c" if "u \<noteq> t" "claims n g pts u = Some c" for u c
    using claimed_window [OF coh that(2)] others [OF that(2)] f(1) by (auto simp: keeps_def in_window_def T_def)
  show "thread_ok pr k n ?g ?q T (Answered (pushed kd)) ?p" using m(8) st by (simp add: writing_def T_def)
  show "claims n g pts u \<noteq> Some c" if "claim n ?p T = Some c" "u \<noteq> t" for u c using that others by auto
  show "slot_fits k n ?g ?q c" if "in_window n ?g c" "claim n ?p T \<noteq> Some c"
    "\<And>u. u \<noteq> t \<Longrightarrow> claims n g pts u \<noteq> Some c" for c
  proof -
    have "claims n g pts u \<noteq> Some c" for u using that(3) [of u] idle by (cases "u = t") auto
    with coherentD(3) [OF coh, of c] that(1,2) f(1) show ?thesis
      by (auto simp: in_window_def slot_fits_def T_def)
  qed
qed simp

text \<open>The exchange on the head of a pop.\<close>

lemma coherent_pop:
  fixes g :: "'a ghost"
  defines "H \<equiv> hd_pos g"
  assumes coh: "coherent pr k n g q pts phs" and idle: "claims n g pts t = None" and st: "st_at n q H = enc k n H + 1"
    and at: "pos g t = H"
  shows "coherent pr k n (g\<lparr>hd_pos := Suc H\<rparr>) (q\<lparr>head := new_cell (enc k n (Suc H))\<rparr>)
    (pts(t := Pop_Read (enc k n H) (H mod n))) (phs(t := Answered (Popped (Some (val_at g H)))))"
    (is "coherent _ _ _ ?g ?q (pts(t := ?p)) _")
proof (rule coherent_update [OF coh])
  note m = mem_okD [OF coherentD(1) [OF coh]]
  note f = head_slot_full [OF coh st [unfolded H_def]]
  have others: "c \<noteq> H" if "claims n g pts u = Some c" for u c using f(3) [of u] that by (auto simp: H_def)
  show "pos ?g = (pos g)(t := H)" using at by auto
  show "mem_ok k n ?g ?q"
    using coherentD(1) [OF coh] f(1) by (simp add: mem_ok_def shape_def H_def)
  show "advances k n g q ?g ?q" by (auto simp: advances_def seen_free_def seen_full_def H_def)
  show "keeps k n g q ?g ?q c" if "u \<noteq> t" "claims n g pts u = Some c" for u c
    using claimed_window [OF coh that(2)] others [OF that(2)] by (auto simp: keeps_def in_window_def H_def)
  show "thread_ok pr k n ?g ?q H (Answered (Popped (Some (val_at g H)))) ?p"
    using m(11) st f(2) by (simp add: reading_def H_def)
  show "claims n g pts u \<noteq> Some c" if "claim n ?p H = Some c" "u \<noteq> t" for u c
    using that claimed_window [OF coh, of u c] by (auto simp: in_window_def H_def)
  show "slot_fits k n ?g ?q c" if "in_window n ?g c" "claim n ?p H \<noteq> Some c"
    "\<And>u. u \<noteq> t \<Longrightarrow> claims n g pts u \<noteq> Some c" for c
  proof -
    have "claims n g pts u \<noteq> Some c" for u using that(3) [of u] idle by (cases "u = t") auto
    with coherentD(3) [OF coh, of c] that(1,2) show ?thesis
      by (auto simp: in_window_def slot_fits_def H_def)
  qed
  show "claim n ?p H = Some (tl_pos ?g) \<or> (\<exists>u. u \<noteq> t \<and> claims n g pts u = Some (tl_pos ?g))"
    if "end_pos ?g = Suc (tl_pos ?g)"
    using pending_other [OF coh, of t] that idle by simp
qed

text \<open>The exchange on the head of a \<open>force_push\<close>, and its store to the tail.\<close>

lemma coherent_force:
  fixes g :: "'a ghost"
  defines "H \<equiv> hd_pos g" and "T \<equiv> tl_pos g"
  assumes coh: "coherent pr k n g q pts phs" and idle: "claims n g pts t = None" and st: "st_at n q H = enc k n H + 1"
    and at: "pos g t = H + n" and T: "T = H + n"
  shows "coherent pr k n (g\<lparr>hd_pos := Suc H, end_pos := Suc T, val_at := (val_at g)(T := v)\<rparr>)
    (q\<lparr>head := new_cell (enc k n (Suc H))\<rparr>) (pts(t := Force_Tail v (enc k n T) (enc k n (Suc T)) (T mod n)))
    (phs(t := Answered (given_back Forcing (val_at g H))))"
    (is "coherent _ _ _ ?g ?q (pts(t := ?p)) _")
proof (rule coherent_update [OF coh])
  note m = mem_okD [OF coherentD(1) [OF coh]]
  note f = head_slot_full [OF coh st [unfolded H_def]]
  have others: "c \<noteq> H" if "claims n g pts u = Some c" for u c using f(3) [of u] that by (auto simp: H_def)
  have E: "end_pos g = T" using m(9,11) T by (simp add: H_def T_def)
  show "pos ?g = (pos g)(t := T)" using at T by auto
  show "mem_ok k n ?g ?q"
    using coherentD(1) [OF coh] f(1) T by (simp add: mem_ok_def shape_def H_def T_def)
  show "advances k n g q ?g ?q" by (auto simp: advances_def seen_free_def seen_full_def H_def T_def)
  show "keeps k n g q ?g ?q c" if "u \<noteq> t" "claims n g pts u = Some c" for u c
    using claimed_window [OF coh that(2)] others [OF that(2)] E T by (auto simp: keeps_def in_window_def H_def)
  show "thread_ok pr k n ?g ?q T (Answered (given_back Forcing (val_at g H))) ?p"
    using m(3) st f(2) T by (simp add: writing_def H_def T_def)
  show "claims n g pts u \<noteq> Some c" if "claim n ?p T = Some c" "u \<noteq> t" for u c
    using that T claimed_window [OF coh, of u c] by (auto simp: in_window_def H_def)
  show "slot_fits k n ?g ?q c" if "in_window n ?g c" "claim n ?p T \<noteq> Some c"
    "\<And>u. u \<noteq> t \<Longrightarrow> claims n g pts u \<noteq> Some c" for c
  proof -
    have "claims n g pts u \<noteq> Some c" for u using that(3) [of u] idle by (cases "u = t") auto
    with coherentD(3) [OF coh, of c] that(1,2) T E show ?thesis
      by (auto simp: in_window_def slot_fits_def H_def)
  qed
qed (simp add: T_def)

lemma coherent_force_tail:
  fixes g :: "'a ghost"
  defines "T \<equiv> tl_pos g"
  assumes coh: "coherent pr k n g q pts phs" and p: "pts t = Force_Tail v tv nt i" and bound: "T + 2 * n + 2 < turns k n"
  shows "coherent pr k n (g\<lparr>tl_pos := Suc T\<rparr>) (q\<lparr>tail := new_cell (enc k n (Suc T))\<rparr>)
    (pts(t := Force_Swap v tv i)) phs"
    (is "coherent _ _ _ ?g ?q (pts(t := ?p)) _")
proof -
  note m = mem_okD [OF coherentD(1) [OF coh]]
  note ok = coherentD(2) [OF coh, of t]
  have at: "pos g t = T" and E: "end_pos g = Suc T"
    using ok m(10) by (auto simp: p writing_def T_def)
  have cl: "claims n g pts t = Some T" by (simp add: claims_def p at)
  have "coherent pr k n ?g ?q (pts(t := ?p)) (phs(t := phs t))"
  proof (rule coherent_update [OF coh])
    show "pos ?g = (pos g)(t := T)" using at by auto
    show "mem_ok k n ?g ?q"
      using coherentD(1) [OF coh] bound E by (simp add: mem_ok_def shape_def T_def)
    show "advances k n g q ?g ?q" by (auto simp: advances_def seen_free_def seen_full_def T_def)
    show "keeps k n g q ?g ?q c" if "u \<noteq> t" "claims n g pts u = Some c" for u c
      using claimed_window [OF coh that(2)] claim_of [OF coh that(1) cl] that(2) E
      by (cases "c = T") (auto simp: keeps_def in_window_def T_def)
    show "thread_ok pr k n ?g ?q T (phs t) ?p" using ok by (auto simp: p at writing_def)
    show "claims n g pts u \<noteq> Some c" if "claim n ?p T = Some c" "u \<noteq> t" for u c
      using that claim_of [OF coh that(2) cl] by simp
    show "slot_fits k n ?g ?q c" if "in_window n ?g c" "claim n ?p T \<noteq> Some c"
      "\<And>u. u \<noteq> t \<Longrightarrow> claims n g pts u \<noteq> Some c" for c
    proof -
      have "claims n g pts u \<noteq> Some c" for u using that(2) that(3) [of u] cl by (cases "u = t") auto
      with coherentD(3) [OF coh, of c] that(1) show ?thesis
        by (auto simp: in_window_def slot_fits_def)
    qed
  qed (simp add: E)
  then show ?thesis by simp
qed

section \<open>Working on one's own slot\<close>

lemma slot_frame:
  assumes "mem_ok k n g q"
  shows "st_at n (write_value (c mod n) v q) d = st_at n q d"
    "vl_at n (write_value (c mod n) v q) d = (if d mod n = c mod n then Some v else vl_at n q d)"
    "st_at n (store_stamp (c mod n) st q) d = (if d mod n = c mod n then st else st_at n q d)"
    "vl_at n (store_stamp (c mod n) st q) d = vl_at n q d"
    "mem_ok k n g (write_value (c mod n) v q)" "mem_ok k n g (store_stamp (c mod n) st q)"
proof -
  note m = mem_okD [OF assms]
  have lt: "d mod n < length (buffer q)" for d using m(3,4) by simp
  show "st_at n (write_value (c mod n) v q) d = st_at n q d"
    "vl_at n (write_value (c mod n) v q) d = (if d mod n = c mod n then Some v else vl_at n q d)"
    "st_at n (store_stamp (c mod n) st q) d = (if d mod n = c mod n then st else st_at n q d)"
    "vl_at n (store_stamp (c mod n) st q) d = vl_at n q d"
    using lt m(13) [of "c mod n"] m(3,4)
    by (auto simp: st_at_def vl_at_def write_value_def store_stamp_def upd_slot_def nth_list_update accesses_empty_env)
  show "mem_ok k n g (write_value (c mod n) v q)" "mem_ok k n g (store_stamp (c mod n) st q)"
    using assms lt m(3,4)
    by (auto simp: mem_ok_def shape_def write_value_def store_stamp_def upd_slot_def nth_list_update accesses_empty_env)
qed

text \<open>A read or a write of the value: the claim and the stamps stay.\<close>

lemma coherent_value:
  assumes coh: "coherent pr k n g q pts phs" and cl: "claims n g pts t = Some c" "claim n p' (pos g t) = Some c"
    and thr: "thread_ok pr k n g q' (pos g t) (phs t) p'" and q': "q' = q \<or> q' = write_value (c mod n) v q"
  shows "coherent pr k n g q' (pts(t := p')) phs"
proof -
  note w = claimed_window [OF coh cl(1)]
  have mem: "mem_ok k n g q'" and st: "st_at n q' = st_at n q"
    using q' coherentD(1) [OF coh] slot_frame(1,5) [OF coherentD(1) [OF coh], of c v] by auto
  have vl: "vl_at n q' d = vl_at n q d" if "in_window n g d" "d \<noteq> c" for d
    using q' slot_frame(2) [OF coherentD(1) [OF coh], of c v d] window_inj [OF that(1) w] that(2) by auto
  have "coherent pr k n g q' (pts(t := p')) (phs(t := phs t))"
  proof (rule coherent_update [OF coh _ mem _ _ thr])
    show "advances k n g q g q'" by (simp add: advances_def seen_free_def seen_full_def st)
    show "keeps k n g q g q' d" if "u \<noteq> t" "claims n g pts u = Some d" for u d
      using claimed_window [OF coh that(2)] claim_of [OF coh that(1) cl(1)] that(2) vl [of d] st
      by (cases "d = c") (auto simp: keeps_def)
    show "claims n g pts u \<noteq> Some d" if "claim n p' (pos g t) = Some d" "u \<noteq> t" for u d
      using that claim_of [OF coh that(2) cl(1)] cl(2) by simp
    show "slot_fits k n g q' d" if "in_window n g d" "claim n p' (pos g t) \<noteq> Some d"
      "\<And>u. u \<noteq> t \<Longrightarrow> claims n g pts u \<noteq> Some d" for d
    proof -
      have "claims n g pts u \<noteq> Some d" for u using that(2) that(3) [of u] cl by (cases "u = t") auto
      with coherentD(3) [OF coh that(1)] that(1,2) cl(2) vl [of d] st show ?thesis
        by (auto simp: slot_fits_def)
    qed
    show "claim n p' (pos g t) = Some (tl_pos g) \<or> (\<exists>u. u \<noteq> t \<and> claims n g pts u = Some (tl_pos g))"
      if "end_pos g = Suc (tl_pos g)"
      using pending_other [OF coh that, of t] cl by auto
  qed simp
  then show ?thesis by simp
qed

text \<open>The store of the stamp hands the slot on.\<close>

lemma coherent_publish:
  assumes coh: "coherent pr k n g q pts phs" and cl: "claims n g pts t = Some c" "claim n p' (pos g t) = None"
    and thr: "thread_ok pr k n g (store_stamp (c mod n) st q) (pos g t) (phs t) p'"
    and fits: "slot_fits k n g (store_stamp (c mod n) st q) c" and c: "c < tl_pos g \<or> end_pos g \<le> c"
  shows "coherent pr k n g (store_stamp (c mod n) st q) (pts(t := p')) phs" (is "coherent _ _ _ _ ?q _ _")
proof -
  note m = mem_okD [OF coherentD(1) [OF coh]] and frame = slot_frame [OF coherentD(1) [OF coh], of c]
  note w = claimed_window [OF coh cl(1)]
  have st: "st_at n ?q d = st_at n q d" if "in_window n g d" "d \<noteq> c" for d
    using frame(3) [of st d] window_inj [OF that(1) w] that(2) by auto
  have "coherent pr k n g ?q (pts(t := p')) (phs(t := phs t))"
  proof (rule coherent_update [OF coh _ frame(6) _ _ thr])
    have "seen_free k n g ?q b" if b: "seen_free k n g q b" for b
    proof (cases "b = tl_pos g")
      case True
      with b have "st_at n q (tl_pos g) = enc k n (tl_pos g)" by (simp add: seen_free_def)
      from tail_slot_free [OF coh this] m(8) cl(1) st [of b] b True show ?thesis
        by (auto simp: seen_free_def in_window_def)
    qed (use b in \<open>simp add: seen_free_def\<close>)
    moreover have "seen_full k n g ?q b" if b: "seen_full k n g q b" for b
    proof (cases "b = hd_pos g")
      case True
      with b have "st_at n q (hd_pos g) = enc k n (hd_pos g) + 1" by (simp add: seen_full_def)
      from head_slot_full [OF coh this] m(3) cl(1) st [of b] b True show ?thesis
        by (auto simp: seen_full_def in_window_def)
    qed (use b in \<open>simp add: seen_full_def\<close>)
    ultimately show "advances k n g q g ?q" by (simp add: advances_def)
    show "keeps k n g q g ?q d" if "u \<noteq> t" "claims n g pts u = Some d" for u d
      using claimed_window [OF coh that(2)] claim_of [OF coh that(1) cl(1)] that(2) st [of d] frame(4) [of st d]
      by (cases "d = c") (auto simp: keeps_def)
    show "slot_fits k n g ?q d" if "in_window n g d" "claim n p' (pos g t) \<noteq> Some d"
      "\<And>u. u \<noteq> t \<Longrightarrow> claims n g pts u \<noteq> Some d" for d
    proof (cases "d = c")
      case False
      have "claims n g pts u \<noteq> Some d" for u using that(3) [of u] cl False by (cases "u = t") auto
      with coherentD(3) [OF coh that(1)] that(1) st [of d] frame(4) [of st d] False show ?thesis
        by (auto simp: slot_fits_def)
    qed (simp add: fits)
    show "claim n p' (pos g t) = Some (tl_pos g) \<or> (\<exists>u. u \<noteq> t \<and> claims n g pts u = Some (tl_pos g))"
      if "end_pos g = Suc (tl_pos g)"
      using pending_other [OF coh that, of t] cl c that by auto
  qed (simp_all add: cl(2))
  then show ?thesis by simp
qed

end
