(* ===== verification/Queue_Acts.thy ===== *)
theory Queue_Acts
  imports Queue_Linear
begin

text \<open>The accesses of \<open>Queue_Points\<close> computed on a queue whose ghost is coherent.\<close>

section \<open>What each access does to a coherent queue\<close>

lemma ends:
  assumes "mem_ok k n g q"
  shows "stilled (stirred sp q) = q" "stilled (upd_slot i f (stirred sp q)) = upd_slot i f q"
    "shape k n (stirred sp q)" "one_lap (stirred sp q) = 2 ^ k" "one_lap q = 2 ^ k"
  using mem_okD(1,5-7) [OF assms]
  by (simp_all add: stilled_def stirred_def upd_slot_def new_cell_def shape_def)

lemma stirred_loads:
  assumes "mem_ok k n g q"
  shows "\<exists>q1. load_tail (stirred sp q) = (enc k n (tl_pos g), q1) \<and> stilled q1 = q"
    "\<exists>q1. load_head (stirred sp q) = (enc k n (hd_pos g), q1) \<and> stilled q1 = q"
    "\<exists>q1. load_stamp (a mod n) (stirred sp q) = (st_at n q a, q1) \<and> stilled q1 = q \<and> shape k n q1 \<and> one_lap q1 = 2 ^ k"
proof -
  note m = mem_okD [OF assms]
  have lt: "a mod n < length (buffer q)" using m(3,4) by simp
  have "load (stamp (buffer q ! (a mod n))) = (cval (stamp (buffer q ! (a mod n))), stamp (buffer q ! (a mod n)))"
    using m(3) m(13) [of "a mod n"] by (simp add: accesses_empty_env)
  then have "load_stamp (a mod n) (stirred sp q) = (st_at n q a, stirred sp q)"
    using lt by (simp add: load_stamp_def upd_slot_def st_at_def stirred_def)
  with ends [OF assms]
  show "\<exists>q1. load_stamp (a mod n) (stirred sp q) = (st_at n q a, q1) \<and> stilled q1 = q \<and> shape k n q1 \<and> one_lap q1 = 2 ^ k"
    by simp
  show "\<exists>q1. load_tail (stirred sp q) = (enc k n (tl_pos g), q1) \<and> stilled q1 = q"
    "\<exists>q1. load_head (stirred sp q) = (enc k n (hd_pos g), q1) \<and> stilled q1 = q"
    using m(6,7) by (auto simp: load_tail_def load_head_def load_def arrive_def stilled_def stirred_def new_cell_def)
qed

lemma stirred_cas:
  assumes "mem_ok k n g q"
  shows "\<exists>c. compare_exchange_weak old nw (tail (stirred sp q)) =
      (if enc k n (tl_pos g) = old \<and> \<not> sp then Inr old else Inl (enc k n (tl_pos g)), c) \<and>
      stilled ((stirred sp q)\<lparr>tail := c\<rparr>) = (if enc k n (tl_pos g) = old \<and> \<not> sp then q\<lparr>tail := new_cell nw\<rparr> else q)"
    "\<exists>c. compare_exchange_weak old nw (head (stirred sp q)) =
      (if enc k n (hd_pos g) = old \<and> \<not> sp then Inr old else Inl (enc k n (hd_pos g)), c) \<and>
      stilled ((stirred sp q)\<lparr>head := c\<rparr>) = (if enc k n (hd_pos g) = old \<and> \<not> sp then q\<lparr>head := new_cell nw\<rparr> else q)"
  using mem_okD(6,7) [OF assms]
  by (auto simp: compare_exchange_weak_def arrive_def put_def stilled_def stirred_def new_cell_def)

lemma acts_loads:
  assumes "mem_ok k n g q"
  shows "q_acts pr sp (Push_Load kd v) q = (Push_Stamp kd v (enc k n (tl_pos g)) new_backoff, q)"
    "q_acts pr sp (Push_Reload kd v bo) q = (Push_Stamp kd v (enc k n (tl_pos g)) bo, q)"
    "q_acts pr sp Pop_Load q = (Pop_Stamp (enc k n (hd_pos g)) new_backoff, q)"
    "q_acts pr sp (Pop_Reload bo) q = (Pop_Stamp (enc k n (hd_pos g)) bo, q)"
    "q_acts pr sp (Pop_Tail h bo) q = (if enc k n (tl_pos g) = h then Returns (Popped None)
       else (case spun pr bo of Inl e \<Rightarrow> Halted e | Inr bo \<Rightarrow> Pop_Reload bo), q)"
    "q_acts pr sp (Push_Full Plain v tv nt i bo) q = (if enc k n (hd_pos g) + 2 ^ k = tv then Returns (given_back Plain v)
       else (case spun pr bo of Inl e \<Rightarrow> Halted e | Inr bo \<Rightarrow> Push_Reload Plain v bo), q)"
proof -
  obtain q1 q2 where l: "load_tail (stirred sp q) = (enc k n (tl_pos g), q1)" "stilled q1 = q"
    "load_head (stirred sp q) = (enc k n (hd_pos g), q2)" "stilled q2 = q"
    using stirred_loads(1,2) [OF assms, where sp = sp] by metis
  have "one_lap q2 = 2 ^ k"
    using l(3) mem_okD(5) [OF assms] by (auto simp: load_head_def split_beta stirred_def)
  with l show "q_acts pr sp (Push_Load kd v) q = (Push_Stamp kd v (enc k n (tl_pos g)) new_backoff, q)"
    "q_acts pr sp (Push_Reload kd v bo) q = (Push_Stamp kd v (enc k n (tl_pos g)) bo, q)"
    "q_acts pr sp Pop_Load q = (Pop_Stamp (enc k n (hd_pos g)) new_backoff, q)"
    "q_acts pr sp (Pop_Reload bo) q = (Pop_Stamp (enc k n (hd_pos g)) bo, q)"
    "q_acts pr sp (Pop_Tail h bo) q = (if enc k n (tl_pos g) = h then Returns (Popped None)
       else (case spun pr bo of Inl e \<Rightarrow> Halted e | Inr bo \<Rightarrow> Pop_Reload bo), q)"
    "q_acts pr sp (Push_Full Plain v tv nt i bo) q = (if enc k n (hd_pos g) + 2 ^ k = tv then Returns (given_back Plain v)
       else (case spun pr bo of Inl e \<Rightarrow> Halted e | Inr bo \<Rightarrow> Push_Reload Plain v bo), q)"
    by (simp_all add: q_acts_def)
qed

lemma acts_stamps:
  assumes "mem_ok k n g q"
  shows "q_acts pr sp (Push_Stamp kd v (enc k n a) bo) q =
      (if enc k n a = st_at n q a then Push_Cas kd v (enc k n a) (enc k n (Suc a)) (a mod n) bo
       else if st_at n q a + 2 ^ k = enc k n a + 1 then Push_Full kd v (enc k n a) (enc k n (Suc a)) (a mod n) bo
       else (case snoozed pr bo of Inl e \<Rightarrow> Halted e | Inr bo \<Rightarrow> Push_Reload kd v bo), q)"
    "q_acts pr sp (Pop_Stamp (enc k n a) bo) q =
      (if enc k n a + 1 = st_at n q a then Pop_Cas (enc k n a) (enc k n (Suc a)) (a mod n) bo
       else if st_at n q a = enc k n a then Pop_Tail (enc k n a) bo
       else (case snoozed pr bo of Inl e \<Rightarrow> Halted e | Inr bo \<Rightarrow> Pop_Reload bo), q)"
proof -
  obtain q3 where l: "load_stamp (a mod n) (stirred sp q) = (st_at n q a, q3)" "stilled q3 = q" "shape k n q3" "one_lap q3 = 2 ^ k"
    using stirred_loads(3) [OF assms, where sp = sp and a = a] by metis
  show "q_acts pr sp (Push_Stamp kd v (enc k n a) bo) q =
      (if enc k n a = st_at n q a then Push_Cas kd v (enc k n a) (enc k n (Suc a)) (a mod n) bo
       else if st_at n q a + 2 ^ k = enc k n a + 1 then Push_Full kd v (enc k n a) (enc k n (Suc a)) (a mod n) bo
       else (case snoozed pr bo of Inl e \<Rightarrow> Halted e | Inr bo \<Rightarrow> Push_Reload kd v bo), q)"
    "q_acts pr sp (Pop_Stamp (enc k n a) bo) q =
      (if enc k n a + 1 = st_at n q a then Pop_Cas (enc k n a) (enc k n (Suc a)) (a mod n) bo
       else if st_at n q a = enc k n a then Pop_Tail (enc k n a) bo
       else (case snoozed pr bo of Inl e \<Rightarrow> Halted e | Inr bo \<Rightarrow> Pop_Reload bo), q)"
    using ends(3) [OF assms, where sp = sp] l
    by (simp_all add: q_acts_def stamp_arith checked_enc [OF mem_okD(2) [OF assms]])
qed

lemma acts_exchanges:
  assumes "mem_ok k n g q"
  shows "q_acts pr sp (Push_Cas kd v tv nt i bo) q =
      (if enc k n (tl_pos g) = tv \<and> \<not> sp then (Push_Write kd v tv i, q\<lparr>tail := new_cell nt\<rparr>)
       else (case spun pr bo of Inl e \<Rightarrow> Halted e | Inr bo \<Rightarrow> Push_Stamp kd v (enc k n (tl_pos g)) bo, q))"
    "q_acts pr sp (Pop_Cas h nh i bo) q =
      (if enc k n (hd_pos g) = h \<and> \<not> sp then (Pop_Read h i, q\<lparr>head := new_cell nh\<rparr>)
       else (case spun pr bo of Inl e \<Rightarrow> Halted e | Inr bo \<Rightarrow> Pop_Stamp (enc k n (hd_pos g)) bo, q))"
    "q_acts pr sp (Push_Full Forcing v tv nt i bo) q =
      (if enc k n (hd_pos g) = tv - 2 ^ k \<and> \<not> sp then (Force_Tail v tv nt i, q\<lparr>head := new_cell (nt - 2 ^ k)\<rparr>)
       else (case spun pr bo of Inl e \<Rightarrow> Halted e | Inr bo \<Rightarrow> Push_Reload Forcing v bo, q))"
  using stirred_cas(1) [OF assms, where old = tv and nw = nt and sp = sp]
    stirred_cas(2) [OF assms, where old = h and nw = nh and sp = sp]
    stirred_cas(2) [OF assms, where old = "tv - 2 ^ k" and nw = "nt - 2 ^ k" and sp = sp] ends(4) [OF assms, where sp = sp]
  by (auto simp: q_acts_def)

lemma acts_own:
  assumes "mem_ok k n g q"
  shows "q_acts pr sp (Push_Write kd v (enc k n a) i) q = (Push_Publish kd (enc k n a + 1) i, write_value i v q)"
    "q_acts pr sp (Push_Publish kd st i) q = (Returns (pushed kd), store_stamp i st q)"
    "q_acts pr sp (Force_Tail v tv nt i) q = (Force_Swap v tv i, q\<lparr>tail := new_cell nt\<rparr>)"
    "vl_at n q a = Some old \<Longrightarrow> q_acts pr sp (Force_Swap v (enc k n a) (a mod n)) q =
      (Force_Publish old (enc k n a + 1) (a mod n), write_value (a mod n) v q)"
    "q_acts pr sp (Force_Publish old st i) q = (Returns (given_back Forcing old), store_stamp i st q)"
    "vl_at n q a = Some m \<Longrightarrow> q_acts pr sp (Pop_Read h (a mod n)) q = (Pop_Publish m h (a mod n), q)"
    "q_acts pr sp (Pop_Publish m h i) q = (Returns (Popped (Some m)), store_stamp i (h + 2 ^ k) q)"
proof -
  note e = ends [OF assms] and m = mem_okD [OF assms]
  have buf: "buffer (stirred sp q) = buffer q" by (simp add: stirred_def)
  have tl: "stilled ((stirred sp q)\<lparr>tail := store nt (tail (stirred sp q))\<rparr>) = q\<lparr>tail := new_cell nt\<rparr>"
    using m(6,7) by (simp add: stilled_def stirred_def new_cell_def store_def arrive_def put_def)
  show "q_acts pr sp (Push_Write kd v (enc k n a) i) q = (Push_Publish kd (enc k n a + 1) i, write_value i v q)"
    "q_acts pr sp (Push_Publish kd st i) q = (Returns (pushed kd), store_stamp i st q)"
    "q_acts pr sp (Force_Tail v tv nt i) q = (Force_Swap v tv i, q\<lparr>tail := new_cell nt\<rparr>)"
    "vl_at n q a = Some old \<Longrightarrow> q_acts pr sp (Force_Swap v (enc k n a) (a mod n)) q =
      (Force_Publish old (enc k n a + 1) (a mod n), write_value (a mod n) v q)"
    "q_acts pr sp (Force_Publish old st i) q = (Returns (given_back Forcing old), store_stamp i st q)"
    "vl_at n q a = Some m \<Longrightarrow> q_acts pr sp (Pop_Read h (a mod n)) q = (Pop_Publish m h (a mod n), q)"
    "q_acts pr sp (Pop_Publish m h i) q = (Returns (Popped (Some m)), store_stamp i (h + 2 ^ k) q)"
    by (simp_all add: q_acts_def checked_enc [OF m(2)] write_value_def store_stamp_def read_value_def vl_at_def
        e buf tl)
qed

end
