(* ===== verification/Queue_Refine.thy ===== *)
theory Queue_Refine
  imports Queue_Acts
begin

text \<open>Each access of a thread is no step of the atomic queue, or the one where its call takes effect.\<close>

definition contents :: "'a ghost \<Rightarrow> 'a list" where
  "contents g = map (val_at g) [hd_pos g..<end_pos g]"

definition serves :: "nat \<Rightarrow> 'a ghost \<Rightarrow> 'a phase \<Rightarrow> 'a ghost \<Rightarrow> 'a phase \<Rightarrow> bool" where
  "serves n g ph g' ph' \<longleftrightarrow> ph' = ph \<and> contents g' = contents g \<or>
     (\<exists>opn a. ph = Asked opn \<and> ph' = Answered a \<and> fifo_step n opn (contents g) = (a, contents g'))"

definition simulated ::
  "profile \<Rightarrow> nat \<Rightarrow> nat \<Rightarrow> 'a ghost \<Rightarrow> 'a array_queue \<Rightarrow> (nat \<Rightarrow> 'a q_point) \<Rightarrow> (nat \<Rightarrow> 'a phase) \<Rightarrow> nat \<Rightarrow> 'a q_point \<times> 'a array_queue \<Rightarrow> bool" where
  "simulated pr k n g q pts phs t x \<longleftrightarrow> (case x of (p', q') \<Rightarrow>
     \<exists>g' ph'. coherent pr k n g' q' (pts(t := p')) (phs(t := ph')) \<and> serves n g (phs t) g' ph' \<and>
       tl_pos g' = tl_pos g + (if cval (tail q') = cval (tail q) then 0 else 1))"

lemma simulatedI:
  assumes "coherent pr k n g' q' (pts(t := p')) (phs(t := ph'))" "serves n g (phs t) g' ph'"
    "tl_pos g' = tl_pos g + (if cval (tail q') = cval (tail q) then 0 else 1)"
  shows "simulated pr k n g q pts phs t (p', q')"
  unfolding simulated_def prod.case using assms by blast

lemma simulated_stay:
  assumes "coherent pr k n g q' (pts(t := p')) phs" "tail q' = tail q"
  shows "simulated pr k n g q pts phs t (p', q')"
  by (rule simulatedI [of pr k n g q' pts t p' phs "phs t"]) (use assms in \<open>simp_all add: serves_def\<close>)

lemma simulated_local:
  assumes "coherent pr k n g q pts phs" "claims n g pts t = None" "claim n p' a' = None"
    "thread_ok pr k n g q a' (phs t) p'"
  shows "simulated pr k n g q pts phs t (p', q)"
  by (rule simulatedI [OF coherent_local [OF assms]]) (simp_all add: serves_def contents_def)

lemma simulated_answer:
  assumes "coherent pr k n g q pts phs" "claims n g pts t = None" "phs t = Asked opn"
    "fifo_step n opn (contents g) = (a, contents g)"
  shows "simulated pr k n g q pts phs t (Returns a, q)"
  by (rule simulatedI [OF coherent_local [OF assms(1,2), where a' = "pos g t" and p' = "Returns a" and ph' = "Answered a"]])
    (use assms(3,4) in \<open>auto simp: serves_def contents_def\<close>)

lemma pause_fault:
  "spun pr bo = Inl e \<Longrightarrow> pr = Debug \<and> e = Overflow" "snoozed pr bo = Inl e \<Longrightarrow> pr = Debug \<and> e = Overflow"
  by (auto simp: spun_def spin_def snoozed_def snooze_def checked_add_def Let_def split: if_splits sum.splits)

lemma simulated_pause:
  assumes "coherent pr k n g q pts phs" "claims n g pts t = None"
    "\<And>bo. claim n (P bo) a' = None" "\<And>bo. thread_ok pr k n g q a' (phs t) (P bo)"
  shows "simulated pr k n g q pts phs t (case spun pr bo of Inl e \<Rightarrow> Halted e | Inr bo \<Rightarrow> P bo, q)"
    "simulated pr k n g q pts phs t (case snoozed pr bo of Inl e \<Rightarrow> Halted e | Inr bo \<Rightarrow> P bo, q)"
  using assms
  by (auto split: sum.split intro!: simulated_local [where a' = a'] dest: pause_fault)

lemma contents_Nil: "contents g = [] \<longleftrightarrow> end_pos g \<le> hd_pos g"
  by (auto simp: contents_def)

lemma length_contents [simp]: "length (contents g) = end_pos g - hd_pos g"
  by (simp add: contents_def)

lemma contents_push:
  assumes "hd_pos g \<le> T" "end_pos g = T"
  shows "contents (g\<lparr>tl_pos := x, end_pos := Suc T, val_at := (val_at g)(T := v)\<rparr>) = contents g @ [v]"
  using assms by (auto simp: contents_def)

lemma contents_pop:
  assumes "hd_pos g < end_pos g"
  shows "contents g = val_at g (hd_pos g) # contents (g\<lparr>hd_pos := Suc (hd_pos g)\<rparr>)"
  using assms by (simp add: contents_def upt_conv_Cons)

lemma contents_force:
  assumes "hd_pos g < T" "end_pos g = T"
  shows "contents (g\<lparr>hd_pos := Suc (hd_pos g), end_pos := Suc T, val_at := (val_at g)(T := v)\<rparr>) = tl (contents g) @ [v]"
  using assms by (auto simp: contents_def upt_conv_Cons)

lemma window_slot: "0 < n \<Longrightarrow> \<exists>c. in_window n g c \<and> c mod n = a mod n"
proof (rule exI [of _ "hd_pos g + (a + (n - 1) * hd_pos g) mod n"], intro conjI)
  assume n: "0 < n"
  then show "in_window n g (hd_pos g + (a + (n - 1) * hd_pos g) mod n)" by (simp add: in_window_def)
  have "(hd_pos g + (a + (n - 1) * hd_pos g) mod n) mod n = (hd_pos g + (a + (n - 1) * hd_pos g)) mod n"
    by (rule mod_add_right_eq)
  also have "hd_pos g + (a + (n - 1) * hd_pos g) = a + n * hd_pos g"
    using n by (cases n) simp_all
  finally show "(hd_pos g + (a + (n - 1) * hd_pos g) mod n) mod n = a mod n" by simp
qed

text \<open>A stamp a lap behind the tail is that of a filled slot.\<close>

lemma lap_behind:
  assumes coh: "coherent pr k n g q pts phs" and a: "a \<le> tl_pos g" and st: "st_at n q a + 2 ^ k = enc k n a + 1"
  shows "n \<le> a" "seen_full k n g q (a - n)"
proof -
  note m = mem_okD [OF coherentD(1) [OF coh]]
  obtain c where w: "in_window n g c" and c: "c mod n = a mod n" using window_slot [OF m(3)] by blast
  have st_c: "st_at n q c = st_at n q a" by (simp add: st_at_def c)
  have small: "c < turns k n" "c + n < turns k n" "a < turns k n"
    using w a m(8,12) by (auto simp: in_window_def)
  show n: "n \<le> a"
  proof (rule ccontr)
    assume "\<not> n \<le> a"
    have no: False if "st_at n q c = enc k n c"
      using that st st_c enc_add_lap [OF m(2), of c] enc_plus_1_ne [OF m(2), of a "c + n"] c by simp
    show False
      using coh w
    proof (cases rule: stamp_forms)
      case 3
      then have "enc k n (c + n) = enc k n a"
        using st st_c enc_add_lap [OF m(2), of c] by (simp add: algebra_simps)
      with enc_inj_turns [OF m(2)] small \<open>\<not> n \<le> a\<close> show False by force
    next
      case 4
      then have "enc k n c = enc k n a"
        using st st_c enc_add_lap [OF m(2), of "c - n"] by (simp add: algebra_simps)
      with enc_inj_turns [OF m(2)] small 4(1) \<open>\<not> n \<le> a\<close> show False by blast
    qed (use no in auto)
  qed
  have "enc k n a = enc k n (a - n) + 2 ^ k" using enc_add_lap [OF m(2), of "a - n"] n by simp
  with st have "st_at n q a = enc k n (a - n) + 1" by (simp add: algebra_simps)
  moreover have "st_at n q (a - n) = st_at n q a" by (simp add: st_at_def back_a_lap n)
  moreover have "a - n \<le> hd_pos g" using a m(9,11) by linarith
  ultimately show "seen_full k n g q (a - n)" unfolding seen_full_def by metis
qed

section \<open>Every access\<close>

lemma enc_Suc_ne: "lap_ok k n \<Longrightarrow> enc k n (Suc p) \<noteq> enc k n p"
  using enc_inj [of k n p "Suc p"] by (auto dest: lap_okD)

lemma fifo_push:
  "length xs < n \<Longrightarrow> fifo_step n (push_op kd v) xs = (pushed kd, xs @ [v])"
  "length xs = n \<Longrightarrow> fifo_step n (push_op Plain v) xs = (given_back Plain v, xs)"
  "length xs = n \<Longrightarrow> fifo_step n (push_op Forcing v) xs = (given_back Forcing (hd xs), tl xs @ [v])"
  by (auto simp: push_op_def pushed_def given_back_def split: push_kind.split)

text \<open>Stamps that the threads compare have not wrapped around.\<close>

lemma same_position:
  assumes "mem_ok k n g q" "enc k n a = enc k n b" "a \<le> tl_pos g + 2 * n" "b \<le> tl_pos g + 2 * n"
  shows "a = b"
  by (rule enc_inj_turns [OF mem_okD(2) [OF assms(1)] assms(2)])
    (use mem_okD(12) [OF assms(1)] assms(3,4) in linarith)+

lemma simulated_push_cas:
  assumes coh: "coherent pr k n g q pts phs" and p: "pts t = Push_Cas kd v tv nt i bo"
    and bound: "cval (tail (snd (q_acts pr sp (pts t) q))) \<noteq> cval (tail q) \<Longrightarrow> tl_pos g + 2 * n + 2 < turns k n"
  shows "simulated pr k n g q pts phs t (q_acts pr sp (pts t) q)"
proof -
  note mem = coherentD(1) [OF coh] and m = mem_okD [OF coherentD(1) [OF coh]]
  have ok: "phs t = Asked (push_op kd v)" "tv = enc k n (pos g t)" "nt = enc k n (Suc (pos g t))"
    "i = pos g t mod n" "seen_free k n g q (pos g t)"
    using coherentD(2) [OF coh, of t] by (simp_all add: p)
  have idle: "claims n g pts t = None" by (simp add: claims_def p)
  show ?thesis
  proof (cases "enc k n (tl_pos g) = tv \<and> \<not> sp")
    case False
    have "simulated pr k n g q pts phs t (case spun pr bo of Inl e \<Rightarrow> Halted e | Inr bo \<Rightarrow> Push_Stamp kd v (enc k n (tl_pos g)) bo, q)"
      by (rule simulated_pause [OF coh idle, where a' = "tl_pos g"]) (simp_all add: ok)
    with False show ?thesis by (auto simp: p acts_exchanges(1) [OF mem])
  next
    case True
    then have "enc k n (pos g t) = enc k n (tl_pos g)" by (simp add: ok(2))
    from same_position [OF mem this] ok(5) have a: "pos g t = tl_pos g" by (simp add: seen_free_def)
    with ok(5) have st: "st_at n q (tl_pos g) = enc k n (tl_pos g)" by (simp add: seen_free_def)
    note f = tail_slot_free [OF coh st]
    have act: "q_acts pr sp (pts t) q = (Push_Write kd v tv i, q\<lparr>tail := new_cell nt\<rparr>)"
      using True by (simp add: p acts_exchanges(1) [OF mem])
    have ne: "enc k n (Suc (tl_pos g)) \<noteq> enc k n (tl_pos g)" by (rule enc_Suc_ne [OF m(2)])
    with bound have b: "tl_pos g + 2 * n + 2 < turns k n" by (simp add: act ok(3) a m(7) new_cell_def)
    have c: "contents (g\<lparr>tl_pos := Suc (tl_pos g), end_pos := Suc (tl_pos g), val_at := (val_at g)(tl_pos g := v)\<rparr>) = contents g @ [v]"
      by (rule contents_push) (use m(8) f in simp_all)
    have room: "length (contents g) < n" using f m(8) by simp
    show ?thesis
      unfolding act ok(2-4) a
      by (rule simulatedI [OF coherent_push [OF coh idle st a b, where kd = kd and v = v]])
        (use ne ok(1) room in \<open>simp_all add: serves_def c fifo_push m(7) new_cell_def\<close>)
  qed
qed

lemma simulated_push_full:
  assumes coh: "coherent pr k n g q pts phs" and p: "pts t = Push_Full kd v tv nt i bo"
  shows "simulated pr k n g q pts phs t (q_acts pr sp (pts t) q)"
proof -
  note mem = coherentD(1) [OF coh] and m = mem_okD [OF coherentD(1) [OF coh]]
  let ?a = "pos g t"
  have ok: "phs t = Asked (push_op kd v)" "tv = enc k n ?a" "nt = enc k n (Suc ?a)"
    "i = ?a mod n" "?a \<le> tl_pos g" "n \<le> ?a" "seen_full k n g q (?a - n)"
    using coherentD(2) [OF coh, of t] by (simp_all add: p)
  have idle: "claims n g pts t = None" by (simp add: claims_def p)
  have pause: "simulated pr k n g q pts phs t (case spun pr bo of Inl e \<Rightarrow> Halted e | Inr bo \<Rightarrow> Push_Reload kd v bo, q)"
    by (rule simulated_pause [OF coh idle, where a' = ?a]) (simp_all add: ok)
  have lap: "enc k n ?a = enc k n (?a - n) + 2 ^ k" using enc_add_lap [OF m(2), of "?a - n"] ok(6) by simp
  have full: "tl_pos g = hd_pos g + n \<and> end_pos g = hd_pos g + n \<and> ?a = hd_pos g + n" if "enc k n (hd_pos g) = enc k n (?a - n)"
  proof -
    have "hd_pos g = ?a - n" using same_position [OF mem that] ok(5) m(8) by simp
    with ok(5,6) m(9,11) show ?thesis by linarith
  qed
  show ?thesis
  proof (cases kd)
    case Plain
    show ?thesis
    proof (cases "enc k n (hd_pos g) + 2 ^ k = tv")
      case True
      with lap ok(2) have "enc k n (hd_pos g) = enc k n (?a - n)" by simp
      from full [OF this] have "length (contents g) = n" by simp
      from fifo_push(2) [OF this] ok(1) have "simulated pr k n g q pts phs t (Returns (given_back Plain v), q)"
        by (intro simulated_answer [OF coh idle]) (simp_all add: Plain)
      with True show ?thesis by (simp add: p Plain acts_loads(6) [OF mem])
    qed (use pause [unfolded Plain] Plain in \<open>simp add: p acts_loads(6) [OF mem]\<close>)
  next
    case Forcing
    show ?thesis
    proof (cases "enc k n (hd_pos g) = tv - 2 ^ k \<and> \<not> sp")
      case True
      with lap ok(2) have "enc k n (hd_pos g) = enc k n (?a - n)" by simp
      from full [OF this] have e: "tl_pos g = hd_pos g + n" "end_pos g = tl_pos g" "?a = hd_pos g + n" by simp_all
      with ok(7) have st: "st_at n q (hd_pos g) = enc k n (hd_pos g) + 1" by (simp add: seen_full_def)
      have nt: "nt - 2 ^ k = enc k n (Suc (hd_pos g))"
        using enc_add_lap [OF m(2), of "Suc (hd_pos g)"] ok(3) e(3) by (simp add: algebra_simps)
      have act: "q_acts pr sp (pts t) q = (Force_Tail v tv nt i, q\<lparr>head := new_cell (enc k n (Suc (hd_pos g)))\<rparr>)"
        using True by (simp add: p Forcing acts_exchanges(3) [OF mem] nt)
      have h: "hd_pos g < tl_pos g" using e m(3) by simp
      then have hd: "hd (contents g) = val_at g (hd_pos g)" using e contents_pop [of g] by simp
      have len: "length (contents g) = n" using e by simp
      have a: "?a = tl_pos g" using e by simp
      show ?thesis
        unfolding act ok(2-4) a
        by (rule simulatedI [OF coherent_force [OF coh idle st e(3,1), where v = v]])
          (use ok(1) Forcing len in \<open>simp_all add: serves_def contents_force [OF h e(2)] fifo_push hd del: length_contents\<close>)
    qed (use pause [unfolded Forcing] Forcing in \<open>auto simp: p acts_exchanges(3) [OF mem]\<close>)
  qed
qed

lemma simulated_pop_cas:
  assumes coh: "coherent pr k n g q pts phs" and p: "pts t = Pop_Cas h nh i bo"
  shows "simulated pr k n g q pts phs t (q_acts pr sp (pts t) q)"
proof -
  note mem = coherentD(1) [OF coh] and m = mem_okD [OF coherentD(1) [OF coh]]
  have ok: "phs t = Asked Pop" "h = enc k n (pos g t)" "nh = enc k n (Suc (pos g t))"
    "i = pos g t mod n" "seen_full k n g q (pos g t)"
    using coherentD(2) [OF coh, of t] by (simp_all add: p)
  have idle: "claims n g pts t = None" by (simp add: claims_def p)
  show ?thesis
  proof (cases "enc k n (hd_pos g) = h \<and> \<not> sp")
    case False
    have "simulated pr k n g q pts phs t (case spun pr bo of Inl e \<Rightarrow> Halted e | Inr bo \<Rightarrow> Pop_Stamp (enc k n (hd_pos g)) bo, q)"
      by (rule simulated_pause [OF coh idle, where a' = "hd_pos g"]) (simp_all add: ok)
    with False show ?thesis by (auto simp: p acts_exchanges(2) [OF mem])
  next
    case True
    then have "enc k n (pos g t) = enc k n (hd_pos g)" by (simp add: ok(2))
    moreover have "pos g t \<le> hd_pos g" using ok(5) by (simp add: seen_full_def)
    ultimately have a: "pos g t = hd_pos g" using m(8) by (intro same_position [OF mem]) simp_all
    with ok(5) have st: "st_at n q (hd_pos g) = enc k n (hd_pos g) + 1" by (simp add: seen_full_def)
    note f = head_slot_full [OF coh st]
    have act: "q_acts pr sp (pts t) q = (Pop_Read h i, q\<lparr>head := new_cell nh\<rparr>)"
      using True by (simp add: p acts_exchanges(2) [OF mem])
    have c: "contents g = val_at g (hd_pos g) # contents (g\<lparr>hd_pos := Suc (hd_pos g)\<rparr>)"
      by (rule contents_pop) (use f(1) m(9) in simp)
    show ?thesis
      unfolding act ok(2-4) a
      by (rule simulatedI [OF coherent_pop [OF coh idle st a]]) (simp_all add: serves_def ok(1) c)
  qed
qed

lemma simulated_stamp:
  assumes coh: "coherent pr k n g q pts phs" and p: "pts t = Push_Stamp kd v tv bo \<or> pts t = Pop_Stamp tv bo"
  shows "simulated pr k n g q pts phs t (q_acts pr sp (pts t) q)"
proof -
  note mem = coherentD(1) [OF coh] and m = mem_okD [OF coherentD(1) [OF coh]]
  let ?a = "pos g t"
  from p show ?thesis
  proof
    assume p: "pts t = Push_Stamp kd v tv bo"
    have ok: "phs t = Asked (push_op kd v)" "tv = enc k n ?a" "?a \<le> tl_pos g"
      using coherentD(2) [OF coh, of t] by (simp_all add: p)
    have idle: "claims n g pts t = None" by (simp add: claims_def p)
    have "simulated pr k n g q pts phs t (Push_Cas kd v tv (enc k n (Suc ?a)) (?a mod n) bo, q)" if "enc k n ?a = st_at n q ?a"
      by (rule simulated_local [OF coh idle, where a' = ?a]) (use that [symmetric] ok in \<open>auto simp: seen_free_def\<close>)
    moreover have "simulated pr k n g q pts phs t (Push_Full kd v tv (enc k n (Suc ?a)) (?a mod n) bo, q)"
      if "st_at n q ?a + 2 ^ k = enc k n ?a + 1"
      by (rule simulated_local [OF coh idle, where a' = ?a]) (use lap_behind [OF coh ok(3) that] ok in simp_all)
    moreover have "simulated pr k n g q pts phs t (case snoozed pr bo of Inl e \<Rightarrow> Halted e | Inr bo \<Rightarrow> Push_Reload kd v bo, q)"
      by (rule simulated_pause [OF coh idle, where a' = ?a]) (simp_all add: ok)
    ultimately show ?thesis by (simp add: p ok(2) acts_stamps(1) [OF mem])
  next
    assume p: "pts t = Pop_Stamp tv bo"
    have ok: "phs t = Asked Pop" "tv = enc k n ?a" "?a \<le> hd_pos g"
      using coherentD(2) [OF coh, of t] by (simp_all add: p)
    have idle: "claims n g pts t = None" by (simp add: claims_def p)
    have "simulated pr k n g q pts phs t (Pop_Cas tv (enc k n (Suc ?a)) (?a mod n) bo, q)" if "enc k n ?a + 1 = st_at n q ?a"
      by (rule simulated_local [OF coh idle, where a' = ?a]) (use that [symmetric] ok in \<open>auto simp: seen_full_def\<close>)
    moreover have "simulated pr k n g q pts phs t (Pop_Tail tv bo, q)" if "st_at n q ?a = enc k n ?a"
      by (rule simulated_local [OF coh idle, where a' = ?a]) (use that ok m(8) in \<open>auto simp: seen_free_def\<close>)
    moreover have "simulated pr k n g q pts phs t (case snoozed pr bo of Inl e \<Rightarrow> Halted e | Inr bo \<Rightarrow> Pop_Reload bo, q)"
      by (rule simulated_pause [OF coh idle, where a' = ?a]) (simp_all add: ok)
    ultimately show ?thesis by (simp add: p ok(2) acts_stamps(2) [OF mem])
  qed
qed

lemma simulated_load:
  assumes coh: "coherent pr k n g q pts phs"
    and p: "pts t \<in> {Push_Load kd v, Push_Reload kd v bo, Pop_Load, Pop_Reload bo, Pop_Tail h bo}"
  shows "simulated pr k n g q pts phs t (q_acts pr sp (pts t) q)"
proof -
  note mem = coherentD(1) [OF coh] and m = mem_okD [OF coherentD(1) [OF coh]] and th = coherentD(2) [OF coh, of t]
  have idle: "claims n g pts t = None" using p by (auto simp: claims_def)
  have tail: "simulated pr k n g q pts phs t (Push_Stamp kd v (enc k n (tl_pos g)) b, q)"
    if "phs t = Asked (push_op kd v)" for b
    by (rule simulated_local [OF coh idle, where a' = "tl_pos g"]) (simp_all add: that)
  have head: "simulated pr k n g q pts phs t (Pop_Stamp (enc k n (hd_pos g)) b, q)"
    if "phs t = Asked Pop" for b
    by (rule simulated_local [OF coh idle, where a' = "hd_pos g"]) (simp_all add: that)
  show ?thesis
  proof (cases "pts t = Pop_Tail h bo")
    case True
    then have ok: "phs t = Asked Pop" "h = enc k n (pos g t)" "pos g t \<le> hd_pos g" "seen_free k n g q (pos g t)"
      using th by simp_all
    show ?thesis
    proof (cases "enc k n (tl_pos g) = h")
      case empty: True
      then have "pos g t = tl_pos g" using ok(2,3) m(8) by (intro same_position [OF mem]) simp_all
      with ok(3,4) have "st_at n q (tl_pos g) = enc k n (tl_pos g)" "tl_pos g \<le> hd_pos g" by (simp_all add: seen_free_def)
      with tail_slot_free [OF coh] have "contents g = []" by (simp add: contents_Nil)
      then have "simulated pr k n g q pts phs t (Returns (Popped None), q)"
        by (intro simulated_answer [OF coh idle ok(1)]) simp
      with True empty show ?thesis by (simp add: acts_loads(5) [OF mem])
    next
      case False
      have "simulated pr k n g q pts phs t (case spun pr bo of Inl e \<Rightarrow> Halted e | Inr bo \<Rightarrow> Pop_Reload bo, q)"
        by (rule simulated_pause [OF coh idle, where a' = "pos g t"]) (simp_all add: ok(1))
      with True False show ?thesis by (simp add: acts_loads(5) [OF mem])
    qed
  next
    case False
    with p th tail head show ?thesis by (auto simp: acts_loads(1-4) [OF mem])
  qed
qed

lemma simulated_own_push:
  assumes coh: "coherent pr k n g q pts phs" and p: "pts t = Push_Write kd v tv i \<or> pts t = Push_Publish kd tv i"
  shows "simulated pr k n g q pts phs t (q_acts pr sp (pts t) q)"
proof -
  note mem = coherentD(1) [OF coh] and m = mem_okD [OF coherentD(1) [OF coh]]
  note frame = slot_frame [OF mem, of "pos g t"]
  let ?a = "pos g t"
  from p show ?thesis
  proof
    assume p: "pts t = Push_Write kd v tv i"
    have ok: "phs t = Answered (pushed kd)" "tv = enc k n ?a" "i = ?a mod n" "writing g ?a" "?a < tl_pos g"
      "st_at n q ?a = enc k n ?a" "val_at g ?a = v"
      using coherentD(2) [OF coh, of t] by (simp_all add: p)
    have cl: "claims n g pts t = Some ?a" by (simp add: claims_def p)
    have "coherent pr k n g (write_value i v q) (pts(t := Push_Publish kd (enc k n ?a + 1) i)) phs"
      by (rule coherent_value [OF coh cl, where v = v]) (use ok in \<open>simp_all add: frame\<close>)
    from simulated_stay [OF this, of q] show ?thesis
      by (simp add: p ok(2) acts_own(1) [OF mem] write_value_def)
  next
    assume p: "pts t = Push_Publish kd tv i"
    have ok: "phs t = Answered (pushed kd)" "tv = enc k n ?a + 1" "i = ?a mod n" "writing g ?a" "?a < tl_pos g"
      "st_at n q ?a = enc k n ?a" "vl_at n q ?a = Some (val_at g ?a)"
      using coherentD(2) [OF coh, of t] by (simp_all add: p)
    have cl: "claims n g pts t = Some ?a" by (simp add: claims_def p)
    have "coherent pr k n g (store_stamp (?a mod n) tv q) (pts(t := Returns (pushed kd))) phs"
      by (rule coherent_publish [OF coh cl]) (use ok in \<open>simp_all add: frame slot_fits_def writing_def\<close>)
    from simulated_stay [OF this, of q] show ?thesis
      by (simp add: p ok(3) acts_own(2) [OF mem] store_stamp_def)
  qed
qed

lemma simulated_own_force:
  assumes coh: "coherent pr k n g q pts phs" and p: "pts t = Force_Swap v tv i \<or> pts t = Force_Publish v tv i"
  shows "simulated pr k n g q pts phs t (q_acts pr sp (pts t) q)"
proof -
  note mem = coherentD(1) [OF coh] and m = mem_okD [OF coherentD(1) [OF coh]]
  note frame = slot_frame [OF mem, of "pos g t"]
  let ?a = "pos g t"
  from p show ?thesis
  proof
    assume p: "pts t = Force_Swap v tv i"
    obtain old where ok: "tv = enc k n ?a" "i = ?a mod n" "writing g ?a" "?a < tl_pos g" "n \<le> ?a"
      "st_at n q ?a = enc k n (?a - n) + 1" "val_at g ?a = v" "vl_at n q ?a = Some old"
      "phs t = Answered (given_back Forcing old)"
      using coherentD(2) [OF coh, of t] by (auto simp: p)
    have cl: "claims n g pts t = Some ?a" by (simp add: claims_def p)
    have "coherent pr k n g (write_value i v q) (pts(t := Force_Publish old (enc k n ?a + 1) i)) phs"
      by (rule coherent_value [OF coh cl, where v = v]) (use ok in \<open>simp_all add: frame\<close>)
    from simulated_stay [OF this, of q] show ?thesis
      by (simp add: p ok(1,2) acts_own(4) [OF mem ok(8)] write_value_def)
  next
    assume p: "pts t = Force_Publish v tv i"
    have ok: "phs t = Answered (given_back Forcing v)" "tv = enc k n ?a + 1" "i = ?a mod n" "writing g ?a" "?a < tl_pos g"
      "vl_at n q ?a = Some (val_at g ?a)"
      using coherentD(2) [OF coh, of t] by (simp_all add: p)
    have cl: "claims n g pts t = Some ?a" by (simp add: claims_def p)
    have "coherent pr k n g (store_stamp (?a mod n) tv q) (pts(t := Returns (given_back Forcing v))) phs"
      by (rule coherent_publish [OF coh cl]) (use ok in \<open>simp_all add: frame slot_fits_def writing_def\<close>)
    from simulated_stay [OF this, of q] show ?thesis
      by (simp add: p ok(3) acts_own(5) [OF mem] store_stamp_def)
  qed
qed

lemma simulated_force_tail:
  assumes coh: "coherent pr k n g q pts phs" and p: "pts t = Force_Tail v tv nt i"
    and bound: "cval (tail (snd (q_acts pr sp (pts t) q))) \<noteq> cval (tail q) \<Longrightarrow> tl_pos g + 2 * n + 2 < turns k n"
  shows "simulated pr k n g q pts phs t (q_acts pr sp (pts t) q)"
proof -
  note mem = coherentD(1) [OF coh] and m = mem_okD [OF coherentD(1) [OF coh]]
  have ok: "nt = enc k n (Suc (pos g t))" "pos g t < end_pos g" "\<not> pos g t < tl_pos g"
    using coherentD(2) [OF coh, of t] by (simp_all add: p writing_def)
  have "pos g t = tl_pos g" using ok(2,3) m(10) by linarith
  with ok(1) have nt: "nt = enc k n (Suc (tl_pos g))" by simp
  have ne: "enc k n (Suc (tl_pos g)) \<noteq> enc k n (tl_pos g)" by (rule enc_Suc_ne [OF m(2)])
  have act: "q_acts pr sp (pts t) q = (Force_Swap v tv i, q\<lparr>tail := new_cell nt\<rparr>)"
    by (simp add: p acts_own(3) [OF mem])
  have b: "tl_pos g + 2 * n + 2 < turns k n" using bound ne by (simp add: act nt m(7) new_cell_def)
  have "coherent pr k n (g\<lparr>tl_pos := Suc (tl_pos g)\<rparr>) (q\<lparr>tail := new_cell nt\<rparr>)
      (pts(t := Force_Swap v tv i)) (phs(t := phs t))"
    using coherent_force_tail [OF coh p b] by (simp add: nt)
  from simulatedI [OF this] ne show ?thesis
    by (simp add: act serves_def contents_def nt m(7) new_cell_def)
qed

lemma simulated_own_pop:
  assumes coh: "coherent pr k n g q pts phs" and p: "pts t = Pop_Read h i \<or> pts t = Pop_Publish x h i"
  shows "simulated pr k n g q pts phs t (q_acts pr sp (pts t) q)"
proof -
  note mem = coherentD(1) [OF coh] and m = mem_okD [OF coherentD(1) [OF coh]]
  let ?a = "pos g t"
  note frame = slot_frame [OF mem, of "?a + n", simplified]
  from p show ?thesis
  proof
    assume p: "pts t = Pop_Read h i"
    obtain x where ok: "h = enc k n ?a" "i = ?a mod n" "reading n g ?a" "st_at n q ?a = enc k n ?a + 1"
      "vl_at n q ?a = Some x" "phs t = Answered (Popped (Some x))"
      using coherentD(2) [OF coh, of t] by (auto simp: p)
    have cl: "claims n g pts t = Some (?a + n)" by (simp add: claims_def p)
    have "coherent pr k n g q (pts(t := Pop_Publish x h i)) phs"
      by (rule coherent_value [OF coh cl]) (use ok in simp_all)
    from simulated_stay [OF this, of q] show ?thesis
      by (simp add: p ok(2) acts_own(6) [OF mem ok(5)])
  next
    assume p: "pts t = Pop_Publish x h i"
    have ok: "phs t = Answered (Popped (Some x))" "h = enc k n ?a" "i = ?a mod n" "reading n g ?a"
      using coherentD(2) [OF coh, of t] by (simp_all add: p)
    have cl: "claims n g pts t = Some (?a + n)" by (simp add: claims_def p)
    have "coherent pr k n g (store_stamp ((?a + n) mod n) (h + 2 ^ k) q) (pts(t := Returns (Popped (Some x)))) phs"
      by (rule coherent_publish [OF coh cl])
        (use ok in \<open>simp_all add: frame slot_fits_def reading_def enc_add_lap [OF m(2)]\<close>)
    from simulated_stay [OF this, of q] show ?thesis
      by (simp add: p ok(3) acts_own(7) [OF mem] store_stamp_def)
  qed
qed

lemma access_simulated:
  assumes coh: "coherent pr k n g q pts phs" and run: "pts t \<noteq> Q_Idle" "\<not> ended (pts t)"
    and bound: "cval (tail (snd (q_acts pr sp (pts t) q))) \<noteq> cval (tail q) \<Longrightarrow> tl_pos g + 2 * n + 2 < turns k n"
  shows "simulated pr k n g q pts phs t (q_acts pr sp (pts t) q)"
proof (cases "pts t")
  case (Push_Cas kd v tv nt i bo)
  from simulated_push_cas [OF coh this bound] show ?thesis .
next
  case (Force_Tail v tv nt i)
  from simulated_force_tail [OF coh this bound] show ?thesis .
next
  case (Push_Full kd v tv nt i bo)
  from simulated_push_full [OF coh this] show ?thesis .
next
  case (Pop_Cas h nh i bo)
  from simulated_pop_cas [OF coh this] show ?thesis .
next
  case Q_Idle
  with run show ?thesis by simp
next
  case Returns
  with run show ?thesis by simp
next
  case Halted
  with run show ?thesis by simp
qed (blast intro: simulated_load [OF coh] simulated_stamp [OF coh] simulated_own_push [OF coh]
    simulated_own_force [OF coh] simulated_own_pop [OF coh])+

end
