(* ===== verification/Queue_Linearizable.thy ===== *)
theory Queue_Linearizable
  imports Queue_Refine
begin

text \<open>
  The array queue under preemption is linearizable: every interleaving of its calls has the events
  of a run of the atomic queue. The positions must not wrap around, which takes \<open>2 ^ 63\<close> pushes.
\<close>

section \<open>The simulation\<close>

definition glue_queue :: "profile \<Rightarrow> nat \<Rightarrow> 'a queue_world \<Rightarrow> 'a atomic_queue \<Rightarrow> bool" where
  "glue_queue pr n w s \<longleftrightarrow> (\<exists>k g. coherent pr k n g (shared w) (at_point w) (phases s) \<and> items s = contents g \<and>
     events s = history w \<and> tail_moves w = tl_pos g \<and> 2 ^ 63 \<le> turns k n)"

definition few_moves :: "nat \<Rightarrow> 'a queue_world \<Rightarrow> bool" where
  "few_moves n w \<longleftrightarrow> tail_moves w + 2 * n + 1 < 2 ^ 63"

lemma new_queue_coherent:
  assumes "new_queue pr C = Inr (q :: 'a array_queue)" "2 * unat C + 1 < 2 ^ 63"
  shows "\<exists>k. 2 ^ 63 \<le> turns k (unat C) \<and> coherent pr k (unat C)
    \<lparr>hd_pos = 0, tl_pos = 0, end_pos = 0, val_at = undefined, pos = (\<lambda>_. 0)\<rparr> q (\<lambda>_. Q_Idle) (\<lambda>_. Free)"
proof -
  have C: "C \<noteq> 0" using assms(1) by (auto simp: new_queue_def)
  with assms(2) obtain k and q' :: "'a array_queue" where k: "new_queue pr C = Inr q'" "ring k (unat C) 0 [] q'" "2 ^ k \<le> 2 * unat C"
    using new_queue_ring [of C pr] by auto
  have q: "q' = q" using k(1) assms(1) by simp
  note r = ringD [OF k(2) [unfolded q]]
  have k64: "k \<le> 64" using lap_okD(3) [OF r(2)] by simp
  have "(2::nat) ^ 64 = 2 ^ k * 2 ^ (64 - k)" using k64 by (simp flip: power_add)
  also have "\<dots> \<le> 2 * unat C * 2 ^ (64 - k)" using k(3) by (rule mult_le_mono1)
  finally have big: "2 ^ 63 \<le> turns k (unat C)" by (simp add: turns_def)
  have cells: "head q = new_cell 0" "tail q = new_cell 0"
    "j < unat C \<Longrightarrow> buffer q ! j = \<lparr>stamp = new_cell (word_of_nat j), sval = None\<rparr>" for j
    using assms(1) by (auto simp: new_queue_def split: if_splits sum.splits)
  have "mem_ok k (unat C) \<lparr>hd_pos = 0, tl_pos = 0, end_pos = 0, val_at = undefined, pos = (\<lambda>_. 0)\<rparr> q"
    using r(1) cells big assms(2) by (simp add: mem_ok_def enc_0 quiet_new)
  moreover have "st_at (unat C) q j = enc k (unat C) j" if "j < unat C" for j
    using that cells(3) by (simp add: st_at_def enc_small quiet_new)
  ultimately show ?thesis
    using big by (auto simp: coherent_def claims_def slot_fits_def in_window_def)
qed

definition starts :: "profile \<Rightarrow> usize \<Rightarrow> 'a queue_world \<Rightarrow> bool" where
  "starts pr C w \<longleftrightarrow> fresh_queue pr C w \<and> few_moves (unat C) w"

definition bounded_step :: "profile \<Rightarrow> usize \<Rightarrow> 'a queue_world \<Rightarrow> 'a queue_world \<Rightarrow> bool" where
  "bounded_step pr C w w' \<longleftrightarrow> q_step pr w w' \<and> few_moves (unat C) w'"

lemma linear_glue_start:
  assumes "starts pr C w"
  shows "\<exists>s. idle_queue (unat C) s \<and> glue_queue pr (unat C) w s"
proof -
  obtain q where q: "new_queue pr C = Inr q" "w = \<lparr>shared = q, at_point = (\<lambda>_. Q_Idle), history = [], tail_moves = 0\<rparr>"
    and small: "2 * unat C + 1 < 2 ^ 63"
    using assms by (auto simp: starts_def fresh_queue_def few_moves_def)
  have "0 < unat C" using q(1) by (auto simp: new_queue_def unat_gt_0)
  moreover obtain k where "2 ^ 63 \<le> turns k (unat C)"
    "coherent pr k (unat C) \<lparr>hd_pos = 0, tl_pos = 0, end_pos = 0, val_at = undefined, pos = (\<lambda>_. 0)\<rparr> q (\<lambda>_. Q_Idle) (\<lambda>_. Free)"
    using new_queue_coherent [OF q(1) small] by blast
  ultimately show ?thesis
    by (auto simp: idle_queue_def glue_queue_def q(2) contents_def intro!: exI [of _ k])
qed

text \<open>A call and a return move no memory.\<close>

lemma linear_glue_local:
  assumes "coherent pr k n g (shared w) (at_point w) (phases s)" "items s = contents g" "tail_moves w = tl_pos g"
    "2 ^ 63 \<le> turns k n" "claims n g (at_point w) t = None" "claim n p 0 = None"
    "thread_ok pr k n g (shared w) 0 ph p"
  shows "glue_queue pr n (w\<lparr>at_point := (at_point w)(t := p), history := es\<rparr>)
    (s\<lparr>phases := (phases s)(t := ph), events := es\<rparr>)"
  using coherent_local [OF assms(1,5-7)] assms(2-4)
  by (auto simp: glue_queue_def contents_def intro!: exI [of _ k] exI [of _ "g\<lparr>pos := (pos g)(t := 0)\<rparr>"])

lemma begins_ok:
  "claim n (begins opn) a = None" "thread_ok pr k n g q a (Asked opn) (begins opn)"
  by (cases opn; simp add: begins_def push_op_def)+

text \<open>The three kinds of steps: a call, a return, and an access, which may be the one at which the call takes effect.\<close>

lemma linear_ask:
  assumes glue: "glue_queue pr n w s" and idle: "at_point w t = Q_Idle"
  shows "phases s t = Free" "glue_queue pr n (w\<lparr>at_point := (at_point w)(t := begins opn), history := history w @ [Asks t opn]\<rparr>)
    (s\<lparr>phases := (phases s)(t := Asked opn), events := events s @ [Asks t opn]\<rparr>)"
proof -
  obtain k g where coh: "coherent pr k n g (shared w) (at_point w) (phases s)" and s: "items s = contents g"
    "events s = history w" "tail_moves w = tl_pos g" "2 ^ 63 \<le> turns k n"
    using glue by (auto simp: glue_queue_def)
  show "phases s t = Free" using coherentD(2) [OF coh, of t] idle by simp
  have "claims n g (at_point w) t = None" by (simp add: claims_def idle)
  from linear_glue_local [OF coh s(1,3,4) this begins_ok, where es = "events s @ [Asks t opn]"] s(2) show
    "glue_queue pr n (w\<lparr>at_point := (at_point w)(t := begins opn), history := history w @ [Asks t opn]\<rparr>)
    (s\<lparr>phases := (phases s)(t := Asked opn), events := events s @ [Asks t opn]\<rparr>)" by simp
qed

lemma linear_answer:
  assumes glue: "glue_queue pr n w s" and ret: "at_point w t = Returns a"
  shows "phases s t = Answered a" "glue_queue pr n (w\<lparr>at_point := (at_point w)(t := Q_Idle), history := history w @ [Gets t a]\<rparr>)
    (s\<lparr>phases := (phases s)(t := Free), events := events s @ [Gets t a]\<rparr>)"
proof -
  obtain k g where coh: "coherent pr k n g (shared w) (at_point w) (phases s)" and s: "items s = contents g"
    "events s = history w" "tail_moves w = tl_pos g" "2 ^ 63 \<le> turns k n"
    using glue by (auto simp: glue_queue_def)
  show "phases s t = Answered a" using coherentD(2) [OF coh, of t] ret by simp
  have "claims n g (at_point w) t = None" by (simp add: claims_def ret)
  from linear_glue_local [OF coh s(1,3,4) this, of Q_Idle Free "events s @ [Gets t a]"] s(2) show
    "glue_queue pr n (w\<lparr>at_point := (at_point w)(t := Q_Idle), history := history w @ [Gets t a]\<rparr>)
    (s\<lparr>phases := (phases s)(t := Free), events := events s @ [Gets t a]\<rparr>)" by simp
qed

lemma linear_act:
  assumes glue: "glue_queue pr n w s" and busy: "at_point w t \<noteq> Q_Idle" "\<not> ended (at_point w t)"
    and few: "few_moves n (q_move pr sp t w)"
  shows "glue_queue pr n (q_move pr sp t w) s \<or> (\<exists>opn a xs. phases s t = Asked opn \<and> fifo_step n opn (items s) = (a, xs) \<and>
    glue_queue pr n (q_move pr sp t w) (s\<lparr>items := xs, phases := (phases s)(t := Answered a), log := log s @ [(t, opn, a)]\<rparr>))"
proof -
  obtain k g where coh: "coherent pr k n g (shared w) (at_point w) (phases s)" and s: "items s = contents g"
    "events s = history w" "tail_moves w = tl_pos g" "2 ^ 63 \<le> turns k n"
    using glue by (auto simp: glue_queue_def)
  obtain p' q' where act: "q_acts pr sp (at_point w t) (shared w) = (p', q')" by fastforce
  let ?w' = "q_move pr sp t w"
  have w': "?w' = w\<lparr>shared := q', at_point := (at_point w)(t := p'),
      tail_moves := tail_moves w + (if cval (tail q') = cval (tail (shared w)) then 0 else 1)\<rparr>"
    by (simp add: q_move_def act)
  have "simulated pr k n g (shared w) (at_point w) (phases s) t (q_acts pr sp (at_point w t) (shared w))"
    by (rule access_simulated [OF coh busy]) (use few s(3,4) w' in \<open>simp add: act few_moves_def\<close>)
  then obtain g' ph' where g': "coherent pr k n g' q' ((at_point w)(t := p')) ((phases s)(t := ph'))"
    "serves n g (phases s t) g' ph'" "tl_pos g' = tail_moves ?w'"
    by (auto simp: simulated_def act w' s(3))
  have glue': "glue_queue pr n ?w' (s\<lparr>items := contents g', phases := (phases s)(t := ph'), log := l\<rparr>)" for l
    using g'(1,3) s(2,4) by (auto simp: glue_queue_def w' intro!: exI [of _ k] exI [of _ g'])
  from g'(2) show ?thesis
    unfolding serves_def
  proof (elim disjE exE conjE)
    assume "ph' = phases s t" "contents g' = contents g"
    then have "s\<lparr>items := contents g', phases := (phases s)(t := ph'), log := log s\<rparr> = s" using s(1) by simp
    with glue' [of "log s"] show ?thesis by auto
  next
    fix opn a assume "phases s t = Asked opn" "ph' = Answered a" "fifo_step n opn (contents g) = (a, contents g')"
    with glue' [of "log s @ [(t, opn, a)]"] s(1) show ?thesis by auto
  qed
qed

lemma q_task_cases [consumes 1, case_names Call Return Access]:
  assumes "q_task pr (t, ch) w = Some w'"
  obtains opn where "at_point w t = Q_Idle" "w' = w\<lparr>at_point := (at_point w)(t := begins opn), history := history w @ [Asks t opn]\<rparr>"
  | a where "at_point w t = Returns a" "w' = w\<lparr>at_point := (at_point w)(t := Q_Idle), history := history w @ [Gets t a]\<rparr>"
  | sp where "at_point w t \<noteq> Q_Idle" "\<not> ended (at_point w t)" "w' = q_move pr sp t w"
  using assms by (auto simp: q_task_def split: q_choice.splits q_point.splits)

lemma linear_glue_step:
  assumes glue: "glue_queue pr (unat C) w s" and step: "bounded_step pr C w w'"
  shows "\<exists>s'. (atomic_step (unat C))\<^sup>*\<^sup>* s s' \<and> glue_queue pr (unat C) w' s'"
proof -
  obtain t ch where task: "q_task pr (t, ch) w = Some w'" and few: "few_moves (unat C) w'"
    using step by (auto simp: bounded_step_def elim: q_step.cases)
  from task show ?thesis
  proof (cases rule: q_task_cases)
    case (Call opn)
    from linear_ask(1) [OF glue Call(1)] linear_ask(2) [OF glue Call(1), of opn] atomic_step.ask [where n = "unat C" and s = s and t = t and opn = opn] Call(2) show ?thesis by auto
  next
    case (Return a)
    from linear_answer [OF glue Return(1)] atomic_step.answer [where n = "unat C" and s = s and t = t and a = a] Return(2) show ?thesis by auto
  next
    case (Access sp)
    from linear_act [OF glue Access(1,2) few [unfolded Access(3)]] Access(3) show ?thesis
      by (auto dest: atomic_step.effect)
  qed
qed

interpretation threads: safe_simulation "idle_queue (unat C)" "atomic_step (unat C)" "lawful (unat C)"
    "starts pr C" "bounded_step pr C" "glue_queue pr (unat C)" for pr C
  by unfold_locales (erule linear_glue_start, rule linear_glue_step, assumption+)

text \<open>The tail only moves on, so a run with few moves has few at every state.\<close>

lemma tail_moves_on: "q_step pr w w' \<Longrightarrow> tail_moves w \<le> tail_moves w'"
proof (erule q_step.cases)
  fix d v v' assume d: "w = v" "w' = v'" "q_task pr d v = Some v'"
  have "tail_moves v \<le> tail_moves (q_move pr sp t v)" for sp t by (simp add: q_move_def split: prod.split)
  with d show "tail_moves w \<le> tail_moves w'"
    by (cases d) (auto simp: q_task_def simp del: if_split split: q_choice.splits q_point.splits)
qed

lemma reachable_bounded:
  assumes "reachable (fresh_queue pr C) (q_step pr) w" "few_moves (unat C) w"
  shows "reachable (starts pr C) (bounded_step pr C) w"
  using assms
proof (induction rule: reachable.induct)
  case (start w)
  then show ?case by (intro reachable.start) (simp add: starts_def)
next
  case (further w w')
  have "tail_moves w \<le> tail_moves w'" using tail_moves_on [OF further.hyps(2)] .
  with further.prems have "few_moves (unat C) w" by (simp add: few_moves_def)
  from reachable.further [OF further.IH [OF this]] further.hyps(2) further.prems show ?case
    by (simp add: bounded_step_def)
qed

lemma reachable_glue:
  assumes "reachable (fresh_queue pr C) (q_step pr) w" "few_moves (unat C) w"
  obtains s k g where "reachable (idle_queue (unat C)) (atomic_step (unat C)) s" "lawful (unat C) s"
    "coherent pr k (unat C) g (shared w) (at_point w) (phases s)" "items s = contents g" "events s = history w"
    "tail_moves w = tl_pos g"
proof -
  obtain s where s: "reachable (idle_queue (unat C)) (atomic_step (unat C)) s" "glue_queue pr (unat C) w s"
    using threads.sim_reachable [OF reachable_bounded [OF assms]] by blast
  from s(2) obtain k g where "coherent pr k (unat C) g (shared w) (at_point w) (phases s)" "items s = contents g" "events s = history w"
    "tail_moves w = tl_pos g"
    unfolding glue_queue_def by blast
  with that s(1) atomic.inv_reachable [OF s(1)] show ?thesis by blast
qed

section \<open>Properties\<close>

text \<open>The queue is linearizable: whatever the interleaving of the calls of any number of threads, and
  whichever weak exchanges fail, the calls and their answers are those of a run of the atomic queue, in which every call takes
  effect on a bounded FIFO list at one moment between its start and its return (as long as fewer than about
  2^63 elements have been pushed, so that no stamp has come round again).\<close>

theorem queue_is_linearizable:
  assumes "reachable (fresh_queue pr C) (q_step pr) w" "few_moves (unat C) w"
  shows "\<exists>s. reachable (idle_queue (unat C)) (atomic_step (unat C)) s \<and> events s = history w"
  using reachable_glue [OF assms] by metis

text \<open>The slot whose value the next access of a thread reads or writes.\<close>

fun touches :: "'a q_point \<Rightarrow> nat option" where
  "touches (Push_Write _ _ _ i) = Some i"
| "touches (Force_Swap _ _ i) = Some i"
| "touches (Pop_Read _ i) = Some i"
| "touches _ = None"

lemma touches_claim:
  assumes "thread_ok pr k n g q a ph p" "touches p = Some i"
  obtains c where "claim n p a = Some c" "i = c mod n"
  using assms by (cases p) auto

text \<open>The values in the slots need no lock: two threads are never about to access the value of one slot, and a
  thread that is about to read one finds an element there, never uninitialised memory. This is what the unsafe impls of Sync
  and Send for the queue rest on.\<close>

theorem queue_values_never_race:
  fixes w :: "'a queue_world"
  assumes "reachable (fresh_queue pr C) (q_step pr) w" "few_moves (unat C) w"
    and "touches (at_point w t) = Some i"
  shows "i < length (buffer (shared w)) \<and> (\<forall>u. touches (at_point w u) = Some i \<longrightarrow> u = t) \<and>
    (\<forall>h v tv. at_point w t \<in> {Pop_Read h i, Force_Swap v tv i} \<longrightarrow> (\<exists>x. read_value i (shared w) = Inr x))"
proof -
  obtain s :: "'a atomic_queue" and k g where coh: "coherent pr k (unat C) g (shared w) (at_point w) (phases s)"
    by (rule reachable_glue [OF assms(1,2)])
  note m = mem_okD [OF coherentD(1) [OF coh]] and ok = coherentD(2) [OF coh]
  obtain c where c: "claims (unat C) g (at_point w) t = Some c" "i = c mod unat C"
    using touches_claim [OF ok assms(3)] by (auto simp: claims_def)
  have "u = t" if u: "touches (at_point w u) = Some i" for u
  proof -
    obtain d where d: "claims (unat C) g (at_point w) u = Some d" "i = d mod unat C"
      using touches_claim [OF ok u] by (auto simp: claims_def)
    with window_inj [OF claimed_window [OF coh c(1)] claimed_window [OF coh d(1)]] c(2) have "c = d" by simp
    with coherentD(4) [OF coh] c(1) d(1) show "u = t" by blast
  qed
  moreover have "\<exists>x. read_value i (shared w) = Inr x" if "at_point w t \<in> {Pop_Read h i, Force_Swap v tv i}" for h v tv
    using that ok [of t] by (auto simp: read_value_def vl_at_def)
  moreover have "i < length (buffer (shared w))" using c(2) m(3,4) by simp
  ultimately show ?thesis by blast
qed

text \<open>No interleaving makes a call fault, but for the overflow of its spin counter in a debug build: no index is
  out of bounds, no arithmetic on stamps overflows, no uninitialised value is read.\<close>

theorem queue_calls_fault_only_by_spinning:
  fixes w :: "'a queue_world"
  assumes "reachable (fresh_queue pr C) (q_step pr) w" "few_moves (unat C) w"
  shows "{t. \<exists>e. at_point w t = Halted e \<and> (pr, e) \<noteq> (Debug, Overflow)} = {}"
proof -
  obtain s :: "'a atomic_queue" and k g where coh: "coherent pr k (unat C) g (shared w) (at_point w) (phases s)"
    by (rule reachable_glue [OF assms(1,2)])
  have "pr = Debug \<and> e = Overflow" if "at_point w t = Halted e" for t e
    using coherentD(2) [OF coh, of t] by (simp add: that)
  then show ?thesis by blast
qed

lemma idle_ring:
  assumes coh: "coherent pr k n g q pts phs" and idle: "\<And>t. pts t = Q_Idle"
  shows "ring k n (hd_pos g) (contents g) q"
proof (rule ringI)
  note m = mem_okD [OF coherentD(1) [OF coh]]
  have free: "claims n g pts u \<noteq> Some c" for u c by (simp add: claims_def idle)
  with coherentD(5) [OF coh] m(9,10) have e: "end_pos g = tl_pos g" by force
  show "shape k n q" "length (contents g) \<le> n" using m by auto
  show "patient (head q)" "cval (head q) = enc k n (hd_pos g)" "patient (tail q)"
    "cval (tail q) = enc k n (hd_pos g + length (contents g))"
    using m(6-8) e by (simp_all add: patient_def quiet_new)
  fix j assume j: "j < n"
  have "quiet (stamp (buffer q ! ((hd_pos g + j) mod n)))" using m(13) [of "(hd_pos g + j) mod n"] m(3) by (simp add: quiet_def)
  moreover have "slot_fits k n g q (hd_pos g + j)" using coherentD(3) [OF coh] free j by (simp add: in_window_def)
  ultimately show "slot_ok k n (hd_pos g) (contents g) j (buffer q ! ((hd_pos g + j) mod n))"
    by (auto simp: slot_ok_def slot_fits_def st_at_def vl_at_def contents_def less_diff_conv add.commute split: if_splits)
qed

text \<open>C17: when no call is in progress, the calls made so far have an order in which a bounded list answers them as
  the threads were answered, every thread's own calls in the order in which it made them; the queue holds exactly
  the elements that have entered and not left, and elements have left in the order in which they entered.\<close>

theorem queue_at_rest:
  assumes "reachable (fresh_queue pr C) (q_step pr) w" "few_moves (unat C) w" "\<forall>t. at_point w t = Q_Idle"
  shows "\<exists>l xs. holds (shared w) (unat C) xs \<and> entered l = left l @ xs \<and>
    fifo_run (unat C) (map (fst \<circ> snd) l) [] = (map (snd \<circ> snd) l, xs) \<and>
    (\<forall>t. events_of t (history w) = session t l)"
proof -
  obtain s k g where s: "lawful (unat C) s" "coherent pr k (unat C) g (shared w) (at_point w) (phases s)"
    "items s = contents g" "events s = history w"
    by (rule reachable_glue [OF assms(1,2)])
  have "holds (shared w) (unat C) (items s)"
    using idle_ring [OF s(2)] assms(3) by (auto simp: holds_def s(3))
  moreover have "events_of t (history w) = session t (log s)" for t
  proof -
    have "phases s t = Free" using coherentD(2) [OF s(2), of t] assms(3) by simp
    with s(1,4) show ?thesis by (auto simp: lawful_def phase_ok_def dest!: spec [of _ t])
  qed
  ultimately show ?thesis using s(1) unfolding lawful_def by blast
qed

text \<open>The observers are not part of this: while a \<open>force_push\<close> is between its exchange on the head and its
  store to the tail, a queue of one slot that has held an element all the time reports that it is empty.\<close>

definition half_forced :: "(nat \<times> nat q_choice) list" where
  "half_forced = (0, Ask (Push 7)) # replicate 6 (0, Act False) @ (0, Ask (Force_Push 8)) # replicate 3 (0, Act False)"

definition start_world :: "nat queue_world" where
  "start_world = \<lparr>shared = (case new_queue Debug 1 of Inr q \<Rightarrow> q), at_point = (\<lambda>_. Q_Idle), history = [], tail_moves = 0\<rparr>"

lemma start_world_fresh: "fresh_queue Debug 1 start_world"
proof -
  have "map_sum id (\<lambda>_. ()) (new_queue Debug 1 :: fault + nat array_queue) = Inr ()" by code_simp
  then show ?thesis
    by (cases "new_queue Debug 1 :: fault + nat array_queue") (auto simp: fresh_queue_def start_world_def)
qed

text \<open>The world that a schedule from the start ends in.\<close>

lemma schedule_world:
  assumes "map_option f (schedule (q_task Debug) ds start_world) = Some x"
  obtains w where "reachable (fresh_queue Debug 1) (q_step Debug) w" "f w = x"
    "schedule (q_task Debug) ds start_world = Some w"
proof -
  from assms obtain w where w: "schedule (q_task Debug) ds start_world = Some w" "f w = x" by auto
  have "(q_step Debug)\<^sup>*\<^sup>* start_world w"
    by (rule schedule_steps [OF w(1)]) (rule q_step.intros)
  from reachable_steps [OF this reachable.start, of "fresh_queue Debug 1"] that w start_world_fresh show ?thesis by blast
qed

theorem force_push_looks_empty:
  "\<exists>w. reachable (fresh_queue Debug 1) (q_step Debug) w \<and> fst (is_empty (shared w)) \<and>
     history w = [Asks 0 (Push (7::nat)), Gets 0 (Pushed (Inr ())), Asks 0 (Force_Push 8)]"
proof -
  have "map_option (\<lambda>w. (fst (is_empty (shared w)), history w)) (schedule (q_task Debug) half_forced start_world) =
      Some (True, [Asks 0 (Push 7), Gets 0 (Pushed (Inr ())), Asks 0 (Force_Push 8)])"
    by code_simp
  from schedule_world [OF this] show ?thesis by force
qed

section \<open>Witnesses\<close>

text \<open>
  Three threads on a queue of one slot: a pop that overlaps a push finds the tail moved and the slot empty,
  and then a \<open>force_push\<close> replaces the element that the pop has in view.
\<close>

definition acts :: "nat \<Rightarrow> nat \<Rightarrow> (nat \<times> nat q_choice) list" where
  "acts n t = replicate n (t, Act False)"

definition overlapping :: "(nat \<times> nat q_choice) list" where
  "overlapping =
     [(0, Ask (Push 7)), (1, Ask Pop)] @ acts 3 0 @ acts 3 1 @ acts 3 0 @
     [(2, Ask (Force_Push 8))] @ acts 3 2 @ acts 2 1 @ acts 1 2"

theorem queue_values_never_race_witness:
  "\<exists>w :: nat queue_world. touches (at_point w 2) = Some 0 \<and> (\<forall>u. touches (at_point w u) = Some 0 \<longrightarrow> u = 2)"
proof -
  have "map_option (\<lambda>w. (tail_moves w, touches (at_point w 2))) (schedule (q_task Debug) overlapping start_world) =
      Some (2, Some 0)"
    by code_simp
  then obtain w :: "nat queue_world" where w: "reachable (fresh_queue Debug 1) (q_step Debug) w" "(tail_moves w, touches (at_point w 2)) = (2, Some 0)"
    by (rule schedule_world)
  then have "few_moves (unat (1::usize)) w" "touches (at_point w 2) = Some 0" by (simp_all add: few_moves_def)
  with queue_values_never_race [OF w(1) this] show ?thesis by blast
qed

definition to_the_end :: "(nat \<times> nat q_choice) list" where
  "to_the_end = overlapping @ acts 3 2 @ acts 6 1"

definition its_history :: "nat queue_event list" where
  "its_history = [Asks 0 (Push 7), Asks 1 Pop, Gets 0 (Pushed (Inr ())), Asks 2 (Force_Push 8),
     Gets 2 (Forced (Some 7)), Gets 1 (Popped (Some 8))]"

lemma to_the_end_world:
  obtains w where "reachable (fresh_queue Debug 1) (q_step Debug) w" "few_moves (unat (1::usize)) w"
    "history w = its_history" "\<forall>t. at_point w t = Q_Idle"
proof -
  have run: "map_option (\<lambda>w. (tail_moves w, history w, map (at_point w) [0, 1, 2]))
      (schedule (q_task Debug) to_the_end start_world) = Some (2, its_history, [Q_Idle, Q_Idle, Q_Idle])"
    by code_simp
  obtain w :: "nat queue_world" where w: "reachable (fresh_queue Debug 1) (q_step Debug) w"
    "(tail_moves w, history w, map (at_point w) [0, 1, 2]) = (2, its_history, [Q_Idle, Q_Idle, Q_Idle])"
    "schedule (q_task Debug) to_the_end start_world = Some w"
    by (rule schedule_world [OF run])
  have "(\<lambda>v v'. \<forall>t > 2. at_point v' t = at_point v t)\<^sup>*\<^sup>* start_world w"
  proof (rule schedule_steps [OF w(3)])
    have "\<forall>d \<in> set to_the_end. fst d \<le> 2" by code_simp
    then show "\<forall>t > 2. at_point v' t = at_point v t" if "d \<in> set to_the_end" "q_task Debug d v = Some v'" for d v v'
      using that by (cases d) (fastforce simp: q_task_def q_move_def split: q_choice.splits q_point.splits prod.splits)
  qed
  then have "\<forall>t > 2. at_point w t = at_point start_world t"
    by (induction rule: rtranclp_induct) auto
  then have "at_point w t = Q_Idle" if "t > 2" for t using that by (simp add: start_world_def)
  moreover have "at_point w t = Q_Idle" if "t \<in> {0, 1, 2}" for t using that w(2) by auto
  moreover have "t \<in> {0, 1, 2} \<or> t > 2" for t :: nat by auto
  ultimately have "at_point w t = Q_Idle" for t by blast
  with that w(1,2) show ?thesis by (simp add: few_moves_def)
qed

theorem queue_is_linearizable_witness:
  "\<exists>s. reachable (idle_queue 1) (atomic_step 1) s \<and> events s = its_history"
proof -
  obtain w :: "nat queue_world" where w: "reachable (fresh_queue Debug 1) (q_step Debug) w" "few_moves (unat (1::usize)) w" "history w = its_history"
    by (rule to_the_end_world)
  from queue_is_linearizable [OF w(1,2)] w(3) show ?thesis by simp
qed

theorem queue_calls_fault_only_by_spinning_witness:
  "\<exists>w :: nat queue_world. history w = its_history \<and> {t. \<exists>e. at_point w t = Halted e \<and> e \<noteq> Overflow} = {}"
proof -
  obtain w :: "nat queue_world" where w: "reachable (fresh_queue Debug 1) (q_step Debug) w" "few_moves (unat (1::usize)) w" "history w = its_history"
    by (rule to_the_end_world)
  from queue_calls_fault_only_by_spinning [OF w(1,2)] w(3) show ?thesis by auto
qed

theorem queue_at_rest_witness:
  "\<exists>(w :: nat queue_world) l xs. history w = its_history \<and> holds (shared w) 1 xs \<and> entered l = left l @ xs \<and>
     (\<forall>t. events_of t its_history = session t l)"
proof -
  obtain w :: "nat queue_world" where w: "reachable (fresh_queue Debug 1) (q_step Debug) w" "few_moves (unat (1::usize)) w"
    "history w = its_history" "\<forall>t. at_point w t = Q_Idle"
    by (rule to_the_end_world)
  from queue_at_rest [OF w(1,2,4)] w(3) show ?thesis by auto
qed

end
