(* ===== verification/Queue_Observers.thy ===== *)
theory Queue_Observers
  imports Queue_Linearizable
begin

text \<open>
  \<open>is_empty\<close>, \<open>is_full\<close> and \<open>len\<close> while other threads run: they load the head and the tail one after the
  other, so the words they compare are those of different moments. An observer's cells
  find what the head and the tail hold in the worlds of a run.
\<close>

section \<open>The queue keeps its shape\<close>

lemma accesses_frame:
  "one_lap (snd (load_head q)) = one_lap q" "one_lap (snd (load_tail q)) = one_lap q" "one_lap (snd (load_stamp i q)) = one_lap q"
  "one_lap (write_value i v q) = one_lap q" "one_lap (store_stamp i st q) = one_lap q"
  "length (buffer (snd (load_head q))) = length (buffer q)" "length (buffer (snd (load_tail q))) = length (buffer q)"
  "length (buffer (snd (load_stamp i q))) = length (buffer q)"
  "length (buffer (write_value i v q)) = length (buffer q)" "length (buffer (store_stamp i st q)) = length (buffer q)"
  by (simp_all add: load_head_def load_tail_def load_stamp_def write_value_def store_stamp_def upd_slot_def split_beta)

lemma access_keeps_shape:
  "one_lap (snd (q_access pr p q)) = one_lap q \<and> length (buffer (snd (q_access pr p q))) = length (buffer q)"
  by (cases p) (simp_all add: accesses_frame Let_def split_beta split: sum.split push_kind.split)

lemma step_keeps_shape:
  assumes "q_step pr w w'"
  shows "one_lap (shared w') = one_lap (shared w)" "length (buffer (shared w')) = length (buffer (shared w))"
proof -
  obtain t ch where d: "q_task pr (t, ch) w = Some w'" using assms by (auto elim: q_step.cases)
  have "one_lap (shared (q_move pr sp t w)) = one_lap (shared w) \<and> length (buffer (shared (q_move pr sp t w))) = length (buffer (shared w))" for sp
    using access_keeps_shape [of pr "at_point w t" "stirred sp (shared w)"]
    by (auto simp: q_move_def q_acts_def stilled_def stirred_def split: prod.split)
  with d show "one_lap (shared w') = one_lap (shared w)" "length (buffer (shared w')) = length (buffer (shared w))"
    by (auto simp: q_task_def simp del: if_split split: q_choice.splits q_point.splits)
qed

lemma steps_keep:
  assumes "(q_step pr)\<^sup>*\<^sup>* w w'"
  shows "one_lap (shared w') = one_lap (shared w)" "length (buffer (shared w')) = length (buffer (shared w))"
    "tail_moves w \<le> tail_moves w'"
  using assms by (induction rule: rtranclp_induct) (auto dest: step_keeps_shape tail_moves_on)

section \<open>An observer's view\<close>

text \<open>A cell whose accesses find these words, one after the other.\<close>

definition passing :: "usize list \<Rightarrow> usize acell" where
  "passing vs = \<lparr>cval = 0, cenv = map (\<lambda>v. (Some v, False)) vs, cown = []\<rparr>"

definition watched :: "usize list \<Rightarrow> usize list \<Rightarrow> 'a array_queue \<Rightarrow> 'a array_queue" where
  "watched hs ts q = q\<lparr>head := passing hs, tail := passing ts\<rparr>"

definition head_in :: "'a queue_world \<Rightarrow> usize" where
  "head_in w = cval (head (shared w))"

definition tail_in :: "'a queue_world \<Rightarrow> usize" where
  "tail_in w = cval (tail (shared w))"

lemma watched_loads:
  "fst (load_head (watched (h # hs) ts q)) = h" "fst (load_tail (watched hs (t # ts) q)) = t"
  "fst (is_empty (watched [h] [t] q)) \<longleftrightarrow> t = h" "fst (is_full (watched [h] [t] q)) \<longleftrightarrow> h + one_lap q = t"
  "\<exists>q'. len_pass pr (watched [h] [t, t'] q) =
    (if t' = t then
       (case deconstruct pr q h of Inl e \<Rightarrow> Leave (Inl e, q') | Inr (head_idx, _) \<Rightarrow>
        (case deconstruct pr q t of Inl e \<Rightarrow> Leave (Inl e, q') | Inr (tail_idx, _) \<Rightarrow>
           Leave (queue_size pr (capacity q) h head_idx t tail_idx, q')))
     else Again q')"
  by (auto simp: watched_def passing_def load_head_def load_tail_def load_def arrive_def is_empty_def is_full_def
      len_pass_def deconstruct_def capacity_def split: sum.split)

text \<open>A \<open>force_push\<close> is in progress that has moved the head and not yet the tail.\<close>

fun halfway :: "'a q_point \<Rightarrow> bool" where
  "halfway (Force_Tail v tv nt i) = True"
| "halfway _ = False"

definition forcing :: "'a queue_world \<Rightarrow> bool" where
  "forcing w \<longleftrightarrow> (\<exists>t. halfway (at_point w t))"

lemma forcing_end:
  assumes coh: "coherent pr k n g (shared w) (at_point w) phs"
  shows "end_pos g = tl_pos g + of_bool (forcing w)"
proof -
  note m = mem_okD(9,10) [OF coherentD(1) [OF coh]]
  have "end_pos g = Suc (tl_pos g)" if "forcing w"
  proof -
    from that obtain t where "halfway (at_point w t)" by (auto simp: forcing_def)
    with coherentD(2) [OF coh, of t] m show ?thesis by (cases "at_point w t") (auto simp: writing_def)
  qed
  moreover have "forcing w" if e: "end_pos g = Suc (tl_pos g)"
  proof -
    obtain t where "claims n g (at_point w) t = Some (tl_pos g)" using coherentD(5) [OF coh e] by blast
    with coherentD(2) [OF coh, of t] e have "halfway (at_point w t)"
      by (cases "at_point w t") (auto simp: claims_def reading_def)
    then show ?thesis by (auto simp: forcing_def)
  qed
  ultimately show ?thesis using m by (cases "forcing w") force+
qed

text \<open>The words of a world are the stamps of positions, which tell the length of the list.\<close>

lemma world_positions:
  assumes "glue_queue pr n w s" "few_moves n w"
  obtains k H where "shape k n (shared w)" "head_in w = enc k n H" "tail_in w = enc k n (tail_moves w)"
    "length (items s) = tail_moves w - H + of_bool (forcing w)" "H \<le> tail_moves w"
    "tail_moves w + of_bool (forcing w) \<le> H + n" "tail_moves w + 2 * n + 1 < turns k n" "events s = history w"
proof -
  obtain k g where g: "coherent pr k n g (shared w) (at_point w) (phases s)" "items s = contents g" "events s = history w"
    "tail_moves w = tl_pos g" "2 ^ 63 \<le> turns k n"
    using assms(1) by (auto simp: glue_queue_def)
  note m = mem_okD [OF coherentD(1) [OF g(1)]] and e = forcing_end [OF g(1)]
  show ?thesis
    by (rule that [of k "hd_pos g"]) (use g m e in \<open>simp_all add: head_in_def tail_in_def new_cell_def contents_def\<close>)
qed

lemma lap_power: "lap_ok k n \<Longrightarrow> lap_ok k' n \<Longrightarrow> (2 :: usize) ^ k = 2 ^ k' \<Longrightarrow> k = k'"
proof -
  assume k: "lap_ok k n" "lap_ok k' n" and eq: "(2 :: usize) ^ k = 2 ^ k'"
  have "(2::nat) ^ j < 2 ^ 64" if "j < 64" for j using that by (intro power_strict_increasing) simp_all
  then have "unat ((2 :: usize) ^ j) = 2 ^ j" if "j < 64" for j
    using that unat_of_nat [of "2 ^ j", where 'a = 64] by simp
  with eq lap_okD(3) [OF k(1)] lap_okD(3) [OF k(2)] have "(2::nat) ^ k = 2 ^ k'" by metis
  then show "k = k'" by simp
qed

text \<open>Two moments of a run, and the list at them.\<close>

lemma bounded_run:
  assumes "(q_step pr)\<^sup>*\<^sup>* w v" "few_moves (unat C) v"
  shows "(bounded_step pr C)\<^sup>*\<^sup>* w v"
  using assms
proof (induction rule: converse_rtranclp_induct)
  case (step w w')
  from step.IH [OF step.prems] have run: "(bounded_step pr C)\<^sup>*\<^sup>* w' v" .
  have "few_moves (unat C) w'" using steps_keep(3) [OF step.hyps(2)] step.prems by (simp add: few_moves_def)
  with step.hyps(1) have "bounded_step pr C w w'" by (simp add: bounded_step_def)
  with run show ?case by simp
qed simp

lemma run_lists:
  assumes "reachable (fresh_queue pr C) (q_step pr) w" "(q_step pr)\<^sup>*\<^sup>* w v" "few_moves (unat C) v"
  obtains s s' where "reachable (idle_queue (unat C)) (atomic_step (unat C)) s" "(atomic_step (unat C))\<^sup>*\<^sup>* s s'"
    "glue_queue pr (unat C) w s" "glue_queue pr (unat C) v s'"
proof -
  have "few_moves (unat C) w" using steps_keep(3) [OF assms(2)] assms(3) by (simp add: few_moves_def)
  from threads.sim_reachable [OF reachable_bounded [OF assms(1) this]] obtain s where
    s: "reachable (idle_queue (unat C)) (atomic_step (unat C)) s" "glue_queue pr (unat C) w s" by blast
  from threads.sim_steps [OF bounded_run [OF assms(2,3)] s(2) atomic.inv_reachable [OF s(1)]] that s show ?thesis by blast
qed

lemma run_positions:
  assumes "glue_queue pr n w s" "glue_queue pr n v s'" "(q_step pr)\<^sup>*\<^sup>* w v" "few_moves n v"
  obtains k H H' where "shape k n (shared w)" "head_in w = enc k n H" "tail_in w = enc k n (tail_moves w)"
    "head_in v = enc k n H'" "tail_in v = enc k n (tail_moves v)"
    "length (items s) = tail_moves w - H + of_bool (forcing w)" "H \<le> tail_moves w"
    "length (items s') = tail_moves v - H' + of_bool (forcing v)" "H' \<le> tail_moves v"
    "tail_moves v + of_bool (forcing v) \<le> H' + n" "tail_moves w \<le> tail_moves v"
    "inj_on (enc k n) {..tail_moves v + n}"
proof -
  have le: "tail_moves w \<le> tail_moves v" by (rule steps_keep [OF assms(3)])
  with assms(4) have few: "few_moves n w" by (simp add: few_moves_def)
  obtain k H where p: "shape k n (shared w)" "head_in w = enc k n H" "tail_in w = enc k n (tail_moves w)"
    "length (items s) = tail_moves w - H + of_bool (forcing w)" "H \<le> tail_moves w"
    by (rule world_positions [OF assms(1) few])
  obtain k' H' where p': "shape k' n (shared v)" "head_in v = enc k' n H'" "tail_in v = enc k' n (tail_moves v)"
    "length (items s') = tail_moves v - H' + of_bool (forcing v)" "H' \<le> tail_moves v"
    "tail_moves v + of_bool (forcing v) \<le> H' + n" "tail_moves v + 2 * n + 1 < turns k' n"
    by (rule world_positions [OF assms(2,4)])
  have k: "k' = k"
    by (rule lap_power [of _ n]) (use p(1) p'(1) steps_keep(1) [OF assms(3)] in \<open>simp_all add: shape_def\<close>)
  have "a = b" if "enc k n a = enc k n b" "a \<le> tail_moves v + n" "b \<le> tail_moves v + n" for a b
    by (rule enc_inj_turns [OF _ that(1)]) (use that(2,3) p(1) p'(7) in \<open>simp_all add: k shape_def\<close>)
  then have "inj_on (enc k n) {..tail_moves v + n}" by (intro inj_onI) simp
  with that p p'(2-6) le show ?thesis unfolding k by blast
qed

lemma same_tail:
  assumes "glue_queue pr n w s" "glue_queue pr n v s'" "(q_step pr)\<^sup>*\<^sup>* w v" "few_moves n v"
  shows "tail_in v = tail_in w \<longleftrightarrow> tail_moves v = tail_moves w"
proof (rule run_positions [OF assms])
  fix k assume "tail_in w = enc k n (tail_moves w)" "tail_in v = enc k n (tail_moves v)" "tail_moves w \<le> tail_moves v"
    "inj_on (enc k n) {..tail_moves v + n}"
  then show ?thesis using inj_on_eq_iff [of "enc k n" "{..tail_moves v + n}" "tail_moves v" "tail_moves w"] by simp
qed

text \<open>Each observer, from the words it finds at two moments.\<close>

lemma full_tells:
  assumes "glue_queue pr n w s" "glue_queue pr n v s'" "(q_step pr)\<^sup>*\<^sup>* w v" "few_moves n v"
  shows "fst (is_full (watched [head_in v] [tail_in w] (shared w))) \<longleftrightarrow>
    tail_in v = tail_in w \<and> length (items s') = n \<and> \<not> forcing v"
proof -
  obtain k H H' where p: "shape k n (shared w)" "head_in w = enc k n H" "tail_in w = enc k n (tail_moves w)"
    "head_in v = enc k n H'" "tail_in v = enc k n (tail_moves v)"
    "length (items s) = tail_moves w - H + of_bool (forcing w)" "H \<le> tail_moves w"
    "length (items s') = tail_moves v - H' + of_bool (forcing v)" "H' \<le> tail_moves v"
    "tail_moves v + of_bool (forcing v) \<le> H' + n" "tail_moves w \<le> tail_moves v"
    and inj: "inj_on (enc k n) {..tail_moves v + n}"
    by (rule run_positions [OF assms])
  have lap: "lap_ok k n" "one_lap (shared w) = 2 ^ k" using p(1) by (simp_all add: shape_def)
  have "fst (is_full (watched [head_in v] [tail_in w] (shared w))) \<longleftrightarrow> H' + n = tail_moves w"
    using inj_on_eq_iff [OF inj, of "H' + n" "tail_moves w"] p(9,11) by (simp add: watched_loads lap(2) p(3,4) enc_add_lap [OF lap(1)])
  moreover note same_tail [OF assms]
  ultimately show ?thesis using p(8,9,10,11) by (cases "forcing v") auto
qed

lemma empty_tells:
  assumes "glue_queue pr n w s" "glue_queue pr n v s'" "(q_step pr)\<^sup>*\<^sup>* w v" "few_moves n v"
  shows "fst (is_empty (watched [head_in w] [tail_in v] (shared w))) \<longleftrightarrow>
    tail_in v = tail_in w \<and> length (items s) = of_bool (forcing w)"
proof -
  obtain k H H' where p: "shape k n (shared w)" "head_in w = enc k n H" "tail_in w = enc k n (tail_moves w)"
    "head_in v = enc k n H'" "tail_in v = enc k n (tail_moves v)"
    "length (items s) = tail_moves w - H + of_bool (forcing w)" "H \<le> tail_moves w"
    "length (items s') = tail_moves v - H' + of_bool (forcing v)" "H' \<le> tail_moves v"
    "tail_moves v + of_bool (forcing v) \<le> H' + n" "tail_moves w \<le> tail_moves v"
    and inj: "inj_on (enc k n) {..tail_moves v + n}"
    by (rule run_positions [OF assms])
  have "fst (is_empty (watched [head_in w] [tail_in v] (shared w))) \<longleftrightarrow> tail_moves v = H"
    using inj_on_eq_iff [OF inj, of "tail_moves v" H] p(7,11) by (simp add: watched_loads p(2,5))
  moreover note same_tail [OF assms]
  ultimately show ?thesis using p(6,7,11) by auto
qed

lemma len_tells:
  assumes "glue_queue pr n w s" "glue_queue pr n v s'" "(q_step pr)\<^sup>*\<^sup>* w v" "few_moves n v" "tail_in v = tail_in w"
  shows "\<exists>m q'. len_pass pr (watched [head_in v] [tail_in w, tail_in w] (shared w)) = Leave (Inr (word_of_nat m), q') \<and>
    m \<le> n \<and> length (items s') = m + of_bool (forcing v)"
proof -
  obtain k H H' where p: "shape k n (shared w)" "head_in w = enc k n H" "tail_in w = enc k n (tail_moves w)"
    "head_in v = enc k n H'" "tail_in v = enc k n (tail_moves v)"
    "length (items s) = tail_moves w - H + of_bool (forcing w)" "H \<le> tail_moves w"
    "length (items s') = tail_moves v - H' + of_bool (forcing v)" "H' \<le> tail_moves v"
    "tail_moves v + of_bool (forcing v) \<le> H' + n" "tail_moves w \<le> tail_moves v"
    and inj: "inj_on (enc k n) {..tail_moves v + n}"
    by (rule run_positions [OF assms(1-4)])
  define m where "m = tail_moves v - H'"
  have T: "tail_moves v = tail_moves w" using same_tail [OF assms(1-4)] assms(5) by simp
  have m: "m \<le> n" "tail_in w = enc k n (H' + m)" "length (items s') = m + of_bool (forcing v)"
    using p(3,8,9,10) T by (auto simp: m_def)
  obtain q' where "len_pass pr (watched [head_in v] [tail_in w, tail_in w] (shared w)) = Leave (Inr (word_of_nat m), q')"
    using watched_loads(5) [of pr "head_in v" "tail_in w" "tail_in w" "shared w"]
    by (auto simp: p(4) m(2) deconstruct_enc [OF p(1)] queue_size_window [OF p(1) m(1)])
  with m(1,3) show ?thesis by blast
qed

text \<open>C27: what is_full, is_empty and len report while other threads run, in both directions. The first two load one end and then
  the other, len the tail, the head and the tail again. is_full returns true exactly if the tail has not moved between its loads and,
  when it loaded the head, the list of the linearization was full and no force_push had moved the head and not yet the tail; is_empty
  returns true exactly if the tail has not moved and the list had, when it loaded the head, no element but the one that
  such a force_push is pushing; and a pass of len ends exactly if it finds the tail unmoved, and then returns the number of elements when
  it loaded the head, without the one that such a force_push is pushing.\<close>

theorem observers_tell_a_moment:
  fixes w\<^sub>1 w\<^sub>2 w\<^sub>3 :: "'a queue_world"
  assumes run: "reachable (fresh_queue pr C) (q_step pr) w\<^sub>1" "(q_step pr)\<^sup>*\<^sup>* w\<^sub>1 w\<^sub>2" "(q_step pr)\<^sup>*\<^sup>* w\<^sub>2 w\<^sub>3"
    and few: "few_moves (unat C) w\<^sub>3"
  shows "\<exists>s\<^sub>1 s\<^sub>2. reachable (idle_queue (unat C)) (atomic_step (unat C)) s\<^sub>1 \<and> (atomic_step (unat C))\<^sup>*\<^sup>* s\<^sub>1 s\<^sub>2 \<and>
    events s\<^sub>1 = history w\<^sub>1 \<and> events s\<^sub>2 = history w\<^sub>2 \<and>
    (fst (is_full (watched [head_in w\<^sub>2] [tail_in w\<^sub>1] (shared w\<^sub>1))) \<longleftrightarrow>
       tail_in w\<^sub>2 = tail_in w\<^sub>1 \<and> length (items s\<^sub>2) = unat C \<and> \<not> forcing w\<^sub>2) \<and>
    (fst (is_empty (watched [head_in w\<^sub>1] [tail_in w\<^sub>2] (shared w\<^sub>1))) \<longleftrightarrow>
       tail_in w\<^sub>2 = tail_in w\<^sub>1 \<and> length (items s\<^sub>1) = of_bool (forcing w\<^sub>1)) \<and>
    (if tail_in w\<^sub>3 = tail_in w\<^sub>1 then
       \<exists>m q'. len_pass pr (watched [head_in w\<^sub>2] [tail_in w\<^sub>1, tail_in w\<^sub>3] (shared w\<^sub>1)) = Leave (Inr (word_of_nat m), q') \<and>
         m \<le> unat C \<and> length (items s\<^sub>2) = m + of_bool (forcing w\<^sub>2)
     else \<exists>q'. len_pass pr (watched [head_in w\<^sub>2] [tail_in w\<^sub>1, tail_in w\<^sub>3] (shared w\<^sub>1)) = Again q')"
proof -
  have few2: "few_moves (unat C) w\<^sub>2" using steps_keep(3) [OF run(3)] few by (simp add: few_moves_def)
  obtain s\<^sub>1 s\<^sub>2 :: "'a atomic_queue" where s: "reachable (idle_queue (unat C)) (atomic_step (unat C)) s\<^sub>1" "(atomic_step (unat C))\<^sup>*\<^sup>* s\<^sub>1 s\<^sub>2"
    and g: "glue_queue pr (unat C) w\<^sub>1 s\<^sub>1" "glue_queue pr (unat C) w\<^sub>2 s\<^sub>2"
    by (rule run_lists [OF run(1,2) few2])
  have ev: "events s\<^sub>1 = history w\<^sub>1" "events s\<^sub>2 = history w\<^sub>2" using g by (auto simp: glue_queue_def)
  have "tail_in w\<^sub>2 = tail_in w\<^sub>1" if same: "tail_in w\<^sub>3 = tail_in w\<^sub>1"
  proof -
    have run13: "(q_step pr)\<^sup>*\<^sup>* w\<^sub>1 w\<^sub>3" using run(2,3) by (rule rtranclp_trans)
    obtain t\<^sub>1 t\<^sub>3 :: "'a atomic_queue" where "glue_queue pr (unat C) w\<^sub>1 t\<^sub>1" "glue_queue pr (unat C) w\<^sub>3 t\<^sub>3"
      by (rule run_lists [OF run(1) run13 few])
    from same_tail [OF this run13 few] same have "tail_moves w\<^sub>3 = tail_moves w\<^sub>1" by simp
    with steps_keep(3) [OF run(2)] steps_keep(3) [OF run(3)] have T: "tail_moves w\<^sub>2 = tail_moves w\<^sub>1" by simp
    with same_tail [OF g run(2) few2] show ?thesis by simp
  qed
  then have len: "if tail_in w\<^sub>3 = tail_in w\<^sub>1 then
       \<exists>m q'. len_pass pr (watched [head_in w\<^sub>2] [tail_in w\<^sub>1, tail_in w\<^sub>3] (shared w\<^sub>1)) = Leave (Inr (word_of_nat m), q') \<and>
         m \<le> unat C \<and> length (items s\<^sub>2) = m + of_bool (forcing w\<^sub>2)
     else \<exists>q'. len_pass pr (watched [head_in w\<^sub>2] [tail_in w\<^sub>1, tail_in w\<^sub>3] (shared w\<^sub>1)) = Again q'"
    using len_tells [OF g run(2) few2] watched_loads(5) [of pr "head_in w\<^sub>2" "tail_in w\<^sub>1" "tail_in w\<^sub>3" "shared w\<^sub>1"] by auto
  from s ev full_tells [OF g run(2) few2] empty_tells [OF g run(2) few2] len show ?thesis by blast
qed

text \<open>After the exchange on the head of a \<open>force_push\<close>, a queue of one slot that has held an element all the time: \<open>is_empty\<close> is true
  because of the one element that is being forced in.\<close>

theorem observers_tell_a_moment_witness:
  "\<exists>(w :: nat queue_world) s. history w = [Asks 0 (Push 7), Gets 0 (Pushed (Inr ())), Asks 0 (Force_Push 8)] \<and> forcing w \<and>
     reachable (idle_queue 1) (atomic_step 1) s \<and> events s = history w \<and> length (items s) = 1 \<and>
     fst (is_empty (watched [head_in w] [tail_in w] (shared w)))"
proof -
  have "map_option (\<lambda>w. (tail_moves w, fst (is_empty (watched [head_in w] [tail_in w] (shared w))), halfway (at_point w 0), history w))
      (schedule (q_task Debug) half_forced start_world) =
      Some (1, True, True, [Asks 0 (Push 7), Gets 0 (Pushed (Inr ())), Asks 0 (Force_Push 8)])"
    by code_simp
  then obtain w :: "nat queue_world" where w: "reachable (fresh_queue Debug 1) (q_step Debug) w"
    "(tail_moves w, fst (is_empty (watched [head_in w] [tail_in w] (shared w))), halfway (at_point w 0), history w) =
      (1, True, True, [Asks 0 (Push 7), Gets 0 (Pushed (Inr ())), Asks 0 (Force_Push 8)])"
    by (rule schedule_world)
  then have few: "few_moves (unat (1::usize)) w" by (simp add: few_moves_def)
  have f: "forcing w" using w(2) by (auto simp: forcing_def)
  from observers_tell_a_moment [OF w(1) rtranclp.rtrancl_refl rtranclp.rtrancl_refl few] w(2) f
  obtain s where "reachable (idle_queue 1) (atomic_step 1) s" "events s = history w" "length (items s) = 1" by auto
  with w(2) f show ?thesis by (intro exI [of _ w] exI [of _ s]) simp
qed

end
