(* ===== verification/Loom_Extra.thy ===== *)
theory Loom_Extra
  imports Array_Queue
begin

text \<open>
  The module \<open>loom_extra\<close> of \<open>src/array_queue.rs\<close>: loom's atomics have no \<open>get_mut\<close>, so under
  \<open>cfg(loom)\<close> the queue reads and writes its ends through a guard that copies the value out and stores
  it back when it is dropped. \<open>drop_queue\<close> and \<open>iter_next\<close> model the plain build, where \<open>get_mut\<close> is the
  value itself; the lemmas below show that the guards do to the ends what the plain accesses do, as the
  queue is not shared there.
\<close>

section \<open>The guard\<close>

record atomic_usize_mut_ref =
  src :: "usize acell"
  mut_value :: usize

definition loom_get_mut :: "usize acell \<Rightarrow> atomic_usize_mut_ref" where
  "loom_get_mut a = (let (v, a) = load a in \<lparr>src = a, mut_value = v\<rparr>)"

definition mut_deref :: "atomic_usize_mut_ref \<Rightarrow> usize" where
  "mut_deref r = mut_value r"

definition mut_assign :: "usize \<Rightarrow> atomic_usize_mut_ref \<Rightarrow> atomic_usize_mut_ref" where
  "mut_assign v r = r\<lparr>mut_value := v\<rparr>"

definition mut_eq :: "atomic_usize_mut_ref \<Rightarrow> atomic_usize_mut_ref \<Rightarrow> bool" where
  "mut_eq r r' \<longleftrightarrow> mut_value r = mut_value r'"

definition drop_mut :: "atomic_usize_mut_ref \<Rightarrow> usize acell" where
  "drop_mut r = store (mut_value r) (src r)"

lemmas guard_defs = loom_get_mut_def mut_deref_def mut_assign_def mut_eq_def drop_mut_def

section \<open>What the queue does with it\<close>

text \<open>\<open>*a.get_mut()\<close>, \<open>*a.get_mut() = v\<close> and \<open>a.get_mut() == b.get_mut()\<close>, with the guard dropped at the end.\<close>

definition loom_read :: "usize acell \<Rightarrow> usize \<times> usize acell" where
  "loom_read a = (let r = loom_get_mut a in (mut_deref r, drop_mut r))"

definition loom_write :: "usize \<Rightarrow> usize acell \<Rightarrow> usize acell" where
  "loom_write v a = drop_mut (mut_assign v (loom_get_mut a))"

definition loom_same :: "usize acell \<Rightarrow> usize acell \<Rightarrow> bool \<times> usize acell \<times> usize acell" where
  "loom_same a b = (let r = loom_get_mut a; r' = loom_get_mut b in (mut_eq r r', drop_mut r, drop_mut r'))"

lemma loom_read_unshared:
  assumes "quiet a"
  shows "fst (loom_read a) = cval a" "cval (snd (loom_read a)) = cval a" "quiet (snd (loom_read a))"
  using assms by (auto simp: loom_read_def guard_defs Let_def split_beta quiet_cell)

lemma loom_write_unshared:
  assumes "quiet a"
  shows "cval (loom_write v a) = v" "quiet (loom_write v a)"
  using assms by (auto simp: loom_write_def guard_defs Let_def split_beta quiet_cell)

lemma loom_same_unshared:
  assumes "quiet a" "quiet b"
  shows "fst (loom_same a b) \<longleftrightarrow> cval a = cval b"
    "cval (fst (snd (loom_same a b))) = cval a" "cval (snd (snd (loom_same a b))) = cval b"
  using assms by (auto simp: loom_same_def guard_defs Let_def split_beta quiet_cell)

text \<open>
  On a shared cell the guard would lose the writes of other threads: this one stores back the value it
  has read, over whatever is there when it is dropped.
\<close>

lemma guard_overwrites:
  "cval (snd (loom_read (new_cell v\<lparr>cenv := [(None, False), (Some w, False)]\<rparr>))) = v"
  by (simp add: loom_read_def guard_defs new_cell_def load_def store_def arrive_def put_def)

end
