(* ===== verification/Waiter.thy ===== *)
theory Waiter
  imports Fifo_Spec
begin

text \<open>
  \<open>src/waiter.rs\<close>: a waiter is a waker together with a raw pointer to the
  \<open>registered\<close> flag inside the future it belongs to. The pointer is modelled as an address
  into a map of live flags, so that a wake through the pointer of a future that no longer exists
  is the use of freed memory it is in the code. A \<open>Waker\<close> is the identity of the task it
  wakes; waking it appends to the list of wake-ups the executor has received.
\<close>

section \<open>Memory\<close>

record memory =
  flags :: "nat \<rightharpoonup> bool"   \<comment> \<open>the \<open>registered\<close> flags of the futures that are alive\<close>
  woken :: "nat list"         \<comment> \<open>the wake-ups so far, oldest first\<close>

definition wake_task :: "nat \<Rightarrow> memory \<Rightarrow> memory" where
  "wake_task t m = m\<lparr>woken := woken m @ [t]\<rparr>"

section \<open>Waiter\<close>

record waiter =
  waker :: nat
  registered :: nat

definition new_waiter :: "nat \<Rightarrow> nat \<Rightarrow> waiter" where
  "new_waiter wk addr = \<lparr>waker = wk, registered = addr\<rparr>"

definition set_registered :: "waiter \<Rightarrow> bool \<Rightarrow> memory \<Rightarrow> fault + memory" where
  "set_registered w is_registered m =
     (case flags m (registered w) of
        None \<Rightarrow> Inl Undefined
      | Some _ \<Rightarrow> Inr (m\<lparr>flags := (flags m)(registered w \<mapsto> is_registered)\<rparr>))"

definition wake :: "waiter \<Rightarrow> memory \<Rightarrow> fault + memory" where
  "wake w m = (case set_registered w False m of Inl e \<Rightarrow> Inl e | Inr m \<Rightarrow> Inr (wake_task (waker w) m))"

definition inner_wake :: "waiter \<Rightarrow> memory \<Rightarrow> memory" where
  "inner_wake w m = wake_task (waker w) m"

section \<open>Waking many\<close>

definition alive :: "memory \<Rightarrow> waiter \<Rightarrow> bool" where
  "alive m w \<longleftrightarrow> flags m (registered w) \<noteq> None"

text \<open>The memory after all of \<open>ws\<close> have been woken.\<close>

definition all_woken :: "waiter list \<Rightarrow> memory \<Rightarrow> memory" where
  "all_woken ws m = m\<lparr>flags := (\<lambda>a. if a \<in> registered ` set ws then Some False else flags m a),
                      woken := woken m @ map waker ws\<rparr>"

lemma wake_alive: "alive m w \<Longrightarrow> wake w m = Inr (all_woken [w] m)"
  by (auto simp: alive_def wake_def set_registered_def all_woken_def wake_task_def fun_eq_iff
      split: option.split)

lemma wake_dangling: "\<not> alive m w \<Longrightarrow> wake w m = Inl Undefined"
  by (simp add: alive_def wake_def set_registered_def)

lemma all_woken_Nil [simp]: "all_woken [] m = m"
  by (simp add: all_woken_def)

lemma all_woken_Cons: "all_woken ws (all_woken [w] m) = all_woken (w # ws) m"
  by (auto simp: all_woken_def fun_eq_iff)

lemma alive_all_woken: "alive m w \<Longrightarrow> alive (all_woken ws m) w"
  by (auto simp: alive_def all_woken_def)

lemma alive_all_woken_iff: "alive m v \<Longrightarrow> alive (all_woken [v] m) w \<longleftrightarrow> alive m w"
  by (auto simp: alive_def all_woken_def)

lemma each_wake: "\<forall>w \<in> set ws. alive m w \<Longrightarrow> each wake ws m = Inr (all_woken ws m)"
  by (induction ws arbitrary: m) (simp_all add: wake_alive alive_all_woken all_woken_Cons)

lemma each_wake_dangling: "\<exists>w \<in> set ws. \<not> alive m w \<Longrightarrow> each wake ws m = Inl Undefined"
proof (induction ws arbitrary: m)
  case (Cons w ws)
  show ?case
  proof (cases "alive m w")
    case True
    with Cons show ?thesis by (auto simp: wake_alive alive_all_woken_iff)
  qed (simp add: wake_dangling)
qed simp

end
