(* ===== verification/Ref_Count.thy ===== *)
theory Ref_Count
  imports Ref_State Queue_Fifo Waiter
begin

text \<open>
  \<open>RefCount\<close> of \<open>src/lib.rs\<close> with the update macros of \<open>src/macros.rs\<close>: the
  count word, the waiter queue, and the operations that need no future. Each operation makes
  the accesses of the code in its order. The section on interference is about any environment
  of the count cell, so about a call running among other threads; the later sections are about
  calls nobody disturbs.
\<close>

section \<open>Data\<close>

record ref_count =
  count :: "u32 acell"
  waiter_queue :: "waiter array_queue"

text \<open>The handles; the source's \<open>src\<close> pointer is the one \<open>RefCount\<close> of the model.\<close>

datatype ref_handle = Ref
datatype exclusive_handle = ExclusiveRef

definition new_ref_count :: "profile \<Rightarrow> usize \<Rightarrow> fault + ref_count" where
  "new_ref_count pr max_waiting =
     (case new_queue pr max_waiting of Inl e \<Rightarrow> Inl e | Inr q \<Rightarrow>
        Inr \<lparr>count = new_cell 0, waiter_queue = q\<rparr>)"

section \<open>Observers\<close>

definition load_count :: "ref_count \<Rightarrow> u32 \<times> ref_count" where
  "load_count rc = (let (v, c) = load (count rc) in (v, rc\<lparr>count := c\<rparr>))"

definition ref_total :: "profile \<Rightarrow> ref_count \<Rightarrow> (fault + u32) \<times> ref_count" where
  "ref_total pr rc =
     (let (state, rc) = load_count rc in
      (checked_add pr (standard_ref_count state) (block_state state), rc))"

definition no_refs :: "profile \<Rightarrow> ref_count \<Rightarrow> (fault + bool) \<times> ref_count" where
  "no_refs pr rc = (let (n, rc) = ref_total pr rc in (map_sum id (\<lambda>n. n = 0) n, rc))"

definition std_ref_count :: "ref_count \<Rightarrow> u32 \<times> ref_count" where
  "std_ref_count rc = (let (state, rc) = load_count rc in (standard_ref_count state, rc))"

definition no_standard_refs :: "ref_count \<Rightarrow> bool \<times> ref_count" where
  "no_standard_refs rc = (let (n, rc) = std_ref_count rc in (n = 0, rc))"

definition raw_state :: "ref_count \<Rightarrow> u32 \<times> ref_count" where
  "raw_state rc = (let (state, rc) = load_count rc in (block_state state, rc))"

definition is_blocked :: "ref_count \<Rightarrow> bool \<times> ref_count" where
  "is_blocked rc = (let (s, rc) = raw_state rc in (s = 1, rc))"

definition is_allowed :: "ref_count \<Rightarrow> bool \<times> ref_count" where
  "is_allowed rc = (let (s, rc) = raw_state rc in (s = 0, rc))"

definition state :: "ref_count \<Rightarrow> (fault + ref_state) \<times> ref_count" where
  "state rc = (let (s, rc) = raw_state rc in (from_raw s, rc))"

section \<open>The update macros\<close>

text \<open>
  \<open>weak_try_update_ref_count!\<close>: one weak exchange. The \<open>ok\<close> branch returns from the
  caller; the \<open>incr\<close> and \<open>block\<close> arms refresh the expected and the next value from what
  the exchange found, and the plain arm with an empty error branch keeps them.
\<close>

datatype attempt = Done | Retry u32 u32

definition try_block :: "u32 \<Rightarrow> u32 \<Rightarrow> u32 acell \<Rightarrow> attempt \<times> u32 acell" where
  "try_block cur next c =
     (case compare_exchange_weak cur next c of (r, c) \<Rightarrow>
      (case r of
         Inr _ \<Rightarrow> (Done, c)
       | Inl s \<Rightarrow> (let cur = s AND REF_COUNT_MASK; next = cur OR REF_BLOCKED in (Retry cur next, c))))"

definition try_incr :: "profile \<Rightarrow> u32 \<Rightarrow> u32 \<Rightarrow> u32 acell \<Rightarrow> (fault + attempt) \<times> u32 acell" where
  "try_incr pr cur next c =
     (case compare_exchange_weak cur next c of (r, c) \<Rightarrow>
      (case r of
         Inr _ \<Rightarrow> (Inr Done, c)
       | Inl s \<Rightarrow>
           (let cur = s AND REF_COUNT_MASK in
            (map_sum id (\<lambda>next. Retry cur next) (checked_add pr cur REF_INCR), c))))"

definition try_last :: "u32 \<Rightarrow> u32 \<Rightarrow> u32 acell \<Rightarrow> attempt \<times> u32 acell" where
  "try_last cur next c =
     (case compare_exchange_weak cur next c of (r, c) \<Rightarrow>
      (case r of Inr _ \<Rightarrow> (Done, c) | Inl _ \<Rightarrow> (Retry cur next, c)))"

text \<open>\<open>many_weak_try_incr_refs!\<close>: three refreshing exchanges and a last one.\<close>

definition many_weak_try_incr_refs ::
  "profile \<Rightarrow> u32 \<Rightarrow> u32 \<Rightarrow> u32 acell \<Rightarrow> (fault + attempt) \<times> u32 acell" where
  "many_weak_try_incr_refs pr cur next c =
     (case try_incr pr cur next c of (Inr (Retry cur next), c) \<Rightarrow>
        (case try_incr pr cur next c of (Inr (Retry cur next), c) \<Rightarrow>
           (case try_incr pr cur next c of (Inr (Retry cur next), c) \<Rightarrow>
              (let (a, c) = try_last cur next c in (Inr a, c))
            | r \<Rightarrow> r)
         | r \<Rightarrow> r)
      | r \<Rightarrow> r)"

section \<open>Blocking and unblocking\<close>

definition try_block_cell :: "u32 acell \<Rightarrow> bool \<times> u32 acell" where
  "try_block_cell c =
     (let (s, c) = load c;
          cur = s AND REF_COUNT_MASK;
          next = cur OR REF_BLOCKED in
      case try_block cur next c of (Done, c) \<Rightarrow> (True, c) | (Retry cur next, c) \<Rightarrow>
      (case try_block cur next c of (Done, c) \<Rightarrow> (True, c) | (Retry cur next, c) \<Rightarrow>
       (case try_block cur next c of (Done, c) \<Rightarrow> (True, c) | (Retry cur next, c) \<Rightarrow>
        (case try_last cur next c of (Done, c) \<Rightarrow> (True, c) | (Retry _ _, c) \<Rightarrow> (False, c)))))"

definition try_block_refs :: "ref_count \<Rightarrow> bool \<times> ref_count" where
  "try_block_refs rc = (let (ok, c) = try_block_cell (count rc) in (ok, rc\<lparr>count := c\<rparr>))"

type_synonym 'r call = "((fault + 'r) \<times> ref_count \<times> memory) option"

text \<open>
  \<open>unblock_refs\<close>: store \<open>REF_ALLOWED\<close>, then wake the first waiter (or spin a little if
  there is none), then all the others.
\<close>

definition unblock_refs :: "profile \<Rightarrow> ref_count \<Rightarrow> memory \<Rightarrow> unit call" where
  "unblock_refs pr rc m =
     (let rc = rc\<lparr>count := store REF_ALLOWED (count rc)\<rparr> in
      case pop pr (waiter_queue rc) of None \<Rightarrow> None | Some (r, q) \<Rightarrow>
      (let first = (case r of Inl e \<Rightarrow> Inl e | Inr None \<Rightarrow> Inr m | Inr (Some w) \<Rightarrow> wake w m) in
       case first of
         Inl e \<Rightarrow> Some (Inl e, rc\<lparr>waiter_queue := q\<rparr>, m)
       | Inr m \<Rightarrow>
           map_option (\<lambda>(r, q, m). (r, rc\<lparr>waiter_queue := q\<rparr>, m)) (drain (pop pr) wake q m)))"

section \<open>Exclusive references\<close>

text \<open>The \<open>for i in 0..5\<close> of \<open>try_get_exclusive_ref\<close>, with \<open>i\<close> rounds left.\<close>

fun await_no_refs :: "nat \<Rightarrow> ref_count \<Rightarrow> bool \<times> ref_count" where
  "await_no_refs 0 rc = (False, rc)"
| "await_no_refs (Suc i) rc =
     (let (free, rc) = no_standard_refs rc in if free then (True, rc) else await_no_refs i rc)"

definition try_get_exclusive_ref :: "profile \<Rightarrow> ref_count \<Rightarrow> memory \<Rightarrow> exclusive_handle option call" where
  "try_get_exclusive_ref pr rc m =
     (let (ok, rc) = try_block_refs rc in
      if ok then
        (let (free, rc) = await_no_refs 5 rc in
         if free then Some (Inr (Some ExclusiveRef), rc, m)
         else map_option (\<lambda>(r, rc, m). (map_sum id (\<lambda>_. None) r, rc, m)) (unblock_refs pr rc m))
      else Some (Inr None, rc, m))"

text \<open>The two loops of \<open>blocking_get_exclusive_ref\<close> share one backoff.\<close>

definition block_pass ::
  "profile \<Rightarrow> backoff \<times> ref_count \<Rightarrow> (backoff \<times> ref_count, (fault + backoff) \<times> ref_count) pass" where
  "block_pass pr vars = (case vars of (bo, rc) \<Rightarrow>
     (let (ok, rc) = try_block_refs rc in
      if ok then Leave (Inr bo, rc)
      else (case snoozed pr bo of Inl e \<Rightarrow> Leave (Inl e, rc) | Inr bo \<Rightarrow> Again (bo, rc))))"

definition quiesce_pass ::
  "profile \<Rightarrow> backoff \<times> ref_count \<Rightarrow> (backoff \<times> ref_count, (fault + backoff) \<times> ref_count) pass" where
  "quiesce_pass pr vars = (case vars of (bo, rc) \<Rightarrow>
     (let (free, rc) = no_standard_refs rc in
      if free then Leave (Inr bo, rc)
      else (case snoozed pr bo of Inl e \<Rightarrow> Leave (Inl e, rc) | Inr bo \<Rightarrow> Again (bo, rc))))"

definition blocking_get_exclusive_ref ::
  "profile \<Rightarrow> ref_count \<Rightarrow> ((fault + exclusive_handle) \<times> ref_count) option" where
  "blocking_get_exclusive_ref pr rc =
     (case run_loop (\<lambda>s. Some (block_pass pr s)) (new_backoff, rc) of
        None \<Rightarrow> None
      | Some (Inl e, rc) \<Rightarrow> Some (Inl e, rc)
      | Some (Inr bo, rc) \<Rightarrow>
          map_option (\<lambda>(r, rc). (map_sum id (\<lambda>_. ExclusiveRef) r, rc))
            (run_loop (\<lambda>s. Some (quiesce_pass pr s)) (bo, rc)))"

section \<open>Standard references\<close>

text \<open>\<open>get_ref\<close> and \<open>try_get_ref\<close> share this: the load, the mask and the exchanges.\<close>

definition try_incr_cell :: "profile \<Rightarrow> u32 acell \<Rightarrow> (fault + bool) \<times> u32 acell" where
  "try_incr_cell pr c =
     (let (s, c) = load c;
          cur = s AND REF_COUNT_MASK in
      case checked_add pr cur REF_INCR of Inl e \<Rightarrow> (Inl e, c) | Inr next \<Rightarrow>
        (let (r, c) = many_weak_try_incr_refs pr cur next c in (map_sum id (\<lambda>a. a = Done) r, c)))"

definition try_get_ref :: "profile \<Rightarrow> ref_count \<Rightarrow> (fault + ref_handle option) \<times> ref_count" where
  "try_get_ref pr rc =
     (let (r, c) = try_incr_cell pr (count rc) in
      (map_sum id (\<lambda>ok. if ok then Some Ref else None) r, rc\<lparr>count := c\<rparr>))"

text \<open>\<open>blocking_get_ref\<close> keeps the expected and the next value across its rounds.\<close>

definition blocking_ref_pass ::
  "profile \<Rightarrow> u32 \<times> u32 \<times> backoff \<times> u32 acell
     \<Rightarrow> (u32 \<times> u32 \<times> backoff \<times> u32 acell, (fault + ref_handle) \<times> u32 acell) pass" where
  "blocking_ref_pass pr vars = (case vars of (cur, next, bo, c) \<Rightarrow>
     (case many_weak_try_incr_refs pr cur next c of (r, c) \<Rightarrow>
      (case r of
         Inl e \<Rightarrow> Leave (Inl e, c)
       | Inr Done \<Rightarrow> Leave (Inr Ref, c)
       | Inr (Retry cur next) \<Rightarrow>
           (case snoozed pr bo of Inl e \<Rightarrow> Leave (Inl e, c) | Inr bo \<Rightarrow> Again (cur, next, bo, c)))))"

definition blocking_get_ref :: "profile \<Rightarrow> ref_count \<Rightarrow> ((fault + ref_handle) \<times> ref_count) option" where
  "blocking_get_ref pr rc =
     (let (s, c) = load (count rc);
          cur = s AND REF_COUNT_MASK in
      case checked_add pr cur REF_INCR of Inl e \<Rightarrow> Some (Inl e, rc\<lparr>count := c\<rparr>) | Inr next \<Rightarrow>
        map_option (\<lambda>(r, c). (r, rc\<lparr>count := c\<rparr>))
          (run_loop (\<lambda>s. Some (blocking_ref_pass pr s)) (cur, next, new_backoff, c)))"

section \<open>Drop\<close>

definition drop_ref :: "ref_handle \<Rightarrow> ref_count \<Rightarrow> ref_count" where
  "drop_ref r rc = rc\<lparr>count := snd (fetch_sub REF_INCR (count rc))\<rparr>"

definition drop_exclusive :: "profile \<Rightarrow> exclusive_handle \<Rightarrow> ref_count \<Rightarrow> memory \<Rightarrow> unit call" where
  "drop_exclusive pr r rc m = unblock_refs pr rc m"

section \<open>Under any interference: what a call writes\<close>

text \<open>
  The pairs of expected and next value the macros work with, and the writes a call can make:
  \<open>block_write\<close> sets the block bit of an unblocked word, \<open>incr_write\<close> adds one reference
  to an unblocked word.
\<close>

definition block_write :: "u32 \<times> u32 \<Rightarrow> bool" where
  "block_write w \<longleftrightarrow> (\<exists>n\<le>MAX_REFS. w = (word_state n False, word_state n True))"

definition incr_write :: "profile \<Rightarrow> u32 \<times> u32 \<Rightarrow> bool" where
  "incr_write pr w \<longleftrightarrow> (\<exists>n\<le>MAX_REFS. (pr = Debug \<longrightarrow> n < MAX_REFS) \<and>
     w = (word_state n False, word_state (Suc n) False))"

lemma masked_word: obtains n where "n \<le> MAX_REFS" "w AND REF_COUNT_MASK = word_state n False"
  by (metis mask_word_state word_cases)

lemma try_block_own:
  assumes "try_block cur next c = (a, c')" "block_write (cur, next)"
  shows "(a = Done \<and> (\<exists>w. block_write w \<and> cown c' = cown c @ [w])) \<or>
    (\<exists>cur' next'. a = Retry cur' next' \<and> block_write (cur', next') \<and> cown c' = cown c)"
proof -
  obtain r c1 where cas: "compare_exchange_weak cur next c = (r, c1)" by fastforce
  obtain n where n: "n \<le> MAX_REFS" "cval c1 AND REF_COUNT_MASK = word_state n False"
    by (rule masked_word)
  from cas show ?thesis
  proof (cases rule: cas_cases)
    case Ok
    with assms cas show ?thesis by (auto simp: try_block_def)
  next
    case Err
    with assms(1) cas n show ?thesis
      by (auto simp: try_block_def Let_def blocked_word_state block_write_def)
  qed
qed

lemma try_last_own:
  assumes "try_last cur next c = (a, c')"
  shows "(a = Done \<and> cown c' = cown c @ [(cur, next)]) \<or> (a = Retry cur next \<and> cown c' = cown c)"
proof -
  obtain r c1 where cas: "compare_exchange_weak cur next c = (r, c1)" by fastforce
  from cas show ?thesis
    by (cases rule: cas_cases) (use assms cas in \<open>auto simp: try_last_def\<close>)
qed

lemma try_incr_own:
  assumes "try_incr pr cur next c = (a, c')" "incr_write pr (cur, next)"
  shows "(a = Inr Done \<and> (\<exists>w. incr_write pr w \<and> cown c' = cown c @ [w])) \<or>
    (\<exists>cur' next'. a = Inr (Retry cur' next') \<and> incr_write pr (cur', next') \<and> cown c' = cown c) \<or>
    (a = Inl Overflow \<and> pr = Debug \<and> cown c' = cown c)"
proof -
  obtain r c1 where cas: "compare_exchange_weak cur next c = (r, c1)" by fastforce
  obtain n where n: "n \<le> MAX_REFS" "cval c1 AND REF_COUNT_MASK = word_state n False"
    by (rule masked_word)
  from cas show ?thesis
  proof (cases rule: cas_cases)
    case Ok
    with assms cas show ?thesis by (auto simp: try_incr_def)
  next
    case Err
    with assms(1) cas n checked_incr [OF n(1), of pr] show ?thesis
      by (auto simp: try_incr_def Let_def incr_word_state incr_write_def split: if_splits)
  qed
qed

text \<open>\<open>try_block_refs\<close>: success is exactly one write, of the block bit; failure is none.\<close>

lemma try_block_cell_own:
  assumes "try_block_cell c = (ok, c')"
  shows "(ok \<and> (\<exists>w. block_write w \<and> cown c' = cown c @ [w])) \<or> (\<not> ok \<and> cown c' = cown c)"
proof -
  obtain s c0 where ld: "load c = (s, c0)" by fastforce
  then have c0: "cown c0 = cown c" using cown_load [of c] by simp
  obtain n where n: "n \<le> MAX_REFS" "s AND REF_COUNT_MASK = word_state n False" by (rule masked_word)
  then have w0: "block_write (word_state n False, word_state n True)" by (auto simp: block_write_def)
  note eq = assms [unfolded try_block_cell_def ld Let_def prod.case n(2) blocked_word_state]
  show ?thesis
    using eq c0 w0
    by (auto split: prod.splits attempt.splits dest!: try_block_own try_last_own simp del: split_paired_Ex)
qed

text \<open>
  The increments: a reference is exactly one increment of an unblocked word, a failure or the
  overflow panic of a debug build is no write at all.
\<close>

lemma many_incr_own:
  assumes "many_weak_try_incr_refs pr cur next c = (r, c')" "incr_write pr (cur, next)"
  shows "(r = Inr Done \<and> (\<exists>w. incr_write pr w \<and> cown c' = cown c @ [w])) \<or>
    (\<exists>cur' next'. r = Inr (Retry cur' next') \<and> incr_write pr (cur', next') \<and> cown c' = cown c) \<or>
    (r = Inl Overflow \<and> pr = Debug \<and> cown c' = cown c)"
  using assms unfolding many_weak_try_incr_refs_def Let_def
  by (auto split: prod.splits attempt.splits sum.splits dest!: try_incr_own try_last_own
      simp del: split_paired_Ex)

lemma first_incr:
  "n \<le> MAX_REFS \<Longrightarrow> checked_add pr (word_state n False) REF_INCR = Inr next \<Longrightarrow>
     incr_write pr (word_state n False, next)"
  by (auto simp: checked_incr incr_write_def incr_word_state split: if_splits)

lemma try_incr_cell_own:
  assumes "try_incr_cell pr c = (r, c')"
  shows "(r = Inr True \<and> (\<exists>w. incr_write pr w \<and> cown c' = cown c @ [w])) \<or>
    (r = Inr False \<and> cown c' = cown c) \<or>
    (r = Inl Overflow \<and> pr = Debug \<and> cown c' = cown c)"
proof -
  obtain s c0 where ld: "load c = (s, c0)" by fastforce
  then have c0: "cown c0 = cown c" using cown_load [of c] by simp
  obtain n where n: "n \<le> MAX_REFS" "s AND REF_COUNT_MASK = word_state n False" by (rule masked_word)
  note eq = assms [unfolded try_incr_cell_def ld Let_def prod.case n(2)]
  show ?thesis
  proof (cases "checked_add pr (word_state n False) REF_INCR")
    case (Inl e)
    with eq c0 checked_incr [OF n(1), of pr] show ?thesis by (auto split: if_splits)
  next
    case (Inr nx)
    with eq c0 first_incr [OF n(1) Inr] show ?thesis
      by (auto split: prod.splits dest!: many_incr_own simp del: split_paired_Ex)
  qed
qed

lemma blocking_get_ref_own:
  assumes "blocking_get_ref pr rc = Some (r, rc')"
  shows "(r = Inr Ref \<and> (\<exists>w. incr_write pr w \<and> cown (count rc') = cown (count rc) @ [w])) \<or>
    (\<exists>e. r = Inl e \<and> pr = Debug \<and> cown (count rc') = cown (count rc))"
proof -
  obtain s c0 where ld: "load (count rc) = (s, c0)" by fastforce
  then have c0: "cown c0 = cown (count rc)" using cown_load [of "count rc"] by simp
  obtain n where n: "n \<le> MAX_REFS" "s AND REF_COUNT_MASK = word_state n False" by (rule masked_word)
  note eq = assms [unfolded blocking_get_ref_def ld Let_def prod.case n(2)]
  show ?thesis
  proof (cases "checked_add pr (word_state n False) REF_INCR")
    case (Inl e)
    with eq c0 checked_incr [OF n(1), of pr] show ?thesis by (auto split: if_splits)
  next
    case (Inr nx)
    obtain c' where run: "run_loop (\<lambda>s. Some (blocking_ref_pass pr s))
        (word_state n False, nx, new_backoff, c0) = Some (r, c')" and rc': "rc' = rc\<lparr>count := c'\<rparr>"
      using eq Inr by auto
    let ?I = "\<lambda>(cur, next, bo, d). incr_write pr (cur, next) \<and> snoozing bo \<and> cown d = cown (count rc)"
    let ?Q = "\<lambda>(r, d). (r = Inr Ref \<and> (\<exists>w. incr_write pr w \<and> cown d = cown (count rc) @ [w])) \<or>
       (\<exists>e. r = Inl e \<and> pr = Debug \<and> cown d = cown (count rc))"
    have "?Q (r, c')"
    proof (rule run_loop_partial [where I = ?I, OF run])
      show "?I (word_state n False, nx, new_backoff, c0)"
        using first_incr [OF n(1) Inr] c0 by (simp add: snoozing_def new_backoff_def)
    next
      fix s s' assume "?I s" "Some (blocking_ref_pass pr s) = Some (Again s')"
      then show "?I s'"
        by (auto simp: blocking_ref_pass_def snoozed_snoozing split: prod.splits sum.splits attempt.splits
            dest!: many_incr_own simp del: split_paired_Ex)
    next
      fix s r assume "?I s" "Some (blocking_ref_pass pr s) = Some (Leave r)"
      then show "?Q r"
        by (auto simp: blocking_ref_pass_def snoozed_result split: prod.splits sum.splits attempt.splits
            dest!: many_incr_own simp del: split_paired_Ex)
    qed
    then show ?thesis by (simp add: rc')
  qed
qed

lemma fetch_sub_own: "\<exists>v. cown (snd (fetch_sub d c)) = cown c @ [(v, v - d)]"
  by (auto simp: fetch_sub_def split_beta)

lemma drop_ref_own: "\<exists>v. cown (count (drop_ref r rc)) = cown (count rc) @ [(v, v - REF_INCR)]"
  using fetch_sub_own by (auto simp: drop_ref_def)

lemma store_own: "\<exists>v. cown (store w c) = cown c @ [(v, w)]"
  by (auto simp: store_def split_beta)

lemma no_standard_refs_own:
  assumes "no_standard_refs rc = (free, rc')"
  shows "cown (count rc') = cown (count rc)" "free \<longleftrightarrow> refs_of (cval (count rc')) = 0"
  using assms cown_load [of "count rc"]
  by (auto simp: no_standard_refs_def std_ref_count_def load_count_def Let_def load_def
      standard_ref_count_eq_0 split: prod.splits)

lemma await_no_refs_own:
  "await_no_refs i rc = (free, rc') \<Longrightarrow>
     cown (count rc') = cown (count rc) \<and> (free \<longrightarrow> refs_of (cval (count rc')) = 0)"
proof (induction i arbitrary: rc)
  case (Suc i)
  then show ?case
    by (auto split: prod.splits if_splits dest: no_standard_refs_own)
qed simp

lemma try_block_refs_own:
  assumes "try_block_refs rc = (ok, rc')"
  shows "(ok \<and> (\<exists>w. block_write w \<and> cown (count rc') = cown (count rc) @ [w])) \<or>
    (\<not> ok \<and> cown (count rc') = cown (count rc))"
  using assms by (auto simp: try_block_refs_def split: prod.splits dest!: try_block_cell_own)

text \<open>
  An exclusive reference is granted by one write of the block bit, and the last thing read
  before it is granted was a word without standard references. Giving up after the bit was set
  is a plain store of \<open>REF_ALLOWED\<close>, whatever the word holds by then.
\<close>

lemma unblock_refs_own:
  assumes "unblock_refs pr rc m = Some (r, rc', m')"
  shows "\<exists>v. cown (count rc') = cown (count rc) @ [(v, REF_ALLOWED)]"
  using assms store_own [of REF_ALLOWED "count rc"]
  by (auto simp: unblock_refs_def Let_def split: option.splits prod.splits sum.splits)

lemma try_get_exclusive_ref_own:
  assumes "try_get_exclusive_ref pr rc m = Some (r, rc', m')"
  shows "(r = Inr (Some ExclusiveRef) \<and> refs_of (cval (count rc')) = 0 \<and>
            (\<exists>w. block_write w \<and> cown (count rc') = cown (count rc) @ [w])) \<or>
    (r = Inr None \<and> cown (count rc') = cown (count rc)) \<or>
    (r \<noteq> Inr (Some ExclusiveRef) \<and>
       (\<exists>w v. block_write w \<and> cown (count rc') = cown (count rc) @ [w, (v, REF_ALLOWED)]))"
proof -
  obtain ok rc1 where blk: "try_block_refs rc = (ok, rc1)" by fastforce
  obtain free rc2 where wait: "await_no_refs 5 rc1 = (free, rc2)" by fastforce
  note own = try_block_refs_own [OF blk] await_no_refs_own [OF wait]
  consider "\<not> ok" | "ok" "free" | "ok" "\<not> free" by blast
  then show ?thesis
  proof cases
    case 1
    with assms own show ?thesis by (simp add: try_get_exclusive_ref_def blk)
  next
    case 2
    with assms have "r = Inr (Some ExclusiveRef)" "rc' = rc2"
      by (simp_all add: try_get_exclusive_ref_def blk wait)
    with own 2 show ?thesis by simp
  next
    case 3
    with assms obtain a where "unblock_refs pr rc2 m = Some (a, rc', m')" "r = map_sum id (\<lambda>_. None) a"
      by (auto simp: try_get_exclusive_ref_def blk wait)
    moreover from this have "r \<noteq> Inr (Some ExclusiveRef)" by (cases a) simp_all
    moreover obtain v where "cown (count rc') = cown (count rc2) @ [(v, REF_ALLOWED)]"
      using unblock_refs_own calculation(1) by blast
    moreover obtain w where "block_write w" "cown (count rc2) = cown (count rc) @ [w]"
      using own 3 by auto
    ultimately have "r \<noteq> Inr (Some ExclusiveRef)" "block_write w"
      "cown (count rc') = cown (count rc) @ [w, (v, REF_ALLOWED)]" by auto
    then show ?thesis by blast
  qed
qed

lemma blocking_get_exclusive_ref_own:
  assumes "blocking_get_exclusive_ref pr rc = Some (r, rc')"
  shows "r = Inr ExclusiveRef" "refs_of (cval (count rc')) = 0"
    "\<exists>w. block_write w \<and> cown (count rc') = cown (count rc) @ [w]"
proof -
  obtain r1 rc1 where run1: "run_loop (\<lambda>s. Some (block_pass pr s)) (new_backoff, rc) = Some (r1, rc1)"
    using assms by (auto simp: blocking_get_exclusive_ref_def split: option.splits sum.splits)
  let ?Q1 = "\<lambda>(r, p). \<exists>bo. r = Inr bo \<and> snoozing bo \<and>
      (\<exists>w. block_write w \<and> cown (count p) = cown (count rc) @ [w])"
  have "?Q1 (r1, rc1)"
  proof (rule run_loop_partial
      [where I = "\<lambda>(bo, p). snoozing bo \<and> cown (count p) = cown (count rc)", OF run1])
    fix s s' assume "case s of (bo, p) \<Rightarrow> snoozing bo \<and> cown (count p) = cown (count rc)"
      "Some (block_pass pr s) = Some (Again s')"
    then show "case s' of (bo, p) \<Rightarrow> snoozing bo \<and> cown (count p) = cown (count rc)"
      by (auto simp: block_pass_def Let_def snoozed_snoozing split: prod.splits if_splits sum.splits
          dest!: try_block_refs_own)
  next
    fix s r assume "case s of (bo, p) \<Rightarrow> snoozing bo \<and> cown (count p) = cown (count rc)"
      "Some (block_pass pr s) = Some (Leave r)"
    then show "?Q1 r"
      by (auto simp: block_pass_def Let_def snoozed_result split: prod.splits if_splits sum.splits
          dest!: try_block_refs_own simp del: split_paired_Ex)
  qed (simp add: snoozing_def new_backoff_def)
  then obtain bo w where 1: "r1 = Inr bo" "snoozing bo" "block_write w" "cown (count rc1) = cown (count rc) @ [w]"
    by auto
  obtain r2 where run2: "run_loop (\<lambda>s. Some (quiesce_pass pr s)) (bo, rc1) = Some (r2, rc')"
    and r: "r = map_sum id (\<lambda>_. ExclusiveRef) r2"
    using assms run1 1 by (auto simp: blocking_get_exclusive_ref_def)
  let ?I2 = "\<lambda>(bo, p). snoozing bo \<and> cown (count p) = cown (count rc1)"
  let ?Q2 = "\<lambda>(r, p). (\<exists>bo. r = Inr bo) \<and> refs_of (cval (count p)) = 0 \<and> cown (count p) = cown (count rc1)"
  have "?Q2 (r2, rc')"
  proof (rule run_loop_partial [where I = ?I2, OF run2])
    fix s s' assume "?I2 s" "Some (quiesce_pass pr s) = Some (Again s')"
    then show "?I2 s'"
      by (auto simp: quiesce_pass_def Let_def snoozed_snoozing split: prod.splits if_splits sum.splits
          dest: no_standard_refs_own)
  next
    fix s r assume "?I2 s" "Some (quiesce_pass pr s) = Some (Leave r)"
    then show "?Q2 r"
      by (auto simp: quiesce_pass_def Let_def snoozed_result split: prod.splits if_splits sum.splits
          dest: no_standard_refs_own)
  qed (use 1 in simp)
  with r 1 show "r = Inr ExclusiveRef" "refs_of (cval (count rc')) = 0"
    "\<exists>w. block_write w \<and> cown (count rc') = cown (count rc) @ [w]"
    by (auto simp del: split_paired_Ex)
qed

section \<open>Undisturbed calls\<close>

text \<open>
  On a quiet count cell the outcome is determined by the word, unless all four exchanges fail
  spuriously; \<open>steady\<close> excludes that (the load and the first three exchanges use up the
  environment's entries).
\<close>

definition steady :: "u32 acell \<Rightarrow> bool" where
  "steady c \<longleftrightarrow> quiet c \<and> length (cenv c) \<le> 4"

lemma try_incr_free:
  assumes "quiet c" "cval c = word_state n False" "n < MAX_REFS"
  shows "(\<exists>c'. try_incr pr (word_state n False) (word_state (Suc n) False) c = (Inr Done, c') \<and>
            quiet c' \<and> cval c' = word_state (Suc n) False) \<or>
    (\<exists>c'. try_incr pr (word_state n False) (word_state (Suc n) False) c =
        (Inr (Retry (word_state n False) (word_state (Suc n) False)), c') \<and>
       quiet c' \<and> cval c' = word_state n False \<and> length (cenv c') < length (cenv c))"
  using assms(3) checked_incr [of n pr]
  by (cases rule: quiet_cas [OF assms(1,2), of "word_state (Suc n) False"])
    (auto simp: try_incr_def Let_def mask_word_state incr_word_state)

lemma try_block_free:
  assumes "quiet c" "cval c = word_state n False" "n \<le> MAX_REFS"
  shows "(\<exists>c'. try_block (word_state n False) (word_state n True) c = (Done, c') \<and>
            quiet c' \<and> cval c' = word_state n True) \<or>
    (\<exists>c'. try_block (word_state n False) (word_state n True) c =
        (Retry (word_state n False) (word_state n True), c') \<and>
       quiet c' \<and> cval c' = word_state n False \<and> length (cenv c') < length (cenv c))"
  using assms(3)
  by (cases rule: quiet_cas [OF assms(1,2), of "word_state n True"])
    (auto simp: try_block_def Let_def mask_word_state blocked_word_state)

lemma try_last_free:
  assumes "quiet c" "cval c = old" "cenv c = []"
  shows "\<exists>c'. try_last old next c = (Done, c') \<and> quiet c' \<and> cval c' = next"
  using assms by (auto simp: try_last_def cas_empty_env quiet_put)

lemma many_incr_free:
  assumes "quiet c" "length (cenv c) \<le> 3" "cval c = word_state n False" "n < MAX_REFS"
  shows "\<exists>c'. many_weak_try_incr_refs pr (word_state n False) (word_state (Suc n) False) c = (Inr Done, c') \<and>
    quiet c' \<and> cval c' = word_state (Suc n) False"
  using try_incr_free [OF assms(1,3,4), of pr]
proof (elim disjE exE conjE)
  fix c1 assume 1: "try_incr pr (word_state n False) (word_state (Suc n) False) c =
      (Inr (Retry (word_state n False) (word_state (Suc n) False)), c1)"
    "quiet c1" "cval c1 = word_state n False" "length (cenv c1) < length (cenv c)"
  from try_incr_free [OF 1(2,3) assms(4), of pr] show ?thesis
  proof (elim disjE exE conjE)
    fix c2 assume 2: "try_incr pr (word_state n False) (word_state (Suc n) False) c1 =
        (Inr (Retry (word_state n False) (word_state (Suc n) False)), c2)"
      "quiet c2" "cval c2 = word_state n False" "length (cenv c2) < length (cenv c1)"
    from try_incr_free [OF 2(2,3) assms(4), of pr] show ?thesis
    proof (elim disjE exE conjE)
      fix c3 assume 3: "try_incr pr (word_state n False) (word_state (Suc n) False) c2 =
          (Inr (Retry (word_state n False) (word_state (Suc n) False)), c3)"
        "quiet c3" "cval c3 = word_state n False" "length (cenv c3) < length (cenv c2)"
      have "length (cenv c3) = 0" using assms(2) 1(4) 2(4) 3(4) by linarith
      then have "cenv c3 = []" by simp
      with 1 2 3 try_last_free [OF 3(2,3), of "word_state (Suc n) False"] show ?thesis
        by (auto simp: many_weak_try_incr_refs_def)
    qed (use 1 2 in \<open>auto simp: many_weak_try_incr_refs_def\<close>)
  qed (use 1 in \<open>auto simp: many_weak_try_incr_refs_def\<close>)
qed (auto simp: many_weak_try_incr_refs_def)

lemma try_incr_cell_free:
  assumes "steady c" "cval c = word_state n False" "n < MAX_REFS"
  shows "\<exists>c'. try_incr_cell pr c = (Inr True, c') \<and> quiet c' \<and> cval c' = word_state (Suc n) False"
proof -
  obtain c0 where ld: "load c = (word_state n False, c0)"
    and c0: "quiet c0" "length (cenv c0) \<le> 3" "cval c0 = word_state n False"
    by (rule quiet_loadE [of c]) (use assms(1,2) in \<open>auto simp: steady_def\<close>)
  show ?thesis
    using many_incr_free [OF c0 assms(3), of pr] assms(3) checked_incr [of n pr]
    by (auto simp: try_incr_cell_def ld Let_def mask_word_state incr_word_state)
qed

lemma try_block_cell_free:
  assumes "steady c" "cval c = word_state n False" "n \<le> MAX_REFS"
  shows "\<exists>c'. try_block_cell c = (True, c') \<and> quiet c' \<and> cval c' = word_state n True"
proof -
  obtain c0 where ld: "load c = (word_state n False, c0)"
    and c0: "quiet c0" "length (cenv c0) \<le> 3" "cval c0 = word_state n False"
    by (rule quiet_loadE [of c]) (use assms(1,2) in \<open>auto simp: steady_def\<close>)
  note eq = try_block_cell_def ld Let_def mask_word_state [OF assms(3)] blocked_word_state
  from try_block_free [OF c0(1,3) assms(3)] show ?thesis
  proof (elim disjE exE conjE)
    fix c1 assume 1: "try_block (word_state n False) (word_state n True) c0 =
        (Retry (word_state n False) (word_state n True), c1)"
      "quiet c1" "cval c1 = word_state n False" "length (cenv c1) < length (cenv c0)"
    from try_block_free [OF 1(2,3) assms(3)] show ?thesis
    proof (elim disjE exE conjE)
      fix c2 assume 2: "try_block (word_state n False) (word_state n True) c1 =
          (Retry (word_state n False) (word_state n True), c2)"
        "quiet c2" "cval c2 = word_state n False" "length (cenv c2) < length (cenv c1)"
      from try_block_free [OF 2(2,3) assms(3)] show ?thesis
      proof (elim disjE exE conjE)
        fix c3 assume 3: "try_block (word_state n False) (word_state n True) c2 =
            (Retry (word_state n False) (word_state n True), c3)"
          "quiet c3" "cval c3 = word_state n False" "length (cenv c3) < length (cenv c2)"
        have "length (cenv c3) = 0" using c0(2) 1(4) 2(4) 3(4) by linarith
        then have "cenv c3 = []" by simp
        with 1 2 3 try_last_free [OF 3(2,3), of "word_state n True"] show ?thesis
          by (auto simp: eq)
      qed (use 1 2 in \<open>auto simp: eq\<close>)
    qed (use 1 in \<open>auto simp: eq\<close>)
  qed (auto simp: eq)
qed

text \<open>On a blocked word every exchange fails, so nothing is written.\<close>

lemma cas_blocked:
  assumes "quiet c" "cval c = word_state n True" "n \<le> MAX_REFS"
  shows "\<exists>c'. compare_exchange_weak (word_state n False) new c = (Inl (word_state n True), c') \<and>
    quiet c' \<and> cval c' = word_state n True"
  using quiet_cas_differs [OF assms(1), of "word_state n False" new] assms(2,3)
  by (metis word_state_eq_iff)

lemma try_block_cell_blocked:
  assumes "quiet c" "cval c = word_state n True" "n \<le> MAX_REFS"
  shows "\<exists>c'. try_block_cell c = (False, c') \<and> quiet c' \<and> cval c' = word_state n True"
proof -
  obtain c0 where ld: "load c = (word_state n True, c0)" and c0: "quiet c0" "cval c0 = word_state n True"
    by (rule quiet_loadE [OF assms(1)]) (simp add: assms(2))
  have step: "\<exists>d'. try_block (word_state n False) (word_state n True) d =
      (Retry (word_state n False) (word_state n True), d') \<and> quiet d' \<and> cval d' = word_state n True"
    if "quiet d" "cval d = word_state n True" for d
    using cas_blocked [OF that assms(3), of "word_state n True"] assms(3)
    by (auto simp: try_block_def Let_def mask_word_state blocked_word_state)
  obtain c1 c2 c3 where "try_block (word_state n False) (word_state n True) c0 = (Retry (word_state n False) (word_state n True), c1)"
    "try_block (word_state n False) (word_state n True) c1 = (Retry (word_state n False) (word_state n True), c2)"
    "try_block (word_state n False) (word_state n True) c2 = (Retry (word_state n False) (word_state n True), c3)"
    "quiet c3" "cval c3 = word_state n True"
    using step c0 by metis
  moreover from cas_blocked [OF this(4,5) assms(3), of "word_state n True"]
  obtain c4 where "try_last (word_state n False) (word_state n True) c3 =
      (Retry (word_state n False) (word_state n True), c4)" "quiet c4" "cval c4 = word_state n True"
    by (auto simp: try_last_def)
  ultimately show ?thesis
    by (simp add: try_block_cell_def ld Let_def mask_word_state [OF assms(3)] blocked_word_state)
qed

lemma many_incr_blocked:
  assumes "quiet c" "cval c = word_state n True" "n < MAX_REFS"
  shows "\<exists>c'. many_weak_try_incr_refs pr (word_state n False) (word_state (Suc n) False) c =
      (Inr (Retry (word_state n False) (word_state (Suc n) False)), c') \<and> quiet c' \<and> cval c' = word_state n True"
proof -
  have n: "n \<le> MAX_REFS" using assms(3) by simp
  have step: "\<exists>d'. try_incr pr (word_state n False) (word_state (Suc n) False) d =
      (Inr (Retry (word_state n False) (word_state (Suc n) False)), d') \<and> quiet d' \<and> cval d' = word_state n True"
    if "quiet d" "cval d = word_state n True" for d
    using cas_blocked [OF that n, of "word_state (Suc n) False"] assms(3) checked_incr [OF n, of pr]
    by (auto simp: try_incr_def Let_def mask_word_state incr_word_state)
  obtain c1 c2 c3 where "try_incr pr (word_state n False) (word_state (Suc n) False) c = (Inr (Retry (word_state n False) (word_state (Suc n) False)), c1)"
    "try_incr pr (word_state n False) (word_state (Suc n) False) c1 = (Inr (Retry (word_state n False) (word_state (Suc n) False)), c2)"
    "try_incr pr (word_state n False) (word_state (Suc n) False) c2 = (Inr (Retry (word_state n False) (word_state (Suc n) False)), c3)"
    "quiet c3" "cval c3 = word_state n True"
    using step assms by metis
  moreover from cas_blocked [OF this(4,5) n, of "word_state (Suc n) False"]
  obtain c4 where "try_last (word_state n False) (word_state (Suc n) False) c3 =
      (Retry (word_state n False) (word_state (Suc n) False), c4)" "quiet c4" "cval c4 = word_state n True"
    by (auto simp: try_last_def)
  ultimately show ?thesis by (simp add: many_weak_try_incr_refs_def)
qed

lemma try_incr_cell_blocked:
  assumes "quiet c" "cval c = word_state n True" "n < MAX_REFS"
  shows "\<exists>c'. try_incr_cell pr c = (Inr False, c') \<and> quiet c' \<and> cval c' = word_state n True"
proof -
  obtain c0 where ld: "load c = (word_state n True, c0)" and c0: "quiet c0" "cval c0 = word_state n True"
    by (rule quiet_loadE [OF assms(1)]) (simp add: assms(2))
  show ?thesis
    using many_incr_blocked [OF c0 assms(3), of pr] assms(3) checked_incr [of n pr]
    by (auto simp: try_incr_cell_def ld Let_def mask_word_state incr_word_state)
qed

section \<open>Undisturbed operations on a whole RefCount\<close>

text \<open>
  \<open>rc_ok rc n b N ws\<close>: the word of \<open>rc\<close> counts \<open>n\<close> standard references, \<open>b\<close> is the
  block bit, and the waiters \<open>ws\<close> are queued in a queue of capacity \<open>N\<close>.
\<close>

definition rc_ok :: "ref_count \<Rightarrow> nat \<Rightarrow> bool \<Rightarrow> nat \<Rightarrow> waiter list \<Rightarrow> bool" where
  "rc_ok rc n b N ws \<longleftrightarrow> quiet (count rc) \<and> cval (count rc) = word_state n b \<and> n \<le> MAX_REFS \<and>
     holds (waiter_queue rc) N ws"

lemma rc_ok_load:
  assumes "rc_ok rc n b N ws"
  obtains c where "load (count rc) = (word_state n b, c)" "quiet c" "cval c = word_state n b" "n \<le> MAX_REFS"
proof -
  have "quiet (count rc)" and v: "cval (count rc) = word_state n b" and n: "n \<le> MAX_REFS"
    using assms by (simp_all add: rc_ok_def)
  from this(1) show thesis
    by (rule quiet_loadE) (rule that, simp_all add: v n)
qed

lemma rc_okI:
  "rc_ok rc n b N ws \<Longrightarrow> quiet c \<Longrightarrow> cval c = word_state m b' \<Longrightarrow> m \<le> MAX_REFS \<Longrightarrow>
     rc_ok (rc\<lparr>count := c\<rparr>) m b' N ws"
  by (simp add: rc_ok_def)

lemma new_ref_count_ok:
  assumes "C \<noteq> 0" "unat C < 2 ^ 63"
  shows "\<exists>rc. new_ref_count pr C = Inr rc \<and> rc_ok rc 0 False (unat C) [] \<and> steady (count rc)"
proof -
  obtain k and q :: "waiter array_queue" where "new_queue pr C = Inr q" "ring k (unat C) 0 [] q"
    using new_queue_ring [OF assms] by blast
  then show ?thesis
    by (auto simp: new_ref_count_def rc_ok_def holds_def quiet_cell word_state_def steady_def)
qed

lemma try_get_ref_free:
  assumes "rc_ok rc n False N ws" "steady (count rc)" "n < MAX_REFS"
  shows "\<exists>rc'. try_get_ref pr rc = (Inr (Some Ref), rc') \<and> rc_ok rc' (Suc n) False N ws"
  using try_incr_cell_free [OF assms(2) _ assms(3), of pr] assms(1,3)
  by (auto simp: try_get_ref_def rc_ok_def)

lemma try_get_ref_blocked:
  assumes "rc_ok rc n True N ws" "n < MAX_REFS"
  shows "\<exists>rc'. try_get_ref pr rc = (Inr None, rc') \<and> rc_ok rc' n True N ws"
  using try_incr_cell_blocked [OF _ _ assms(2), of "count rc" pr] assms(1)
  by (auto simp: try_get_ref_def rc_ok_def)

lemma try_block_refs_free:
  assumes "rc_ok rc n False N ws" "steady (count rc)"
  shows "\<exists>rc'. try_block_refs rc = (True, rc') \<and> rc_ok rc' n True N ws"
  using try_block_cell_free [OF assms(2), of n] assms(1)
  by (auto simp: try_block_refs_def rc_ok_def)

lemma try_block_refs_blocked:
  assumes "rc_ok rc n True N ws"
  shows "\<exists>rc'. try_block_refs rc = (False, rc') \<and> rc_ok rc' n True N ws"
  using try_block_cell_blocked [of "count rc" n] assms
  by (auto simp: try_block_refs_def rc_ok_def)

lemma no_standard_refs_ok:
  assumes "rc_ok rc n b N ws"
  shows "\<exists>rc'. no_standard_refs rc = (n = 0, rc') \<and> rc_ok rc' n b N ws"
proof -
  obtain c where "load (count rc) = (word_state n b, c)" "quiet c" "cval c = word_state n b"
    using assms by (rule rc_ok_load)
  with assms show ?thesis
    by (auto simp: no_standard_refs_def std_ref_count_def load_count_def standard_ref_count_eq_0
        rc_ok_def refs_of_word_state)
qed

lemma is_blocked_ok:
  assumes "rc_ok rc n b N ws"
  shows "\<exists>rc'. is_blocked rc = (b, rc') \<and> rc_ok rc' n b N ws"
proof -
  obtain c where "load (count rc) = (word_state n b, c)" "quiet c" "cval c = word_state n b"
    using assms by (rule rc_ok_load)
  with assms show ?thesis
    by (cases b) (auto simp: is_blocked_def raw_state_def load_count_def rc_ok_def block_state_word_state)
qed

lemma await_no_refs_ok:
  assumes "rc_ok rc n b N ws"
  shows "\<exists>rc'. await_no_refs (Suc i) rc = (n = 0, rc') \<and> rc_ok rc' n b N ws"
  using assms
proof (induction i arbitrary: rc)
  case 0
  then show ?case using no_standard_refs_ok [OF 0] by auto
next
  case (Suc i)
  obtain rc1 where rc1: "no_standard_refs rc = (n = 0, rc1)" "rc_ok rc1 n b N ws"
    using no_standard_refs_ok [OF Suc.prems] by blast
  show ?case
    using Suc.IH [OF rc1(2)] rc1 by (cases "n = 0") (auto simp del: await_no_refs.simps(2)
        simp: await_no_refs.simps(2) [of "Suc i"])
qed

text \<open>
  \<open>unblock_refs\<close> returns, wakes every queued waiter in queue order, and resets the whole word,
  whatever number of references it counted.
\<close>

lemma unblock_refs_ok:
  assumes rc: "rc_ok rc n b N ws" and live: "\<forall>w \<in> set ws. alive m w"
  shows "\<exists>rc'. unblock_refs pr rc m = Some (Inr (), rc', all_woken ws m) \<and> rc_ok rc' 0 False N []"
proof -
  let ?rc = "rc\<lparr>count := store REF_ALLOWED (count rc)\<rparr>"
  have q: "holds (waiter_queue rc) N ws" and c: "quiet (count rc)" using rc by (auto simp: rc_ok_def)
  have fin: "rc_ok (?rc\<lparr>waiter_queue := q\<rparr>) 0 False N []" if "holds q N []" for q
    using that c by (simp add: rc_ok_def quiet_cell REF_ALLOWED_word_state)
  show ?thesis
  proof (cases ws)
    case Nil
    obtain q1 where q1: "pop pr (waiter_queue rc) = Some (Inr None, q1)" "holds q1 N []"
      using array_fifo.deq_none [of "waiter_queue rc" N] q Nil by blast
    obtain q2 where "drain (pop pr) wake q1 m = Some (Inr (), q2, m)" "holds q2 N []"
      using array_fifo.drain_all [OF q1(2), of wake m] by auto
    with q1 Nil fin show ?thesis by (auto simp: unblock_refs_def)
  next
    case (Cons w ws')
    obtain q1 where q1: "pop pr (waiter_queue rc) = Some (Inr (Some w), q1)" "holds q1 N ws'"
      using array_fifo.deq_some [of "waiter_queue rc" N w ws'] q Cons by blast
    have "each wake ws' (all_woken [w] m) = Inr (all_woken ws m)"
      using live Cons by (simp add: each_wake alive_all_woken all_woken_Cons)
    from array_fifo.drain_all [OF q1(2) this, of pr]
    obtain q2 where "drain (pop pr) wake q1 (all_woken [w] m) = Some (Inr (), q2, all_woken ws m)"
      "holds q2 N []" by blast
    with q1 Cons live fin show ?thesis by (auto simp: unblock_refs_def wake_alive)
  qed
qed

text \<open>A queued waiter of a future that is gone makes it use freed memory.\<close>

lemma unblock_refs_dangling:
  assumes rc: "rc_ok rc n b N ws" and dead: "\<exists>w \<in> set ws. \<not> alive m w"
  shows "\<exists>rc' m'. unblock_refs pr rc m = Some (Inl Undefined, rc', m')"
proof -
  have q: "holds (waiter_queue rc) N ws" using rc by (auto simp: rc_ok_def)
  from dead obtain w ws' where ws: "ws = w # ws'" by (cases ws) auto
  obtain q1 where q1: "pop pr (waiter_queue rc) = Some (Inr (Some w), q1)" "holds q1 N ws'"
    using array_fifo.deq_some [of "waiter_queue rc" N w ws'] q ws by blast
  show ?thesis
  proof (cases "alive m w")
    case True
    with dead ws have "each wake ws' (all_woken [w] m) = Inl Undefined"
      by (auto simp: alive_all_woken_iff intro!: each_wake_dangling)
    from array_fifo.drain_fault [OF q1(2) this, of pr]
    obtain q2 m2 where "drain (pop pr) wake q1 (all_woken [w] m) = Some (Inl Undefined, q2, m2)" by blast
    with q1 True show ?thesis by (simp add: unblock_refs_def wake_alive)
  next
    case False
    with q1 show ?thesis by (simp add: unblock_refs_def wake_dangling)
  qed
qed

lemma try_get_exclusive_ref_free:
  assumes "rc_ok rc 0 False N ws" "steady (count rc)"
  shows "\<exists>rc'. try_get_exclusive_ref pr rc m = Some (Inr (Some ExclusiveRef), rc', m) \<and> rc_ok rc' 0 True N ws"
proof -
  obtain rc1 where "try_block_refs rc = (True, rc1)" "rc_ok rc1 0 True N ws"
    using try_block_refs_free [OF assms] by blast
  with await_no_refs_ok [of rc1 0 True N ws 4] show ?thesis
    by (auto simp: try_get_exclusive_ref_def numeral_eq_Suc)
qed

lemma try_get_exclusive_ref_blocked:
  assumes "rc_ok rc n True N ws"
  shows "\<exists>rc'. try_get_exclusive_ref pr rc m = Some (Inr None, rc', m) \<and> rc_ok rc' n True N ws"
  using try_block_refs_blocked [OF assms] by (auto simp: try_get_exclusive_ref_def)

text \<open>With references alive it gives up, and leaves a word that counts none of them.\<close>

lemma try_get_exclusive_ref_in_use:
  assumes "rc_ok rc n False N ws" "steady (count rc)" "0 < n" "\<forall>w \<in> set ws. alive m w"
  shows "\<exists>rc'. try_get_exclusive_ref pr rc m = Some (Inr None, rc', all_woken ws m) \<and> rc_ok rc' 0 False N []"
proof -
  obtain rc1 where rc1: "try_block_refs rc = (True, rc1)" "rc_ok rc1 n True N ws"
    using try_block_refs_free [OF assms(1,2)] by blast
  obtain rc2 where rc2: "await_no_refs 5 rc1 = (False, rc2)" "rc_ok rc2 n True N ws"
    using await_no_refs_ok [OF rc1(2), of 4] assms(3) by (auto simp: numeral_eq_Suc)
  obtain rc3 where "unblock_refs pr rc2 m = Some (Inr (), rc3, all_woken ws m)" "rc_ok rc3 0 False N []"
    using unblock_refs_ok [OF rc2(2) assms(4)] by blast
  with rc1 rc2 show ?thesis by (auto simp: try_get_exclusive_ref_def)
qed

lemma drop_ref_ok:
  assumes "rc_ok rc n b N ws" "0 < n"
  shows "rc_ok (drop_ref r rc) (n - 1) b N ws"
  using assms by (auto simp: drop_ref_def rc_ok_def quiet_cell decr_word_state)

text \<open>Dropping a reference the word does not count wraps it around.\<close>

lemma drop_ref_uncounted:
  assumes "rc_ok rc 0 b N ws"
  shows "rc_ok (drop_ref r rc) MAX_REFS b N ws"
proof -
  have "word_state 0 b - REF_INCR = word_state MAX_REFS b"
    by (cases b) (simp_all add: word_state_def MAX_REFS_def REF_INCR_def REF_COUNT_SHIFT_def)
  with assms show ?thesis by (simp add: drop_ref_def rc_ok_def quiet_cell)
qed

end
