(* ===== verification/Futures.thy ===== *)
theory Futures
  imports Ref_Count
begin

text \<open>
  \<open>src/futures.rs\<close> and the operations of \<open>src/lib.rs\<close> that return a future. A future is
  identified by the address of its \<open>registered\<close> flag, where it is pinned; creating one
  allocates the flag, dropping it frees the flag (none of the futures implements
  \<open>Drop\<close>). A poll runs to its end with the context's waker, a task identity.
\<close>

section \<open>Data\<close>

datatype ('r, 'f) maybe_future = Ready 'r | Future 'f

datatype 'r poll = Poll_Ready 'r | Pending

record future_ref =
  ref_flag :: nat

record future_blocked_refs =
  blocked_flag :: nat

record future_exclusive_ref =
  blocked_fut :: "future_blocked_refs option"

definition new_future_ref :: "nat \<Rightarrow> memory \<Rightarrow> future_ref \<times> memory" where
  "new_future_ref addr m = (\<lparr>ref_flag = addr\<rparr>, m\<lparr>flags := (flags m)(addr \<mapsto> False)\<rparr>)"

definition new_future_blocked_refs :: "nat \<Rightarrow> memory \<Rightarrow> future_blocked_refs \<times> memory" where
  "new_future_blocked_refs addr m = (\<lparr>blocked_flag = addr\<rparr>, m\<lparr>flags := (flags m)(addr \<mapsto> False)\<rparr>)"

definition new_future_exclusive_ref :: "future_blocked_refs option \<Rightarrow> future_exclusive_ref" where
  "new_future_exclusive_ref fut = \<lparr>blocked_fut = fut\<rparr>"

text \<open>What the end of a future's life does to memory.\<close>

definition free_flag :: "nat \<Rightarrow> memory \<Rightarrow> memory" where
  "free_flag addr m = m\<lparr>flags := (flags m)(addr := None)\<rparr>"

section \<open>Operations that return a future\<close>

definition block_refs ::
  "nat \<Rightarrow> ref_count \<Rightarrow> memory \<Rightarrow> (unit, future_blocked_refs) maybe_future \<times> ref_count \<times> memory" where
  "block_refs addr rc m =
     (let (ok, rc) = try_block_refs rc in
      if \<not> ok then (let (fut, m) = new_future_blocked_refs addr m in (Future fut, rc, m))
      else (Ready (), rc, m))"

definition get_exclusive_ref ::
  "nat \<Rightarrow> ref_count \<Rightarrow> memory
     \<Rightarrow> (exclusive_handle, future_exclusive_ref) maybe_future \<times> ref_count \<times> memory" where
  "get_exclusive_ref addr rc m =
     (let (ok, rc) = try_block_refs rc in
      if ok then
        (let (free, rc) = no_standard_refs rc in
         if free then (Ready ExclusiveRef, rc, m)
         else (Future (new_future_exclusive_ref None), rc, m))
      else
        (let (fut, m) = new_future_blocked_refs addr m in
         (Future (new_future_exclusive_ref (Some fut)), rc, m)))"

definition get_ref ::
  "profile \<Rightarrow> nat \<Rightarrow> ref_count \<Rightarrow> memory
     \<Rightarrow> (fault + (ref_handle, future_ref) maybe_future) \<times> ref_count \<times> memory" where
  "get_ref pr addr rc m =
     (let (r, c) = try_incr_cell pr (count rc); rc = rc\<lparr>count := c\<rparr> in
      case r of
        Inl e \<Rightarrow> (Inl e, rc, m)
      | Inr ok \<Rightarrow>
          if ok then (Inr (Ready Ref), rc, m)
          else (let (fut, m) = new_future_ref addr m in (Inr (Future fut), rc, m)))"

text \<open>The macro \<open>maybe_await!\<close>; what awaiting does is the executor's, a parameter.\<close>

definition maybe_await :: "('f \<Rightarrow> 'r) \<Rightarrow> ('r, 'f) maybe_future \<Rightarrow> 'r" where
  "maybe_await await mf = (case mf of Future fut \<Rightarrow> await fut | Ready res \<Rightarrow> res)"

section \<open>Polling\<close>

text \<open>The macro \<open>try_register_future!\<close>.\<close>

definition try_register_future :: "profile \<Rightarrow> nat \<Rightarrow> nat \<Rightarrow> ref_count \<Rightarrow> memory \<Rightarrow> unit call" where
  "try_register_future pr addr cx rc m =
     (case flags m addr of
        None \<Rightarrow> Some (Inl Undefined, rc, m)
      | Some True \<Rightarrow> Some (Inr (), rc, m)
      | Some False \<Rightarrow>
          (case push pr (new_waiter cx addr) (waiter_queue rc) of None \<Rightarrow> None | Some (r, q) \<Rightarrow>
           (let rc = rc\<lparr>waiter_queue := q\<rparr> in
            case r of
              Inl e \<Rightarrow> Some (Inl e, rc, m)
            | Inr (Inr _) \<Rightarrow> Some (Inr (), rc, m\<lparr>flags := (flags m)(addr \<mapsto> True)\<rparr>)
            | Inr (Inl w) \<Rightarrow>
                (case wake w m of Inl e \<Rightarrow> Some (Inl e, rc, m) | Inr m \<Rightarrow> Some (Inr (), rc, m)))))"

definition poll_future_ref :: "profile \<Rightarrow> nat \<Rightarrow> future_ref \<Rightarrow> ref_count \<Rightarrow> memory \<Rightarrow> ref_handle poll call" where
  "poll_future_ref pr cx fut rc m =
     (let (blocked, rc) = is_blocked rc in
      if blocked then
        map_option (\<lambda>(r, rc, m). (map_sum id (\<lambda>_. Pending) r, rc, m))
          (try_register_future pr (ref_flag fut) cx rc m)
      else
        (case try_get_ref pr rc of (r, rc) \<Rightarrow>
         (case r of
            Inl e \<Rightarrow> Some (Inl e, rc, m)
          | Inr (Some reference) \<Rightarrow> Some (Inr (Poll_Ready reference), rc, m)
          | Inr None \<Rightarrow> Some (Inr Pending, rc, wake_task cx m))))"

definition poll_future_blocked_refs ::
  "profile \<Rightarrow> nat \<Rightarrow> future_blocked_refs \<Rightarrow> ref_count \<Rightarrow> memory \<Rightarrow> unit poll call" where
  "poll_future_blocked_refs pr cx fut rc m =
     (let (ok, rc) = try_block_refs rc in
      if ok then Some (Inr (Poll_Ready ()), rc, m)
      else
        (let (blocked, rc) = is_blocked rc in
         if blocked then
           map_option (\<lambda>(r, rc, m). (map_sum id (\<lambda>_. Pending) r, rc, m))
             (try_register_future pr (blocked_flag fut) cx rc m)
         else Some (Inr Pending, rc, wake_task cx m)))"

text \<open>The future is polled through a pinned reference, so its new state is returned as well.\<close>

definition poll_future_exclusive_ref ::
  "profile \<Rightarrow> nat \<Rightarrow> future_exclusive_ref \<Rightarrow> ref_count \<Rightarrow> memory
     \<Rightarrow> ((fault + exclusive_handle poll) \<times> future_exclusive_ref \<times> ref_count \<times> memory) option" where
  "poll_future_exclusive_ref pr cx fut rc m =
     (let check = (\<lambda>fut rc m.
        (let (free, rc) = no_standard_refs rc in
         if free then (Inr (Poll_Ready ExclusiveRef), fut, rc, m)
         else (Inr Pending, fut, rc, wake_task cx m))) in
      case blocked_fut fut of
        None \<Rightarrow> Some (check fut rc m)
      | Some blocked \<Rightarrow>
          (case poll_future_blocked_refs pr cx blocked rc m of None \<Rightarrow> None | Some (r, rc, m) \<Rightarrow>
           (case r of
              Inl e \<Rightarrow> Some (Inl e, fut, rc, m)
            | Inr Pending \<Rightarrow> Some (Inr Pending, fut, rc, m)
            | Inr (Poll_Ready _) \<Rightarrow>
                Some (check (fut\<lparr>blocked_fut := None\<rparr>) rc (free_flag (blocked_flag blocked) m)))))"

section \<open>Registration\<close>

text \<open>
  One round of \<open>try_register_future!\<close> on a live flag: nothing if the future is registered
  already; otherwise its waiter joins the end of the queue, or is woken at once if the queue is
  full.
\<close>

lemma rc_ok_queue: "rc_ok rc n b N ws \<Longrightarrow> holds q N vs \<Longrightarrow> rc_ok (rc\<lparr>waiter_queue := q\<rparr>) n b N vs"
  by (simp add: rc_ok_def)

lemma register_again:
  "flags m addr = Some True \<Longrightarrow> try_register_future pr addr cx rc m = Some (Inr (), rc, m)"
  by (simp add: try_register_future_def)

lemma register_room:
  assumes "rc_ok rc n b N ws" "flags m addr = Some False" "length ws < N"
  shows "\<exists>rc'. try_register_future pr addr cx rc m = Some (Inr (), rc', m\<lparr>flags := (flags m)(addr \<mapsto> True)\<rparr>) \<and>
    rc_ok rc' n b N (ws @ [new_waiter cx addr])"
proof -
  have q: "holds (waiter_queue rc) N ws" using assms(1) by (simp add: rc_ok_def)
  from array_fifo.enq_room [OF q assms(3), of pr "new_waiter cx addr"] assms(1,2) show ?thesis
    by (auto simp: try_register_future_def rc_ok_queue)
qed

lemma register_full:
  assumes "rc_ok rc n b N ws" "flags m addr = Some False" "length ws = N"
  shows "\<exists>rc'. try_register_future pr addr cx rc m = Some (Inr (), rc', wake_task cx m) \<and>
    rc_ok rc' n b N ws"
proof -
  have q: "holds (waiter_queue rc) N ws" using assms(1) by (simp add: rc_ok_def)
  have "wake (new_waiter cx addr) m = Inr (wake_task cx m)"
    using assms(2) by (auto simp: wake_def set_registered_def new_waiter_def wake_task_def fun_upd_idem)
  with array_fifo.enq_full [OF q assms(3), of pr "new_waiter cx addr"] assms(1,2) show ?thesis
    by (auto simp: try_register_future_def rc_ok_queue)
qed

end
