(* ===== verification/Quiet_Polls.thy ===== *)
theory Quiet_Polls
  imports Futures
begin

text \<open>
  The polls of \<open>Futures\<close> and the requests that create futures, when nobody else runs in
  between: the queue, the flags and the wake-ups each of them leaves.
\<close>

section \<open>Undisturbed polls\<close>

text \<open>
  On a quiet count an exchange of an unblocked word may still fail spuriously, so a poll either
  gets what it asks for or finds everything as it was.
\<close>

lemma try_last_quiet:
  assumes "quiet c" "cval c = old"
  shows "(\<exists>c'. try_last old nx c = (Done, c') \<and> quiet c' \<and> cval c' = nx) \<or>
    (\<exists>c'. try_last old nx c = (Retry old nx, c') \<and> quiet c' \<and> cval c' = old)"
  by (rule quiet_cas [OF assms, of nx]) (auto simp: try_last_def)

lemma try_block_cell_quiet:
  assumes "quiet c" "cval c = word_state n False" "n \<le> MAX_REFS"
  shows "\<exists>ok c'. try_block_cell c = (ok, c') \<and> quiet c' \<and> cval c' = word_state n ok"
proof -
  obtain c0 where ld: "load c = (word_state n False, c0)" and c0: "quiet c0" "cval c0 = word_state n False"
    using quiet_loadE [OF assms(1)] assms(2) by metis
  let ?P = "\<lambda>r. \<exists>ok c'. r = (ok, c') \<and> quiet c' \<and> cval c' = word_state n ok"
  have last: "?P (case try_last (word_state n False) (word_state n True) d of
      (Done, c) \<Rightarrow> (True, c) | (Retry _ _, c) \<Rightarrow> (False, c))"
    if "quiet d" "cval d = word_state n False" for d
    using try_last_quiet [OF that, of "word_state n True"] by auto
  have more: "?P (case try_block (word_state n False) (word_state n True) d of
      (Done, c) \<Rightarrow> (True, c) | (Retry cur nx, c) \<Rightarrow> f cur nx c)"
    if "quiet d" "cval d = word_state n False"
      "\<And>d. quiet d \<Longrightarrow> cval d = word_state n False \<Longrightarrow> ?P (f (word_state n False) (word_state n True) d)" for d f
    using try_block_free [OF that(1,2) assms(3)] that(3) by fastforce
  show ?thesis
    unfolding try_block_cell_def ld Let_def prod.case mask_word_state [OF assms(3)] blocked_word_state
    by (intro more last c0)
qed

lemma many_incr_quiet:
  assumes c0: "quiet c0" "cval c0 = word_state n False" and n: "n < MAX_REFS"
  shows "(\<exists>c'. many_weak_try_incr_refs pr (word_state n False) (word_state (Suc n) False) c0 = (Inr Done, c') \<and>
      quiet c' \<and> cval c' = word_state (Suc n) False) \<or>
    (\<exists>c'. many_weak_try_incr_refs pr (word_state n False) (word_state (Suc n) False) c0 =
        (Inr (Retry (word_state n False) (word_state (Suc n) False)), c') \<and>
      quiet c' \<and> cval c' = word_state n False)"
proof -
  let ?v = "word_state n False" and ?w = "word_state (Suc n) False"
  note free = try_incr_free [OF _ _ n, of _ pr]
  show ?thesis using free [OF c0]
  proof (elim disjE exE conjE)
    fix c1 assume 1: "try_incr pr ?v ?w c0 = (Inr (Retry ?v ?w), c1)" "quiet c1" "cval c1 = ?v"
    from free [OF 1(2,3)] show ?thesis
    proof (elim disjE exE conjE)
      fix c2 assume 2: "try_incr pr ?v ?w c1 = (Inr (Retry ?v ?w), c2)" "quiet c2" "cval c2 = ?v"
      from free [OF 2(2,3)] show ?thesis
      proof (elim disjE exE conjE)
        fix c3 assume "try_incr pr ?v ?w c2 = (Inr (Retry ?v ?w), c3)" "quiet c3" "cval c3 = ?v"
        with 1 2 try_last_quiet [of c3 ?v ?w] show ?thesis by (auto simp: many_weak_try_incr_refs_def)
      qed (use 1 2 in \<open>simp add: many_weak_try_incr_refs_def\<close>)
    qed (use 1 in \<open>simp add: many_weak_try_incr_refs_def\<close>)
  qed (simp add: many_weak_try_incr_refs_def)
qed

lemma try_incr_cell_quiet:
  assumes "quiet c" "cval c = word_state n False" "n < MAX_REFS"
  shows "\<exists>ok c'. try_incr_cell pr c = (Inr ok, c') \<and> quiet c' \<and>
    cval c' = word_state (if ok then Suc n else n) False"
proof -
  obtain c0 where ld: "load c = (word_state n False, c0)" and c0: "quiet c0" "cval c0 = word_state n False"
    using quiet_loadE [OF assms(1)] assms(2) by metis
  have "checked_add pr (word_state n False) REF_INCR = Inr (word_state (Suc n) False)"
    using checked_incr [of n pr] assms(3) by (simp add: incr_word_state)
  with many_incr_quiet [OF c0 assms(3), of pr] assms(3) show ?thesis
    by (auto simp: try_incr_cell_def ld mask_word_state)
qed

lemma try_block_refs_quiet:
  assumes "rc_ok rc n False N ws"
  shows "\<exists>ok rc'. try_block_refs rc = (ok, rc') \<and> rc_ok rc' n ok N ws"
  using try_block_cell_quiet [of "count rc" n] assms by (auto simp: try_block_refs_def rc_ok_def)

lemma try_get_ref_quiet:
  assumes "rc_ok rc n False N ws" "n < MAX_REFS"
  shows "\<exists>got rc'. try_get_ref pr rc = (Inr (if got then Some Ref else None), rc') \<and>
    rc_ok rc' (if got then Suc n else n) False N ws"
  using try_incr_cell_quiet [of "count rc" n pr] assms by (auto simp: try_get_ref_def rc_ok_def)

text \<open>The queue and the memory after a registration, in the three cases together.\<close>

definition registering :: "nat \<Rightarrow> nat \<Rightarrow> nat \<Rightarrow> waiter list \<Rightarrow> memory \<Rightarrow> waiter list \<times> memory" where
  "registering addr cx N ws m =
     (if flags m addr = Some True then (ws, m)
      else if length ws < N then (ws @ [new_waiter cx addr], m\<lparr>flags := (flags m)(addr \<mapsto> True)\<rparr>)
      else (ws, wake_task cx m))"

lemma register_quiet:
  assumes "rc_ok rc n b N ws" "flags m addr = Some r"
  shows "\<exists>rc'. try_register_future pr addr cx rc m = Some (Inr (), rc', snd (registering addr cx N ws m)) \<and>
    rc_ok rc' n b N (fst (registering addr cx N ws m))"
proof -
  have "length ws \<le> N" using assms(1) array_fifo.bounded [of "waiter_queue rc" N ws] by (simp add: rc_ok_def)
  then consider "r" | "\<not> r" "length ws < N" | "\<not> r" "length ws = N" by linarith
  then show ?thesis
  proof cases
    case 1
    with assms register_again [of m addr pr cx rc] show ?thesis by (auto simp: registering_def)
  next
    case 2
    with assms register_room [OF assms(1), of m addr pr cx] show ?thesis by (auto simp: registering_def)
  next
    case 3
    with assms register_full [OF assms(1), of m addr pr cx] show ?thesis by (auto simp: registering_def)
  qed
qed

lemma poll_ref_blocked:
  assumes "rc_ok rc n True N ws" "flags m (ref_flag fut) = Some r"
  shows "\<exists>rc'. poll_future_ref pr cx fut rc m =
      Some (Inr Pending, rc', snd (registering (ref_flag fut) cx N ws m)) \<and>
    rc_ok rc' n True N (fst (registering (ref_flag fut) cx N ws m))"
proof -
  obtain rc1 where rc1: "is_blocked rc = (True, rc1)" "rc_ok rc1 n True N ws"
    using is_blocked_ok [OF assms(1)] by blast
  from register_quiet [OF rc1(2) assms(2), of pr cx] rc1(1) show ?thesis
    by (auto simp: poll_future_ref_def)
qed

lemma poll_ref_free:
  assumes "rc_ok rc n False N ws" "n < MAX_REFS"
  shows "(\<exists>rc'. poll_future_ref pr cx fut rc m = Some (Inr (Poll_Ready Ref), rc', m) \<and> rc_ok rc' (Suc n) False N ws) \<or>
    (\<exists>rc'. poll_future_ref pr cx fut rc m = Some (Inr Pending, rc', wake_task cx m) \<and> rc_ok rc' n False N ws)"
proof -
  obtain rc1 where rc1: "is_blocked rc = (False, rc1)" "rc_ok rc1 n False N ws"
    using is_blocked_ok [OF assms(1)] by blast
  from try_get_ref_quiet [OF rc1(2) assms(2), of pr] obtain got rc2
    where "try_get_ref pr rc1 = (Inr (if got then Some Ref else None), rc2)"
      "rc_ok rc2 (if got then Suc n else n) False N ws" by blast
  with rc1 show ?thesis by (cases got) (auto simp: poll_future_ref_def)
qed

lemma poll_block_blocked:
  assumes "rc_ok rc n True N ws" "flags m (blocked_flag fut) = Some r"
  shows "\<exists>rc'. poll_future_blocked_refs pr cx fut rc m =
      Some (Inr Pending, rc', snd (registering (blocked_flag fut) cx N ws m)) \<and>
    rc_ok rc' n True N (fst (registering (blocked_flag fut) cx N ws m))"
proof -
  obtain rc1 where rc1: "try_block_refs rc = (False, rc1)" "rc_ok rc1 n True N ws"
    using try_block_refs_blocked [OF assms(1)] by blast
  obtain rc2 where rc2: "is_blocked rc1 = (True, rc2)" "rc_ok rc2 n True N ws"
    using is_blocked_ok [OF rc1(2)] by blast
  from register_quiet [OF rc2(2) assms(2), of pr cx] rc1(1) rc2(1) show ?thesis
    by (auto simp: poll_future_blocked_refs_def)
qed

lemma poll_block_free:
  assumes "rc_ok rc n False N ws"
  shows "(\<exists>rc'. poll_future_blocked_refs pr cx fut rc m = Some (Inr (Poll_Ready ()), rc', m) \<and> rc_ok rc' n True N ws) \<or>
    (\<exists>rc'. poll_future_blocked_refs pr cx fut rc m = Some (Inr Pending, rc', wake_task cx m) \<and> rc_ok rc' n False N ws)"
proof -
  obtain ok rc1 where rc1: "try_block_refs rc = (ok, rc1)" "rc_ok rc1 n ok N ws"
    using try_block_refs_quiet [OF assms] by blast
  show ?thesis
  proof (cases ok)
    case True
    with rc1 show ?thesis by (auto simp: poll_future_blocked_refs_def)
  next
    case False
    with rc1(2) obtain rc2 where "is_blocked rc1 = (False, rc2)" "rc_ok rc2 n False N ws"
      using is_blocked_ok [of rc1 n ok N ws] by auto
    with rc1(1) False show ?thesis by (auto simp: poll_future_blocked_refs_def)
  qed
qed

text \<open>
  A \<open>FutureExclusiveRef\<close> first sets the block with its inner future and then waits for the
  references to go; it never gives the block back.
\<close>

definition checked :: "nat \<Rightarrow> nat \<Rightarrow> memory \<Rightarrow> exclusive_handle poll \<times> memory" where
  "checked n cx m = (if n = 0 then (Poll_Ready ExclusiveRef, m) else (Pending, wake_task cx m))"

lemma poll_excl_check:
  assumes "rc_ok rc n b N ws" "blocked_fut fut = None"
  shows "\<exists>rc'. poll_future_exclusive_ref pr cx fut rc m =
      Some (Inr (fst (checked n cx m)), fut, rc', snd (checked n cx m)) \<and> rc_ok rc' n b N ws"
  using no_standard_refs_ok [OF assms(1)] assms(2)
  by (auto simp: poll_future_exclusive_ref_def checked_def)

lemma poll_excl_blocked:
  assumes "rc_ok rc n True N ws" "blocked_fut fut = Some inner" "flags m (blocked_flag inner) = Some r"
  shows "\<exists>rc'. poll_future_exclusive_ref pr cx fut rc m =
      Some (Inr Pending, fut, rc', snd (registering (blocked_flag inner) cx N ws m)) \<and>
    rc_ok rc' n True N (fst (registering (blocked_flag inner) cx N ws m))"
  using poll_block_blocked [OF assms(1,3), of pr cx] assms(2)
  by (auto simp: poll_future_exclusive_ref_def)

lemma poll_excl_free:
  assumes "rc_ok rc n False N ws" "blocked_fut fut = Some inner"
  shows "(\<exists>rc'. poll_future_exclusive_ref pr cx fut rc m =
        Some (Inr (fst (checked n cx m)), fut\<lparr>blocked_fut := None\<rparr>, rc',
              snd (checked n cx (free_flag (blocked_flag inner) m))) \<and> rc_ok rc' n True N ws) \<or>
    (\<exists>rc'. poll_future_exclusive_ref pr cx fut rc m = Some (Inr Pending, fut, rc', wake_task cx m) \<and>
       rc_ok rc' n False N ws)"
  using poll_block_free [OF assms(1), of pr cx inner m]
proof (elim disjE exE conjE)
  fix rc1 assume rc1: "poll_future_blocked_refs pr cx inner rc m = Some (Inr (Poll_Ready ()), rc1, m)"
    "rc_ok rc1 n True N ws"
  from no_standard_refs_ok [OF rc1(2)] rc1(1) assms(2) show ?thesis
    by (auto simp: poll_future_exclusive_ref_def checked_def)
qed (use assms(2) in \<open>auto simp: poll_future_exclusive_ref_def\<close>)

section \<open>Undisturbed requests\<close>

lemma get_ref_free:
  assumes "rc_ok rc n False N ws" "n < MAX_REFS"
  shows "(\<exists>rc'. get_ref pr addr rc m = (Inr (Ready Ref), rc', m) \<and> rc_ok rc' (Suc n) False N ws) \<or>
    (\<exists>rc'. get_ref pr addr rc m =
        (Inr (Future \<lparr>ref_flag = addr\<rparr>), rc', m\<lparr>flags := (flags m)(addr \<mapsto> False)\<rparr>) \<and> rc_ok rc' n False N ws)"
proof -
  obtain ok c where c: "try_incr_cell pr (count rc) = (Inr ok, c)" "quiet c"
    "cval c = word_state (if ok then Suc n else n) False"
    using try_incr_cell_quiet [of "count rc" n pr] assms by (auto simp: rc_ok_def)
  with rc_okI [OF assms(1), of c "if ok then Suc n else n" False] assms(2) show ?thesis
    by (cases ok) (auto simp: get_ref_def new_future_ref_def)
qed

lemma get_ref_blocked:
  assumes "rc_ok rc n True N ws" "n < MAX_REFS"
  shows "\<exists>rc'. get_ref pr addr rc m =
      (Inr (Future \<lparr>ref_flag = addr\<rparr>), rc', m\<lparr>flags := (flags m)(addr \<mapsto> False)\<rparr>) \<and> rc_ok rc' n True N ws"
  using try_incr_cell_blocked [of "count rc" n pr] assms
  by (auto simp: get_ref_def new_future_ref_def rc_ok_def)

lemma get_exclusive_ref_quiet:
  assumes "rc_ok rc n b N ws"
  shows "\<exists>ok rc'. (b \<longrightarrow> \<not> ok) \<and> rc_ok rc' n (b \<or> ok) N ws \<and> get_exclusive_ref addr rc m =
    (if ok then (if n = 0 then (Ready ExclusiveRef, rc', m) else (Future \<lparr>blocked_fut = None\<rparr>, rc', m))
     else (Future \<lparr>blocked_fut = Some \<lparr>blocked_flag = addr\<rparr>\<rparr>, rc', m\<lparr>flags := (flags m)(addr \<mapsto> False)\<rparr>))"
proof -
  obtain ok rc1 where rc1: "try_block_refs rc = (ok, rc1)" "rc_ok rc1 n (b \<or> ok) N ws" "b \<longrightarrow> \<not> ok"
    using try_block_refs_quiet [of rc n N ws] try_block_refs_blocked [of rc n N ws] assms by (cases b) auto
  obtain rc2 where "no_standard_refs rc1 = (n = 0, rc2)" "rc_ok rc2 n (b \<or> ok) N ws"
    using no_standard_refs_ok [OF rc1(2)] by blast
  with rc1 show ?thesis
    by (cases ok; cases "n = 0")
      (auto simp: get_exclusive_ref_def new_future_exclusive_ref_def new_future_blocked_refs_def
        simp del: split_paired_Ex)
qed

end
