(* ===== verification/Ref_Properties.thy ===== *)
theory Ref_Properties
  imports Quiet_Polls
begin

text \<open>
  The properties of the operations of \<open>src/lib.rs\<close> and \<open>src/futures.rs\<close>, one call at a
  time: what a call writes to the count under any interference, and what it returns and leaves
  when nobody interferes.
\<close>

section \<open>Blocking calls that nobody disturbs\<close>

text \<open>A loop with a snooze goes round for ever if no pass can leave it.\<close>

lemma blocking_ref_pass_blocked:
  assumes "quiet c" "cval c = word_state n True" "n < MAX_REFS" "snoozing bo"
  shows "\<exists>bo' c'. blocking_ref_pass pr (word_state n False, word_state (Suc n) False, bo, c) =
      Again (word_state n False, word_state (Suc n) False, bo', c') \<and>
    quiet c' \<and> cval c' = word_state n True \<and> snoozing bo'"
  using many_incr_blocked [OF assms(1-3), of pr] snoozed_result [OF assms(4), of pr]
    snoozed_snoozing [OF assms(4), of pr]
  by (auto simp: blocking_ref_pass_def)

lemma blocking_get_ref_stuck:
  assumes "rc_ok rc n True N ws" "n < MAX_REFS"
  shows "blocking_get_ref pr rc = None"
proof -
  obtain c where ld: "load (count rc) = (word_state n True, c)" and c: "quiet c" "cval c = word_state n True"
    using assms(1) by (rule rc_ok_load)
  have "checked_add pr (word_state n False) REF_INCR = Inr (word_state (Suc n) False)"
    using checked_incr [of n pr] assms(2) by (simp add: incr_word_state)
  moreover have "run_loop (\<lambda>s. Some (blocking_ref_pass pr s))
      (word_state n False, word_state (Suc n) False, new_backoff, c) = None"
  proof (rule run_loop_diverges [where I = "\<lambda>(x, y, bo, c). x = word_state n False \<and> y = word_state (Suc n) False \<and>
      snoozing bo \<and> quiet c \<and> cval c = word_state n True"])
    show "case (word_state n False, word_state (Suc n) False, new_backoff, c) of (x, y, bo, c) \<Rightarrow>
        x = word_state n False \<and> y = word_state (Suc n) False \<and> snoozing bo \<and> quiet c \<and> cval c = word_state n True"
      using c by (simp add: snoozing_def new_backoff_def)
  qed (use blocking_ref_pass_blocked [OF _ _ assms(2), of _ _ pr] in fastforce)
  ultimately show ?thesis
    using assms(2) by (simp add: blocking_get_ref_def ld mask_word_state)
qed

lemma block_loop_stuck:
  assumes "rc_ok rc n True N ws"
  shows "blocking_get_exclusive_ref pr rc = None"
proof -
  have "run_loop (\<lambda>s. Some (block_pass pr s)) (new_backoff, rc) = None"
  proof (rule run_loop_diverges [where I = "\<lambda>(bo, rc). snoozing bo \<and> rc_ok rc n True N ws"])
    show "case (new_backoff, rc) of (bo, rc) \<Rightarrow> snoozing bo \<and> rc_ok rc n True N ws"
      using assms by (simp add: snoozing_def new_backoff_def)
  next
    fix s assume "case s of (bo, rc) \<Rightarrow> snoozing bo \<and> rc_ok rc n True N ws"
    then obtain bo p where s: "s = (bo, p)" "snoozing bo" "rc_ok p n True N ws" by auto
    obtain p' where p': "try_block_refs p = (False, p')" "rc_ok p' n True N ws"
      using try_block_refs_blocked [OF s(3)] by blast
    show "\<exists>s'. Some (block_pass pr s) = Some (Again s') \<and> (case s' of (bo, rc) \<Rightarrow> snoozing bo \<and> rc_ok rc n True N ws)"
      using p' s snoozed_result [OF s(2), of pr] snoozed_snoozing [OF s(2), of pr] by (auto simp: block_pass_def)
  qed
  then show ?thesis by (simp add: blocking_get_exclusive_ref_def)
qed

lemma quiesce_loop_stuck:
  assumes "rc_ok rc n b N ws" "0 < n" "snoozing bo"
  shows "run_loop (\<lambda>s. Some (quiesce_pass pr s)) (bo, rc) = None"
proof (rule run_loop_diverges [where I = "\<lambda>(bo, rc). snoozing bo \<and> rc_ok rc n b N ws"])
  fix s assume "case s of (bo, rc) \<Rightarrow> snoozing bo \<and> rc_ok rc n b N ws"
  then obtain bo p where s: "s = (bo, p)" "snoozing bo" "rc_ok p n b N ws" by auto
  obtain p' where p': "no_standard_refs p = (False, p')" "rc_ok p' n b N ws"
    using no_standard_refs_ok [OF s(3)] assms(2) by auto
  show "\<exists>s'. Some (quiesce_pass pr s) = Some (Again s') \<and> (case s' of (bo, rc) \<Rightarrow> snoozing bo \<and> rc_ok rc n b N ws)"
    using p' s snoozed_result [OF s(2), of pr] snoozed_snoozing [OF s(2), of pr] by (auto simp: quiesce_pass_def)
qed (use assms in simp)

text \<open>The loops end on an open lock: every failed round uses up entries of the environment.\<close>

lemma env_used:
  "length (cenv (snd (load c))) = length (cenv c) - 1"
  "compare_exchange_weak x y c = (r, c') \<Longrightarrow> length (cenv c') \<le> length (cenv c)"
  "try_block x y c = (a, c') \<Longrightarrow> length (cenv c') \<le> length (cenv c)"
  "try_last x y c = (a, c') \<Longrightarrow> length (cenv c') \<le> length (cenv c)"
  "try_incr pr x y c = (b, c') \<Longrightarrow> length (cenv c') \<le> length (cenv c)"
proof -
  show "length (cenv (snd (load c))) = length (cenv c) - 1"
    by (auto simp: load_def arrive_def split_beta split: list.split)
  have cas: "length (cenv c') \<le> length (cenv c)" if "compare_exchange_weak x y c = (r, c')"
    for x y c' r and c :: "u32 acell"
    using that by (auto simp: compare_exchange_weak_def arrive_def put_def split: list.splits prod.splits if_splits)
  then show "compare_exchange_weak x y c = (r, c') \<Longrightarrow> length (cenv c') \<le> length (cenv c)" .
  show "try_block x y c = (a, c') \<Longrightarrow> length (cenv c') \<le> length (cenv c)"
    using cas [of x y c] by (auto simp: try_block_def Let_def split: prod.splits sum.splits)
  show "try_last x y c = (a, c') \<Longrightarrow> length (cenv c') \<le> length (cenv c)"
    using cas [of x y c] by (auto simp: try_last_def split: prod.splits sum.splits)
  show "try_incr pr x y c = (b, c') \<Longrightarrow> length (cenv c') \<le> length (cenv c)"
    using cas [of x y c] by (auto simp: try_incr_def Let_def split: prod.splits sum.splits)
qed

lemma try_block_cell_uses:
  assumes "try_block_cell c = (ok, c')" "cenv c \<noteq> []"
  shows "length (cenv c') < length (cenv c)"
proof -
  obtain v c0 where ld: "load c = (v, c0)" by fastforce
  then have lt: "length (cenv c0) < length (cenv c)" using env_used(1) [of c] assms(2) by (cases "cenv c") auto
  show ?thesis
    using assms(1) lt by (auto simp: try_block_cell_def ld Let_def split: prod.splits attempt.splits
        dest!: env_used(3,4))
qed

lemma many_incr_uses:
  assumes "many_weak_try_incr_refs pr x y c = (r, c')"
  shows "length (cenv c') \<le> length (cenv c)"
  using assms by (auto simp: many_weak_try_incr_refs_def split: prod.splits sum.splits attempt.splits
      dest!: env_used(4,5))

lemma block_loop_ends:
  assumes "rc_ok rc n False N ws"
  shows "\<exists>r. run_loop (\<lambda>s. Some (block_pass pr s)) (new_backoff, rc) = Some r \<and>
    (\<exists>bo rc'. r = (Inr bo, rc') \<and> snoozing bo \<and> rc_ok rc' n True N ws)"
proof (rule run_loop_total [where I = "\<lambda>(bo, rc). snoozing bo \<and> rc_ok rc n False N ws"
      and m = "\<lambda>(bo, rc). length (cenv (count rc))"])
  fix s assume "case s of (bo, rc) \<Rightarrow> snoozing bo \<and> rc_ok rc n False N ws"
  then obtain bo p where s: "s = (bo, p)" "snoozing bo" "rc_ok p n False N ws" by auto
  obtain ok p' where p': "try_block_refs p = (ok, p')" "rc_ok p' n ok N ws"
    using try_block_refs_quiet [OF s(3)] by blast
  have "length (cenv (count p')) < length (cenv (count p))" if "\<not> ok"
  proof (cases "cenv (count p) = []")
    case True
    then have "steady (count p)" using s(3) by (simp add: steady_def rc_ok_def)
    with try_block_refs_free [OF s(3)] p'(1) that show ?thesis by auto
  next
    case False
    with p'(1) try_block_cell_uses [of "count p"] show ?thesis
      by (auto simp: try_block_refs_def split: prod.splits)
  qed
  with p' s snoozed_result [OF s(2), of pr] snoozed_snoozing [OF s(2), of pr]
  show "(\<exists>r. Some (block_pass pr s) = Some (Leave r) \<and>
        (\<exists>bo rc'. r = (Inr bo, rc') \<and> snoozing bo \<and> rc_ok rc' n True N ws)) \<or>
      (\<exists>s'. Some (block_pass pr s) = Some (Again s') \<and>
        (case s' of (bo, rc) \<Rightarrow> snoozing bo \<and> rc_ok rc n False N ws) \<and>
        (case s' of (bo, rc) \<Rightarrow> length (cenv (count rc))) < (case s of (bo, rc) \<Rightarrow> length (cenv (count rc))))"
    by (cases ok) (auto simp: block_pass_def)
qed (use assms in \<open>simp add: snoozing_def new_backoff_def\<close>)

lemma quiesce_loop_ends:
  assumes "rc_ok rc 0 b N ws"
  shows "\<exists>rc'. run_loop (\<lambda>s. Some (quiesce_pass pr s)) (bo, rc) = Some (Inr bo, rc') \<and> rc_ok rc' 0 b N ws"
proof -
  obtain rc' where "no_standard_refs rc = (True, rc')" "rc_ok rc' 0 b N ws"
    using no_standard_refs_ok [OF assms] by auto
  then show ?thesis by (auto simp: quiesce_pass_def intro!: run_loop_leave)
qed

lemma many_incr_uses_some:
  assumes "many_weak_try_incr_refs pr x y c = (Inr (Retry x' y'), c')" "cenv c \<noteq> []"
  shows "length (cenv c') < length (cenv c)"
proof -
  obtain r d where rd: "try_incr pr x y c = (r, d)" by fastforce
  have "length (cenv d) < length (cenv c)"
  proof -
    obtain e c1 where "compare_exchange_weak x y c = (e, c1)" by fastforce
    moreover from this have "length (cenv c1) < length (cenv c)"
      using assms(2) by (cases "cenv c") (auto simp: compare_exchange_weak_def arrive_def put_def split: prod.splits if_splits)
    ultimately show ?thesis using rd by (auto simp: try_incr_def Let_def split: sum.splits)
  qed
  moreover have "length (cenv c') \<le> length (cenv d)"
    using assms(1) rd by (auto simp: many_weak_try_incr_refs_def split: prod.splits sum.splits attempt.splits dest!: env_used(4,5))
  ultimately show ?thesis by simp
qed

lemma blocking_ref_loop_ends:
  assumes "quiet c" "cval c = word_state n False" "n < MAX_REFS"
  shows "\<exists>r. run_loop (\<lambda>s. Some (blocking_ref_pass pr s)) (word_state n False, word_state (Suc n) False, new_backoff, c) = Some r \<and>
    (\<exists>c'. r = (Inr Ref, c') \<and> quiet c' \<and> cval c' = word_state (Suc n) False)"
proof (rule run_loop_total [where I = "\<lambda>(x, y, bo, c). x = word_state n False \<and> y = word_state (Suc n) False \<and>
      snoozing bo \<and> quiet c \<and> cval c = word_state n False" and m = "\<lambda>(x, y, bo, c). length (cenv c)"])
  let ?I = "\<lambda>(x, y, bo, c). x = word_state n False \<and> y = word_state (Suc n) False \<and>
      snoozing bo \<and> quiet c \<and> cval c = word_state n False"
  fix s :: "u32 \<times> u32 \<times> backoff \<times> u32 acell" assume "?I s"
  then obtain bo d where s: "s = (word_state n False, word_state (Suc n) False, bo, d)" "snoozing bo"
    "quiet d" "cval d = word_state n False" by auto
  show "(\<exists>r. Some (blocking_ref_pass pr s) = Some (Leave r) \<and>
        (\<exists>c'. r = (Inr Ref, c') \<and> quiet c' \<and> cval c' = word_state (Suc n) False)) \<or>
      (\<exists>s'. Some (blocking_ref_pass pr s) = Some (Again s') \<and> ?I s' \<and>
        (case s' of (x, y, bo, c) \<Rightarrow> length (cenv c)) < (case s of (x, y, bo, c) \<Rightarrow> length (cenv c)))"
    using many_incr_quiet [OF s(3,4) assms(3), of pr]
  proof (elim disjE exE conjE)
    fix d' assume d': "many_weak_try_incr_refs pr (word_state n False) (word_state (Suc n) False) d =
        (Inr (Retry (word_state n False) (word_state (Suc n) False)), d')" "quiet d'" "cval d' = word_state n False"
    have "length (cenv d') < length (cenv d)"
    proof (cases "cenv d = []")
      case True
      with many_incr_free [OF s(3) _ s(4) assms(3), of pr] d'(1) show ?thesis by auto
    next
      case False
      with many_incr_uses_some [OF d'(1)] show ?thesis by simp
    qed
    with d' s snoozed_result [OF s(2), of pr] snoozed_snoozing [OF s(2), of pr] show ?thesis
      by (auto simp: blocking_ref_pass_def)
  qed (auto simp: blocking_ref_pass_def s(1))
qed (use assms in \<open>simp add: snoozing_def new_backoff_def\<close>)

section \<open>Any interference\<close>

text \<open>C25: whatever other threads do meanwhile, try_get_ref returns a reference exactly when it has made one
  write, which added one reference to an unblocked word; otherwise it has written nothing, and it
  panics only when a debug build finds the count at its maximum.\<close>

theorem reference_is_one_increment:
  assumes "try_get_ref pr rc = (r, rc')"
  shows "(r = Inr (Some Ref) \<and> (\<exists>w. incr_write pr w \<and> cown (count rc') = cown (count rc) @ [w])) \<or>
    (r = Inr None \<and> cown (count rc') = cown (count rc)) \<or>
    (r = Inl Overflow \<and> pr = Debug \<and> cown (count rc') = cown (count rc))"
proof -
  obtain a c where "try_incr_cell pr (count rc) = (a, c)" by fastforce
  with try_incr_cell_own [OF this] assms show ?thesis by (auto simp: try_get_ref_def)
qed

text \<open>Try_block_refs succeeds exactly by one write that sets the block bit of an unblocked word and
  keeps its count; a failure writes nothing.\<close>

theorem block_is_one_write:
  assumes "try_block_refs rc = (ok, rc')"
  shows "(ok \<and> (\<exists>w. block_write w \<and> cown (count rc') = cown (count rc) @ [w])) \<or>
    (\<not> ok \<and> cown (count rc') = cown (count rc))"
  using try_block_refs_own [OF assms] by blast

text \<open>C24: try_get_exclusive_ref grants the exclusive reference only after the one write that sets the block
  bit and a read of a word without references; when it gives up after the block, its second write is a
  store of REF_ALLOWED over whatever the word holds.\<close>

theorem exclusive_grant_writes:
  assumes "try_get_exclusive_ref pr rc m = Some (r, rc', m')"
  shows "(r = Inr (Some ExclusiveRef) \<and> refs_of (cval (count rc')) = 0 \<and>
            (\<exists>w. block_write w \<and> cown (count rc') = cown (count rc) @ [w])) \<or>
    (r = Inr None \<and> cown (count rc') = cown (count rc)) \<or>
    (r \<noteq> Inr (Some ExclusiveRef) \<and>
       (\<exists>w v. block_write w \<and> cown (count rc') = cown (count rc) @ [w, (v, REF_ALLOWED)]))"
  by (rule try_get_exclusive_ref_own [OF assms])

text \<open>A blocking call that returns has made one write: blocking_get_ref one increment of an unblocked
  word (or it has panicked in a debug build), blocking_get_exclusive_ref the block of an unblocked word,
  and the last word it read counted no references.\<close>

theorem blocking_grants_write_once:
  assumes "blocking_get_ref pr rc = Some (r, rc1)" "blocking_get_exclusive_ref pr rc = Some (x, rc2)"
  shows "((r = Inr Ref \<and> (\<exists>w. incr_write pr w \<and> cown (count rc1) = cown (count rc) @ [w])) \<or>
      (\<exists>e. r = Inl e \<and> pr = Debug \<and> cown (count rc1) = cown (count rc))) \<and>
    x = Inr ExclusiveRef \<and> refs_of (cval (count rc2)) = 0 \<and>
    (\<exists>w. block_write w \<and> cown (count rc2) = cown (count rc) @ [w])"
  using blocking_get_ref_own [OF assms(1)] blocking_get_exclusive_ref_own [OF assms(2)] by blast

section \<open>Unblocking\<close>

text \<open>C23: unblock_refs returns, wakes every queued waiter once in queue order, tells each future that it is
  not registered any more, empties the queue, and leaves a word that is open and counts nothing.\<close>

theorem unblock_wakes_everyone:
  assumes "rc_ok rc n b N ws" "\<forall>w \<in> set ws. alive m w"
  shows "\<exists>rc' m'. unblock_refs pr rc m = Some (Inr (), rc', m') \<and> woken m' = woken m @ map waker ws \<and>
    {w \<in> set ws. flags m' (registered w) \<noteq> Some False} = {} \<and> rc_ok rc' 0 False N []"
  using unblock_refs_ok [OF assms, of pr] by (fastforce simp: all_woken_def)

text \<open>A waiter whose future is gone makes unblock_refs write to freed memory.\<close>

theorem unblock_uses_freed_memory:
  assumes "rc_ok rc n b N ws" "w \<in> set ws" "\<not> alive m w"
  shows "\<exists>rc' m'. unblock_refs pr rc m = Some (Inl Undefined, rc', m')"
  using unblock_refs_dangling [OF assms(1)] assms(2,3) by blast

text \<open>C33: try_get_exclusive_ref with references alive returns nothing and forgets them: the word counts
  none afterwards, and dropping one of them wraps the count around to its maximum.\<close>

theorem give_up_forgets_references:
  assumes "rc_ok rc n False N ws" "steady (count rc)" "0 < n" "\<forall>w \<in> set ws. alive m w"
  shows "\<exists>rc'. try_get_exclusive_ref pr rc m = Some (Inr None, rc', all_woken ws m) \<and>
    rc_ok rc' 0 False N [] \<and> rc_ok (drop_ref Ref rc') MAX_REFS False N []"
  using try_get_exclusive_ref_in_use [OF assms, of pr] drop_ref_uncounted by blast

section \<open>Calls that nobody disturbs\<close>

text \<open>The try operations, undisturbed: on an open lock each does its one change and says so, on a blocked
  one each fails and changes nothing.\<close>

theorem try_operations:
  assumes "rc_ok rc n b N ws" "steady (count rc)" "n < MAX_REFS"
  shows "(\<exists>rc'. try_get_ref pr rc = (Inr (if b then None else Some Ref), rc') \<and>
      rc_ok rc' (if b then n else Suc n) b N ws) \<and>
    (\<exists>rc'. try_block_refs rc = (\<not> b, rc') \<and> rc_ok rc' n True N ws) \<and>
    (\<exists>rc'. b \<or> 0 < n \<or> try_get_exclusive_ref pr rc m = Some (Inr (Some ExclusiveRef), rc', m) \<and> rc_ok rc' 0 True N ws)"
proof (cases b)
  case True
  with assms have rc: "rc_ok rc n True N ws" by simp
  from try_get_ref_blocked [OF rc assms(3), of pr] try_block_refs_blocked [OF rc] True show ?thesis by simp
next
  case False
  with assms have rc: "rc_ok rc n False N ws" by simp
  have "n = 0 \<Longrightarrow> \<exists>rc'. try_get_exclusive_ref pr rc m = Some (Inr (Some ExclusiveRef), rc', m) \<and> rc_ok rc' 0 True N ws"
    using try_get_exclusive_ref_free [of rc N ws pr m] rc assms(2) by simp
  with try_get_ref_free [OF rc assms(2,3), of pr] try_block_refs_free [OF rc assms(2)] False show ?thesis
    by (cases "n = 0") simp_all
qed

text \<open>Undisturbed, blocking_get_ref returns a reference from an open lock, however often its exchanges
  fail spuriously, and never returns from a blocked one.\<close>

theorem blocking_get_ref_returns:
  assumes "rc_ok rc n b N ws" "n < MAX_REFS"
  shows "if b then blocking_get_ref pr rc = None
    else \<exists>rc'. blocking_get_ref pr rc = Some (Inr Ref, rc') \<and> rc_ok rc' (Suc n) False N ws"
proof (cases b)
  case True
  with assms blocking_get_ref_stuck show ?thesis by simp
next
  case False
  with assms have rc: "rc_ok rc n False N ws" by simp
  then obtain c where ld: "load (count rc) = (word_state n False, c)" and c: "quiet c" "cval c = word_state n False"
    by (rule rc_ok_load)
  have add: "checked_add pr (word_state n False) REF_INCR = Inr (word_state (Suc n) False)"
    using checked_incr [of n pr] assms(2) by (simp add: incr_word_state)
  obtain c' where "run_loop (\<lambda>s. Some (blocking_ref_pass pr s))
      (word_state n False, word_state (Suc n) False, new_backoff, c) = Some (Inr Ref, c')"
    "quiet c'" "cval c' = word_state (Suc n) False"
    using blocking_ref_loop_ends [OF c assms(2), of pr] by blast
  moreover from rc_okI [OF rc this(2,3)] assms(2) have "rc_ok (rc\<lparr>count := c'\<rparr>) (Suc n) False N ws" by simp
  ultimately show ?thesis
    using False assms(2) by (simp add: blocking_get_ref_def ld mask_word_state add)
qed

text \<open>Undisturbed, blocking_get_exclusive_ref returns the exclusive reference if the lock is open and
  counts no references, and otherwise never returns: the deadlocks its documentation warns of.\<close>

theorem blocking_get_exclusive_ref_returns:
  assumes "rc_ok rc n b N ws"
  shows "if b \<or> 0 < n then blocking_get_exclusive_ref pr rc = None
    else \<exists>rc'. blocking_get_exclusive_ref pr rc = Some (Inr ExclusiveRef, rc') \<and> rc_ok rc' 0 True N ws"
proof (cases b)
  case True
  with assms block_loop_stuck show ?thesis by simp
next
  case False
  with block_loop_ends [of rc n N ws pr] assms obtain bo rc1
    where rc1: "run_loop (\<lambda>s. Some (block_pass pr s)) (new_backoff, rc) = Some (Inr bo, rc1)"
      "snoozing bo" "rc_ok rc1 n True N ws" by auto
  show ?thesis
  proof (cases "0 < n")
    case True
    with rc1 quiesce_loop_stuck [OF rc1(3) True rc1(2), of pr] show ?thesis
      by (simp add: blocking_get_exclusive_ref_def)
  next
    case no: False
    with rc1(3) quiesce_loop_ends [of rc1 True N ws pr bo] obtain rc2
      where "run_loop (\<lambda>s. Some (quiesce_pass pr s)) (bo, rc1) = Some (Inr bo, rc2)" "rc_ok rc2 0 True N ws" by auto
    with rc1(1) False no show ?thesis by (simp add: blocking_get_exclusive_ref_def)
  qed
qed

text \<open>Every observer reads the word as the number of references and the block bit, and none can panic or
  be undefined; ref_count counts a blocked state as one more reference.\<close>

theorem observers_read_the_word:
  assumes "rc_ok rc n b N ws"
  shows "fst (ref_total pr rc) = Inr (word_of_nat (n + of_bool b)) \<and>
    fst (no_refs pr rc) = Inr (n = 0 \<and> \<not> b) \<and> fst (std_ref_count rc) = word_of_nat n \<and>
    fst (no_standard_refs rc) = (n = 0) \<and> fst (is_blocked rc) = b \<and> fst (is_allowed rc) = (\<not> b) \<and>
    fst (state rc) = Inr (if b then Blocked else Allowed)"
proof -
  obtain c where ld: "load (count rc) = (word_state n b, c)" and n: "n \<le> MAX_REFS"
    using assms by (rule rc_ok_load)
  have small: "n + of_bool b < 2 ^ 32" using n by (cases b) (simp_all add: MAX_REFS_def)
  have un: "unat (word_of_nat n :: u32) = n" using n by (simp only: unat_of_nat MAX_REFS_def) simp
  have total: "checked_add pr (word_of_nat n) (of_bool b :: u32) = Inr (word_of_nat (n + of_bool b))"
    using small un by (cases b) (simp_all add: arith_ok)
  have "(word_of_nat (n + of_bool b) :: u32) = 0 \<longleftrightarrow> n = 0 \<and> \<not> b"
  proof -
    have "unat (word_of_nat (n + of_bool b) :: u32) = n + of_bool b"
      using small by (simp only: unat_of_nat) simp
    then show ?thesis by (cases b) (auto simp: unat_eq_0 [symmetric] simp del: of_nat_add)
  qed
  moreover have "from_raw (of_bool b) = Inr (if b then Blocked else Allowed)"
    by (cases b) (simp_all add: from_raw_def transmute_state_def discriminant_def block_state_def STATE_MASK_def)
  ultimately show ?thesis
    using ld n total un by (cases b) (auto simp: ref_total_def no_refs_def std_ref_count_def no_standard_refs_def is_blocked_def is_allowed_def
        state_def raw_state_def load_count_def word_pair standard_ref_count_eq_0)
qed

text \<open>C38: at the largest count the next reference panics in a debug build; in a release build it is granted
  and the count wraps around to no references.\<close>

theorem count_overflow:
  "fst (try_get_ref Debug (rc\<lparr>count := new_cell (word_state MAX_REFS False)\<rparr>)) = Inl Overflow \<and>
   fst (try_get_ref Release (rc\<lparr>count := new_cell (word_state MAX_REFS False)\<rparr>)) = Inr (Some Ref) \<and>
   cval (count (snd (try_get_ref Release (rc\<lparr>count := new_cell (word_state MAX_REFS False)\<rparr>)))) = word_state 0 False"
proof -
  have ld: "load (new_cell w) = (w, new_cell w)" for w :: u32
    by (simp add: load_def arrive_def new_cell_def)
  have "checked_add Debug (word_state MAX_REFS False) REF_INCR = Inl Overflow"
    using checked_incr [of MAX_REFS Debug] by simp
  moreover have "compare_exchange_weak w v (new_cell w) = (Inr w, put v (new_cell w))" for v w :: u32
    by (simp add: compare_exchange_weak_def arrive_def new_cell_def)
  ultimately show ?thesis
    by (simp add: try_get_ref_def try_incr_cell_def ld mask_word_state incr_word_state word_state_wraps
        many_weak_try_incr_refs_def try_incr_def)
qed

section \<open>Polls\<close>

text \<open>A poll of a FutureRef, undisturbed: blocked, it is pending and registered once (or, with the queue
  full, woken to try again); open, it either gets its reference or is pending and woken. It never faults.\<close>

theorem poll_reference:
  assumes "rc_ok rc n b N ws" "n < MAX_REFS" "flags m (ref_flag fut) = Some r"
  shows "\<exists>res rc' m'. poll_future_ref pr cx fut rc m = Some (Inr res, rc', m') \<and>
    (if b then res = Pending \<and> m' = snd (registering (ref_flag fut) cx N ws m) \<and>
        rc_ok rc' n True N (fst (registering (ref_flag fut) cx N ws m))
     else res = Poll_Ready Ref \<and> m' = m \<and> rc_ok rc' (Suc n) False N ws \<or>
        res = Pending \<and> m' = wake_task cx m \<and> rc_ok rc' n False N ws)"
proof (cases b)
  case True
  with assms(1) have "rc_ok rc n True N ws" by simp
  from poll_ref_blocked [OF this assms(3), of pr cx] True show ?thesis by auto
next
  case False
  with assms(1) have "rc_ok rc n False N ws" by simp
  from poll_ref_free [OF this assms(2), of pr cx fut m] False show ?thesis by auto
qed

text \<open>C32: a poll of a FutureExclusiveRef, undisturbed, in each of its phases. Before the block is set: blocked by someone else, it
  registers as above and is pending; on an open word, if the exchanges of its try_block_refs succeed (as they do but for spurious failures),
  it sets the block and frees its registration flag for good, and if they fail it is pending and woken. From the moment the block is set, in that poll
  and in every later one, it looks at the count: ready exactly if there are no references, otherwise pending and woken.\<close>

theorem poll_exclusive:
  assumes "rc_ok rc n b N ws" "\<forall>inner \<in> set_option (blocked_fut fut). flags m (blocked_flag inner) \<noteq> None"
  shows "(steady (count rc) \<longrightarrow> fst (try_block_refs rc) = (\<not> b)) \<and>
    (\<exists>res fut' rc' m'. poll_future_exclusive_ref pr cx fut rc m = Some (Inr res, fut', rc', m') \<and>
      (case blocked_fut fut of
         None \<Rightarrow> fut' = fut \<and> rc_ok rc' n b N ws \<and>
           (if n = 0 then res = Poll_Ready ExclusiveRef \<and> m' = m else res = Pending \<and> m' = wake_task cx m)
       | Some inner \<Rightarrow>
           if b then res = Pending \<and> fut' = fut \<and> m' = snd (registering (blocked_flag inner) cx N ws m) \<and>
             rc_ok rc' n True N (fst (registering (blocked_flag inner) cx N ws m))
           else if fst (try_block_refs rc) then
             fut' = fut\<lparr>blocked_fut := None\<rparr> \<and> rc_ok rc' n True N ws \<and>
             (if n = 0 then res = Poll_Ready ExclusiveRef \<and> m' = free_flag (blocked_flag inner) m
              else res = Pending \<and> m' = wake_task cx (free_flag (blocked_flag inner) m))
           else res = Pending \<and> fut' = fut \<and> rc_ok rc' n False N ws \<and> m' = wake_task cx m))"
proof
  show "steady (count rc) \<longrightarrow> fst (try_block_refs rc) = (\<not> b)"
    using try_block_refs_free [of rc n N ws] try_block_refs_blocked [of rc n N ws] assms(1) by (cases b) auto
  show "\<exists>res fut' rc' m'. poll_future_exclusive_ref pr cx fut rc m = Some (Inr res, fut', rc', m') \<and>
      (case blocked_fut fut of
         None \<Rightarrow> fut' = fut \<and> rc_ok rc' n b N ws \<and>
           (if n = 0 then res = Poll_Ready ExclusiveRef \<and> m' = m else res = Pending \<and> m' = wake_task cx m)
       | Some inner \<Rightarrow>
           if b then res = Pending \<and> fut' = fut \<and> m' = snd (registering (blocked_flag inner) cx N ws m) \<and>
             rc_ok rc' n True N (fst (registering (blocked_flag inner) cx N ws m))
           else if fst (try_block_refs rc) then
             fut' = fut\<lparr>blocked_fut := None\<rparr> \<and> rc_ok rc' n True N ws \<and>
             (if n = 0 then res = Poll_Ready ExclusiveRef \<and> m' = free_flag (blocked_flag inner) m
              else res = Pending \<and> m' = wake_task cx (free_flag (blocked_flag inner) m))
           else res = Pending \<and> fut' = fut \<and> rc_ok rc' n False N ws \<and> m' = wake_task cx m)"
  proof (cases "blocked_fut fut")
    case None
    from poll_excl_check [OF assms(1) None, of pr cx m] None show ?thesis by (cases "n = 0") (auto simp: checked_def)
  next
    case (Some inner)
    with assms(2) obtain r where r: "flags m (blocked_flag inner) = Some r" by auto
    show ?thesis
    proof (cases b)
      case True
      with assms(1) have "rc_ok rc n True N ws" by simp
      from poll_excl_blocked [OF this Some r, of pr cx] True Some show ?thesis by auto
    next
      case False
      with assms(1) have rc: "rc_ok rc n False N ws" by simp
      from try_block_refs_quiet [OF rc] obtain ok rc1 where rc1: "try_block_refs rc = (ok, rc1)" "rc_ok rc1 n ok N ws" by blast
      from no_standard_refs_ok [OF rc1(2)] is_blocked_ok [OF rc1(2)] rc1 False Some show ?thesis
        by (cases ok; cases "n = 0") (auto simp: poll_future_exclusive_ref_def poll_future_blocked_refs_def)
    qed
  qed
qed

section \<open>Witnesses\<close>

text \<open>A new \<open>RefCount<2>\<close>, one with a reference, and one that is blocked with a waiter queued.\<close>

lemma new_two:
  obtains rc where "rc_ok rc 0 False 2 []" "steady (count rc)"
  using new_ref_count_ok [of 2 Debug] by force

lemma used_two:
  obtains rc where "rc_ok rc 1 False 2 []" "steady (count rc)"
proof (rule new_two)
  fix rc assume "rc_ok rc 0 False 2 []"
  then have "rc_ok (rc\<lparr>count := new_cell (word_state 1 False)\<rparr>) 1 False 2 []"
    by (simp add: rc_ok_def quiet_cell MAX_REFS_def)
  then show thesis by (rule that) (simp add: steady_def quiet_cell)
qed

definition one_future :: memory where
  "one_future = \<lparr>flags = [7 \<mapsto> False], woken = []\<rparr>"

lemma waiting_two:
  obtains rc where "rc_ok rc 0 True 2 [new_waiter 3 7]"
proof (rule new_two)
  fix rc assume "rc_ok rc 0 False 2 []" "steady (count rc)"
  then obtain rc1 where "rc_ok rc1 0 True 2 []" using try_block_refs_free by blast
  from register_room [OF this, of one_future 7] show thesis
    using that by (auto simp: one_future_def)
qed

theorem reference_is_one_increment_witness:
  "\<exists>rc rc' w. try_get_ref Debug rc = (Inr (Some Ref), rc') \<and> incr_write Debug w \<and>
     cown (count rc') = cown (count rc) @ [w]"
proof (rule new_two)
  fix rc assume "rc_ok rc 0 False 2 []" "steady (count rc)"
  then obtain rc' where "try_get_ref Debug rc = (Inr (Some Ref), rc')"
    using try_get_ref_free [of rc 0 2 "[]" Debug] by (auto simp: MAX_REFS_def)
  moreover from reference_is_one_increment [OF this] obtain w
    where "incr_write Debug w" "cown (count rc') = cown (count rc) @ [w]" by auto
  ultimately show ?thesis by blast
qed

theorem block_is_one_write_witness:
  "\<exists>rc rc' w. try_block_refs rc = (True, rc') \<and> block_write w \<and> cown (count rc') = cown (count rc) @ [w]"
proof (rule new_two)
  fix rc assume "rc_ok rc 0 False 2 []" "steady (count rc)"
  then obtain rc' where "try_block_refs rc = (True, rc')" using try_block_refs_free by blast
  with block_is_one_write [OF this] show ?thesis by blast
qed

theorem exclusive_grant_writes_witness:
  "\<exists>rc rc'. try_get_exclusive_ref Debug rc one_future = Some (Inr (Some ExclusiveRef), rc', one_future) \<and>
     refs_of (cval (count rc')) = 0"
proof (rule new_two)
  fix rc assume "rc_ok rc 0 False 2 []" "steady (count rc)"
  then obtain rc' where "try_get_exclusive_ref Debug rc one_future = Some (Inr (Some ExclusiveRef), rc', one_future)"
    using try_get_exclusive_ref_free by blast
  with exclusive_grant_writes [OF this] show ?thesis by auto
qed

theorem blocking_grants_write_once_witness:
  "\<exists>rc rc1 rc2 w v. blocking_get_ref Debug rc = Some (Inr Ref, rc1) \<and> incr_write Debug w \<and>
     cown (count rc1) = cown (count rc) @ [w] \<and> blocking_get_exclusive_ref Debug rc = Some (Inr ExclusiveRef, rc2) \<and>
     block_write v \<and> cown (count rc2) = cown (count rc) @ [v]"
proof (rule new_two)
  fix rc assume rc: "rc_ok rc 0 False 2 []"
  obtain rc1 rc2 where "blocking_get_ref Debug rc = Some (Inr Ref, rc1)"
    "blocking_get_exclusive_ref Debug rc = Some (Inr ExclusiveRef, rc2)"
  proof -
    obtain c where ld: "load (count rc) = (word_state 0 False, c)" and c: "quiet c" "cval c = word_state 0 False"
      using rc by (rule rc_ok_load)
    have "checked_add Debug (word_state 0 False) REF_INCR = Inr (word_state (Suc 0) False)"
      using checked_incr [of 0 Debug] by (simp add: incr_word_state MAX_REFS_def)
    with ld blocking_ref_loop_ends [OF c, of Debug] have "\<exists>rc1. blocking_get_ref Debug rc = Some (Inr Ref, rc1)"
      by (auto simp: blocking_get_ref_def mask_word_state MAX_REFS_def)
    moreover obtain bo p where "run_loop (\<lambda>s. Some (block_pass Debug s)) (new_backoff, rc) = Some (Inr bo, p)"
      "rc_ok p 0 True 2 []"
      using block_loop_ends [OF rc, of Debug] by blast
    with quiesce_loop_ends [of p True 2 "[]" Debug bo]
    have "\<exists>rc2. blocking_get_exclusive_ref Debug rc = Some (Inr ExclusiveRef, rc2)"
      by (auto simp: blocking_get_exclusive_ref_def)
    ultimately show thesis using that by blast
  qed
  with blocking_grants_write_once [OF this] show ?thesis by blast
qed

theorem unblock_wakes_everyone_witness:
  "\<exists>rc rc' m'. unblock_refs Debug rc one_future = Some (Inr (), rc', m') \<and> woken m' = [3] \<and> rc_ok rc' 0 False 2 []"
proof (rule waiting_two)
  fix rc assume rc: "rc_ok rc 0 True 2 [new_waiter 3 7]"
  have "\<forall>w \<in> set [new_waiter 3 7]. alive one_future w" by (simp add: alive_def new_waiter_def one_future_def)
  from unblock_wakes_everyone [OF rc this, of Debug] show ?thesis by (auto simp: one_future_def new_waiter_def)
qed

theorem unblock_uses_freed_memory_witness:
  "\<exists>rc rc' m'. rc_ok rc 0 True 2 [new_waiter 3 7] \<and>
     unblock_refs Release rc (free_flag 7 one_future) = Some (Inl Undefined, rc', m')"
proof (rule waiting_two)
  fix rc assume rc: "rc_ok rc 0 True 2 [new_waiter 3 7]"
  have "\<not> alive (free_flag 7 one_future) (new_waiter 3 7)" by (simp add: alive_def new_waiter_def free_flag_def)
  from unblock_uses_freed_memory [OF rc _ this, of Release] rc show ?thesis by auto
qed

theorem give_up_forgets_references_witness:
  "\<exists>rc rc'. rc_ok rc 1 False 2 [] \<and> try_get_exclusive_ref Debug rc one_future = Some (Inr None, rc', one_future) \<and>
     rc_ok (drop_ref Ref rc') MAX_REFS False 2 []"
proof (rule used_two)
  fix rc assume rc: "rc_ok rc 1 False 2 []" "steady (count rc)"
  from give_up_forgets_references [OF rc, of one_future Debug] rc(1) show ?thesis by auto
qed

theorem try_operations_witness:
  "\<exists>rc rc'. rc_ok rc 1 False 2 [] \<and> try_get_ref Debug rc = (Inr (Some Ref), rc') \<and> rc_ok rc' 2 False 2 []"
proof (rule used_two)
  fix rc assume rc: "rc_ok rc 1 False 2 []" "steady (count rc)"
  have "1 < MAX_REFS" by (simp add: MAX_REFS_def)
  from try_operations [OF rc this, of Debug] rc(1) show ?thesis by (auto simp: numeral_2_eq_2)
qed

theorem blocking_get_ref_returns_witness:
  "(\<exists>rc rc'. rc_ok rc 1 False 2 [] \<and> blocking_get_ref Debug rc = Some (Inr Ref, rc')) \<and>
   (\<exists>rc. rc_ok rc 0 True 2 [new_waiter 3 7] \<and> blocking_get_ref Debug rc = None)"
proof
  show "\<exists>rc rc'. rc_ok rc 1 False 2 [] \<and> blocking_get_ref Debug rc = Some (Inr Ref, rc')"
  proof (rule used_two)
    fix rc assume rc: "rc_ok rc 1 False 2 []"
    from blocking_get_ref_returns [OF rc, of Debug] rc show ?thesis by (auto simp: MAX_REFS_def)
  qed
  show "\<exists>rc. rc_ok rc 0 True 2 [new_waiter 3 7] \<and> blocking_get_ref Debug rc = None"
  proof (rule waiting_two)
    fix rc assume rc: "rc_ok rc 0 True 2 [new_waiter 3 7]"
    from blocking_get_ref_returns [OF rc, of Debug] rc show ?thesis by (auto simp: MAX_REFS_def)
  qed
qed

theorem blocking_get_exclusive_ref_returns_witness:
  "(\<exists>rc. rc_ok rc 1 False 2 [] \<and> blocking_get_exclusive_ref Debug rc = None) \<and>
   (\<exists>rc rc'. blocking_get_exclusive_ref Debug rc = Some (Inr ExclusiveRef, rc') \<and> rc_ok rc' 0 True 2 [])"
proof
  show "\<exists>rc. rc_ok rc 1 False 2 [] \<and> blocking_get_exclusive_ref Debug rc = None"
  proof (rule used_two)
    fix rc assume rc: "rc_ok rc 1 False 2 []"
    from blocking_get_exclusive_ref_returns [OF rc, of Debug] rc show ?thesis by auto
  qed
  show "\<exists>rc rc'. blocking_get_exclusive_ref Debug rc = Some (Inr ExclusiveRef, rc') \<and> rc_ok rc' 0 True 2 []"
  proof (rule new_two)
    fix rc assume rc: "rc_ok rc 0 False 2 []"
    from blocking_get_exclusive_ref_returns [OF rc, of Debug] show ?thesis by auto
  qed
qed

theorem observers_read_the_word_witness:
  "\<exists>rc. fst (ref_total Debug rc) = Inr 1 \<and> fst (is_blocked rc) \<and> fst (no_standard_refs rc)"
proof (rule waiting_two)
  fix rc assume rc: "rc_ok rc 0 True 2 [new_waiter 3 7]"
  from observers_read_the_word [OF rc, of Debug] show ?thesis by auto
qed

theorem poll_reference_witness:
  "\<exists>rc rc' m'. poll_future_ref Debug 3 \<lparr>ref_flag = 7\<rparr> rc one_future = Some (Inr Pending, rc', m') \<and>
     rc_ok rc' 0 True 2 [new_waiter 3 7, new_waiter 3 7] \<and> flags m' 7 = Some True"
proof (rule waiting_two)
  fix rc assume rc: "rc_ok rc 0 True 2 [new_waiter 3 7]"
  let ?m = "one_future\<lparr>flags := (flags one_future)(7 \<mapsto> True)\<rparr>"
  have "snd (registering 7 3 2 [new_waiter 3 7] one_future) = ?m"
    "fst (registering 7 3 2 [new_waiter 3 7] one_future) = [new_waiter 3 7, new_waiter 3 7]"
    by (simp_all add: registering_def one_future_def)
  with poll_reference [OF rc, of one_future "\<lparr>ref_flag = 7\<rparr>" False Debug 3]
  obtain rc' where "poll_future_ref Debug 3 \<lparr>ref_flag = 7\<rparr> rc one_future = Some (Inr Pending, rc', ?m)"
    "rc_ok rc' 0 True 2 [new_waiter 3 7, new_waiter 3 7]" by (auto simp: one_future_def MAX_REFS_def)
  moreover have "flags ?m 7 = Some True" by simp
  ultimately show ?thesis by blast
qed

theorem poll_exclusive_witness:
  "\<exists>rc fut' rc' m'. poll_future_exclusive_ref Debug 3 \<lparr>blocked_fut = Some \<lparr>blocked_flag = 7\<rparr>\<rparr> rc one_future =
     Some (Inr Pending, fut', rc', m') \<and> flags m' 7 = Some True"
proof (rule waiting_two)
  fix rc assume rc: "rc_ok rc 0 True 2 [new_waiter 3 7]"
  let ?m = "one_future\<lparr>flags := (flags one_future)(7 \<mapsto> True)\<rparr>" and ?f = "\<lparr>blocked_fut = Some \<lparr>blocked_flag = 7\<rparr>\<rparr>"
  have "snd (registering 7 3 2 [new_waiter 3 7] one_future) = ?m"
    by (simp add: registering_def one_future_def)
  with poll_exclusive [OF rc, where fut = ?f and m = one_future and pr = Debug and cx = 3]
  obtain rc' where "poll_future_exclusive_ref Debug 3 ?f rc one_future = Some (Inr Pending, ?f, rc', ?m)"
    by (auto simp: one_future_def)
  moreover have "flags ?m 7 = Some True" by simp
  ultimately show ?thesis by blast
qed

end
