(* ===== verification/Lock_Spec.thy ===== *)
theory Lock_Spec
  imports Transition
begin

text \<open>
  What \<open>RefCount\<close> promises (the documentation of \<open>src/lib.rs\<close>), as an abstract
  transition system: a reader-writer lock. \<open>shut\<close> is the block; a new reader gets in only
  while it is open, one task at a time owns the block, the owner is granted exclusive access
  once no reader is left, and only the owner opens the lock again, with no reader inside. An
  owner that is lost leaves the lock shut.
\<close>

record lock =
  readers :: "nat set"
  owner :: "nat option"
  granted :: bool
  shut :: bool

definition lock_init :: "lock \<Rightarrow> bool" where
  "lock_init l \<longleftrightarrow> l = \<lparr>readers = {}, owner = None, granted = False, shut = False\<rparr>"

inductive lock_step :: "lock \<Rightarrow> lock \<Rightarrow> bool" where
  enter: "\<not> shut l \<Longrightarrow> t \<notin> readers l \<Longrightarrow> lock_step l (l\<lparr>readers := insert t (readers l)\<rparr>)"
| leave: "t \<in> readers l \<Longrightarrow> lock_step l (l\<lparr>readers := readers l - {t}\<rparr>)"
| block: "\<not> shut l \<Longrightarrow> lock_step l (l\<lparr>owner := Some t, shut := True\<rparr>)"
| grant: "owner l = Some t \<Longrightarrow> readers l = {} \<Longrightarrow> lock_step l (l\<lparr>granted := True\<rparr>)"
| unblock: "owner l = Some t \<Longrightarrow> readers l = {} \<Longrightarrow>
    lock_step l (l\<lparr>owner := None, granted := False, shut := False\<rparr>)"
| abandon: "owner l = Some t \<Longrightarrow> lock_step l (l\<lparr>owner := None, granted := False\<rparr>)"

definition lock_ok :: "lock \<Rightarrow> bool" where
  "lock_ok l \<longleftrightarrow> (owner l \<noteq> None \<longrightarrow> shut l) \<and> (granted l \<longrightarrow> owner l \<noteq> None \<and> readers l = {})"

interpretation lock: invariant_system lock_init lock_step lock_ok
  by unfold_locales (auto simp: lock_init_def lock_ok_def elim: lock_step.cases)

end
