(* ===== verification/Ref_Protocol.thy ===== *)
theory Ref_Protocol
  imports Futures Lock_Spec
begin

text \<open>
  The operations of \<open>RefCount\<close> under preemption. Any number of tasks run on one
  \<open>RefCount\<close>; a step is one access of one task to the count, to the waiter queue, to a
  \<open>registered\<close> flag or to a waker, so every interleaving at the granularity of the code's
  atomic operations is a run. An access to the count is the one of \<open>Ref_Count\<close>: the step
  runs \<open>try_incr\<close>, \<open>try_block\<close>, \<open>load\<close>, \<open>store\<close> or \<open>fetch_sub\<close> on the shared
  word. The waiter queue is a bounded FIFO list, one push or pop a step (\<open>Queue_Fifo\<close>).

  A task has at most one handle or future at a time, so a thread that holds several handles
  is several tasks. The future of task \<open>t\<close> has its flag at address \<open>t\<close>.
\<close>

section \<open>Program points\<close>

datatype operation =
    Op_try_get_ref | Op_get_ref | Op_blocking_get_ref
  | Op_try_block_refs | Op_block_refs
  | Op_try_get_exclusive_ref | Op_get_exclusive_ref | Op_blocking_get_exclusive_ref

text \<open>What a pending future waits for; \<open>Await_Free\<close> is a \<open>FutureExclusiveRef\<close> that
  has set the block and has no inner future any more.\<close>

datatype await = Await_Ref | Await_Block | Await_Excl | Await_Free

text \<open>The caller of the increments and of \<open>try_block_refs\<close>: an operation or a poll.\<close>

datatype caller = Op operation | Poll_Of await

datatype point =
    Idle
  | Incr_Load caller                    \<comment> \<open>the first load of the increments\<close>
  | Incr_Cas caller nat u32 u32         \<comment> \<open>exchange number 0 to 3, expected, next\<close>
  | Block_Load caller
  | Block_Cas caller nat u32 u32
  | Quiesce_Try nat                     \<comment> \<open>\<open>no_standard_refs\<close> of \<open>try_get_exclusive_ref\<close>, rounds left after it\<close>
  | Quiesce_Get
  | Quiesce_Blocking
  | Quiesce_Poll
  | Give_Up                             \<comment> \<open>about to unblock at the end of \<open>try_get_exclusive_ref\<close>\<close>
  | Has_Ref | Has_Block | Has_Excl
  | First_Pop | Drain                   \<comment> \<open>the two \<open>pop\<close>s of \<open>unblock_refs\<close>, before and in the loop\<close>
  | Clear_Flag nat | Wake_Up nat        \<comment> \<open>\<open>Waiter::wake\<close> of what they return\<close>
  | New_Future await
  | Check_Blocked await | Test_Flag await | Enqueue await | Set_Flag await | Clear_Own await | Wake_Self await
  | Parked await
  | Crashed fault

section \<open>One access to the count\<close>

definition incr_failed :: "caller \<Rightarrow> u32 \<Rightarrow> u32 \<Rightarrow> point" where
  "incr_failed g cur next = (case g of
     Poll_Of a \<Rightarrow> Wake_Self a
   | Op opn \<Rightarrow> (case opn of
       Op_get_ref \<Rightarrow> New_Future Await_Ref
     | Op_blocking_get_ref \<Rightarrow> Incr_Cas g 0 cur next
     | _ \<Rightarrow> Idle))"

definition block_done :: "caller \<Rightarrow> point" where
  "block_done g = (case g of
     Poll_Of a \<Rightarrow> (if a = Await_Excl then Quiesce_Poll else Has_Block)
   | Op opn \<Rightarrow> (case opn of
       Op_try_get_exclusive_ref \<Rightarrow> Quiesce_Try 4
     | Op_get_exclusive_ref \<Rightarrow> Quiesce_Get
     | Op_blocking_get_exclusive_ref \<Rightarrow> Quiesce_Blocking
     | _ \<Rightarrow> Has_Block))"

definition block_failed :: "caller \<Rightarrow> point" where
  "block_failed g = (case g of
     Poll_Of a \<Rightarrow> Check_Blocked a
   | Op opn \<Rightarrow> (case opn of
       Op_block_refs \<Rightarrow> New_Future Await_Block
     | Op_get_exclusive_ref \<Rightarrow> New_Future Await_Excl
     | Op_blocking_get_exclusive_ref \<Rightarrow> Block_Load g
     | _ \<Rightarrow> Idle))"

text \<open>The next access of a task whose next access is to the count.\<close>

definition quiesced :: "point \<Rightarrow> u32 acell \<Rightarrow> point \<times> u32 acell" where
  "quiesced otherwise c =
     (let (s, c) = load c in (if standard_ref_count s = 0 then Has_Excl else otherwise, c))"

fun access :: "profile \<Rightarrow> point \<Rightarrow> u32 acell \<Rightarrow> point \<times> u32 acell" where
  "access pr (Incr_Load g) c =
     (let (s, c) = load c; cur = s AND REF_COUNT_MASK in
      case checked_add pr cur REF_INCR of Inl e \<Rightarrow> (Crashed e, c) | Inr next \<Rightarrow> (Incr_Cas g 0 cur next, c))"
| "access pr (Incr_Cas g i cur next) c =
     (if i < 3 then
        (case try_incr pr cur next c of (r, c) \<Rightarrow>
         (case r of
            Inl e \<Rightarrow> Crashed e
          | Inr Done \<Rightarrow> Has_Ref
          | Inr (Retry cur next) \<Rightarrow> Incr_Cas g (Suc i) cur next, c))
      else
        (case try_last cur next c of (r, c) \<Rightarrow>
         (case r of Done \<Rightarrow> Has_Ref | Retry cur next \<Rightarrow> incr_failed g cur next, c)))"
| "access pr (Block_Load g) c =
     (let (s, c) = load c; cur = s AND REF_COUNT_MASK; next = cur OR REF_BLOCKED in
      (Block_Cas g 0 cur next, c))"
| "access pr (Block_Cas g i cur next) c =
     (if i < 3 then
        (case try_block cur next c of (r, c) \<Rightarrow>
         (case r of Done \<Rightarrow> block_done g | Retry cur next \<Rightarrow> Block_Cas g (Suc i) cur next, c))
      else
        (case try_last cur next c of (r, c) \<Rightarrow>
         (case r of Done \<Rightarrow> block_done g | Retry _ _ \<Rightarrow> block_failed g, c)))"
| "access pr (Quiesce_Try i) c =
     quiesced (case i of 0 \<Rightarrow> Give_Up | Suc j \<Rightarrow> Quiesce_Try j) c"
| "access pr Quiesce_Get c = quiesced (New_Future Await_Free) c"
| "access pr Quiesce_Blocking c = quiesced Quiesce_Blocking c"
| "access pr Quiesce_Poll c = quiesced (Wake_Self Await_Free) c"
| "access pr (Check_Blocked a) c =
     (let (s, c) = load c in
      (if block_state s = 1 then Test_Flag a
       else if a = Await_Ref then Incr_Load (Poll_Of a)
       else Wake_Self a, c))"
| "access pr Has_Ref c = (Idle, snd (fetch_sub REF_INCR c))"
| "access pr Has_Block c = (First_Pop, store REF_ALLOWED c)"
| "access pr Has_Excl c = (First_Pop, store REF_ALLOWED c)"
| "access pr Give_Up c = (First_Pop, store REF_ALLOWED c)"
| "access pr p c = (p, c)"

section \<open>One step of a task\<close>

record world =
  count_word :: u32
  waiting :: "nat list"
  flag :: "nat \<Rightarrow> bool option"
  wakes :: "nat \<Rightarrow> bool"
  points :: "nat \<Rightarrow> point"

datatype choice =
    Call operation   \<comment> \<open>an idle task calls an operation\<close>
  | Go bool          \<comment> \<open>the next access; the flag makes a weak exchange fail spuriously\<close>
  | Poll             \<comment> \<open>the executor polls a woken task\<close>
  | Poll_Anyway      \<comment> \<open>a poll nobody asked for\<close>
  | Cancel           \<comment> \<open>a pending future is dropped\<close>

definition start_call :: "operation \<Rightarrow> point" where
  "start_call opn =
     (if opn \<in> {Op_try_get_ref, Op_get_ref, Op_blocking_get_ref} then Incr_Load (Op opn)
      else Block_Load (Op opn))"

definition start_poll :: "await \<Rightarrow> point" where
  "start_poll a = (case a of
     Await_Ref \<Rightarrow> Check_Blocked Await_Ref
   | Await_Free \<Rightarrow> Quiesce_Poll
   | _ \<Rightarrow> Block_Load (Poll_Of a))"

text \<open>The points where the future of the task, if there was one, has been dropped.\<close>

definition resolved :: "point \<Rightarrow> bool" where
  "resolved p \<longleftrightarrow> p \<in> {Has_Ref, Has_Block, Has_Excl, Quiesce_Poll}"

definition moved :: "nat \<Rightarrow> point \<Rightarrow> world \<Rightarrow> world" where
  "moved t p w = w\<lparr>points := (points w)(t := p)\<rparr>"

definition set_flag :: "nat \<Rightarrow> bool option \<Rightarrow> world \<Rightarrow> world" where
  "set_flag t f w = w\<lparr>flag := (flag w)(t := f)\<rparr>"

definition set_wake :: "nat \<Rightarrow> bool \<Rightarrow> world \<Rightarrow> world" where
  "set_wake t b w = w\<lparr>wakes := (wakes w)(t := b)\<rparr>"

text \<open>The count as the cell of \<open>Ref_Count\<close>, for one access.\<close>

definition at_word :: "u32 \<Rightarrow> bool \<Rightarrow> u32 acell" where
  "at_word v spurious = \<lparr>cval = v, cenv = [(None, spurious)], cown = []\<rparr>"

definition count_step :: "profile \<Rightarrow> bool \<Rightarrow> nat \<Rightarrow> world \<Rightarrow> world" where
  "count_step pr spurious t w =
     (let (p, c) = access pr (points w t) (at_word (count_word w) spurious);
          w = moved t p (w\<lparr>count_word := cval c\<rparr>) in
      if resolved p then set_flag t None w else w)"

definition go :: "profile \<Rightarrow> nat \<Rightarrow> bool \<Rightarrow> nat \<Rightarrow> world \<Rightarrow> world option" where
  "go pr N spurious t w = (case points w t of
     Idle \<Rightarrow> None
   | Crashed _ \<Rightarrow> None
   | Parked _ \<Rightarrow> None
   | New_Future a \<Rightarrow>
       Some (moved t (Parked a) (set_wake t True (if a = Await_Free then w else set_flag t (Some False) w)))
   | Test_Flag a \<Rightarrow>
       Some (moved t (case flag w t of None \<Rightarrow> Crashed Undefined | Some b \<Rightarrow> if b then Parked a else Enqueue a) w)
   | Enqueue a \<Rightarrow>
       Some (if length (waiting w) < N then moved t (Set_Flag a) (w\<lparr>waiting := waiting w @ [t]\<rparr>)
             else moved t (Clear_Own a) w)
   | Set_Flag a \<Rightarrow> Some (moved t (Parked a) (set_flag t (Some True) w))
   | Clear_Own a \<Rightarrow>
       Some (case flag w t of
               None \<Rightarrow> moved t (Crashed Undefined) w
             | Some _ \<Rightarrow> moved t (Wake_Self a) (set_flag t (Some False) w))
   | Wake_Self a \<Rightarrow> Some (moved t (Parked a) (set_wake t True w))
   | First_Pop \<Rightarrow>
       Some (case waiting w of
               [] \<Rightarrow> moved t Drain w
             | u # us \<Rightarrow> moved t (Clear_Flag u) (w\<lparr>waiting := us\<rparr>))
   | Drain \<Rightarrow>
       Some (case waiting w of
               [] \<Rightarrow> moved t Idle w
             | u # us \<Rightarrow> moved t (Clear_Flag u) (w\<lparr>waiting := us\<rparr>))
   | Clear_Flag u \<Rightarrow>
       Some (case flag w u of
               None \<Rightarrow> moved t (Crashed Undefined) w
             | Some _ \<Rightarrow> moved t (Wake_Up u) (set_flag u (Some False) w))
   | Wake_Up u \<Rightarrow> Some (moved t Drain (set_wake u True w))
   | _ \<Rightarrow> Some (count_step pr spurious t w))"

definition task_step :: "profile \<Rightarrow> nat \<Rightarrow> nat \<times> choice \<Rightarrow> world \<Rightarrow> world option" where
  "task_step pr N d w = (case d of (t, ch) \<Rightarrow> (case ch of
     Call opn \<Rightarrow> (if points w t = Idle then Some (moved t (start_call opn) w) else None)
   | Go spurious \<Rightarrow> go pr N spurious t w
   | Poll \<Rightarrow>
       (case points w t of
          Parked a \<Rightarrow> if wakes w t then Some (moved t (start_poll a) (set_wake t False w)) else None
        | _ \<Rightarrow> None)
   | Poll_Anyway \<Rightarrow>
       (case points w t of Parked a \<Rightarrow> Some (moved t (start_poll a) w) | _ \<Rightarrow> None)
   | Cancel \<Rightarrow>
       (case points w t of Parked a \<Rightarrow> Some (moved t Idle (set_flag t None w)) | _ \<Rightarrow> None)))"

definition all_idle :: world where
  "all_idle = \<lparr>count_word = 0, waiting = [], flag = (\<lambda>_. None), wakes = (\<lambda>_. False), points = (\<lambda>_. Idle)\<rparr>"

definition fresh :: "world \<Rightarrow> bool" where
  "fresh w \<longleftrightarrow> w = all_idle"

text \<open>\<open>M\<close> is the number of tasks.\<close>

inductive step :: "profile \<Rightarrow> nat \<Rightarrow> nat \<Rightarrow> world \<Rightarrow> world \<Rightarrow> bool"
  for pr N M where
  step: "t < M \<Longrightarrow> task_step pr N (t, ch) w = Some w' \<Longrightarrow> step pr N M w w'"

text \<open>
  A wiping store is one of \<open>REF_ALLOWED\<close> into a word that counts references. A careful run
  has none.
\<close>

definition wipes :: "nat \<Rightarrow> world \<Rightarrow> bool" where
  "wipes t w \<longleftrightarrow> points w t \<in> {Give_Up, Has_Block, Has_Excl} \<and> refs_of (count_word w) > 0"

inductive careful_step :: "profile \<Rightarrow> nat \<Rightarrow> nat \<Rightarrow> world \<Rightarrow> world \<Rightarrow> bool"
  for pr N M where
  careful: "t < M \<Longrightarrow> task_step pr N (t, ch) w = Some w' \<Longrightarrow> \<not> (\<exists>s. ch = Go s \<and> wipes t w) \<Longrightarrow>
    careful_step pr N M w w'"

section \<open>The protocol refines the lock\<close>

text \<open>The points of a task that owns the block.\<close>

fun blocking :: "point \<Rightarrow> bool" where
  "blocking (Quiesce_Try i) = True"
| "blocking Quiesce_Get = True"
| "blocking Quiesce_Blocking = True"
| "blocking Quiesce_Poll = True"
| "blocking Give_Up = True"
| "blocking Has_Block = True"
| "blocking Has_Excl = True"
| "blocking (New_Future a) = (a = Await_Free)"
| "blocking (Wake_Self a) = (a = Await_Free)"
| "blocking (Parked a) = (a = Await_Free)"
| "blocking _ = False"

text \<open>An exchange always has a pair to write that \<open>Ref_Count\<close> allows.\<close>

fun wf_point :: "profile \<Rightarrow> point \<Rightarrow> bool" where
  "wf_point pr (Incr_Load g) \<longleftrightarrow> g \<noteq> Poll_Of Await_Free"
| "wf_point pr (Incr_Cas g i cur next) \<longleftrightarrow> g \<noteq> Poll_Of Await_Free \<and> incr_write pr (cur, next)"
| "wf_point pr (Block_Load g) \<longleftrightarrow> g \<noteq> Poll_Of Await_Free"
| "wf_point pr (Block_Cas g i cur next) \<longleftrightarrow> g \<noteq> Poll_Of Await_Free \<and> block_write (cur, next)"
| "wf_point pr (Check_Blocked a) \<longleftrightarrow> a \<noteq> Await_Free"
| "wf_point pr (Test_Flag a) \<longleftrightarrow> a \<noteq> Await_Free"
| "wf_point pr (Enqueue a) \<longleftrightarrow> a \<noteq> Await_Free"
| "wf_point pr (Set_Flag a) \<longleftrightarrow> a \<noteq> Await_Free"
| "wf_point pr (Clear_Own a) \<longleftrightarrow> a \<noteq> Await_Free"
| "wf_point pr _ \<longleftrightarrow> True"

definition same_role :: "point \<Rightarrow> point \<Rightarrow> bool" where
  "same_role p p' \<longleftrightarrow> p \<notin> {Has_Ref, Has_Excl} \<and> p' \<notin> {Has_Ref, Has_Excl} \<and> blocking p' = blocking p"

lemma at_word_load: "load (at_word v s) = (v, at_word v s\<lparr>cenv := []\<rparr>)"
  by (simp add: at_word_def load_def arrive_def)

lemma at_word_cas:
  "compare_exchange_weak cur next (at_word v s) =
     (if v = cur \<and> \<not> s then (Inr cur, at_word v s\<lparr>cval := next, cenv := [], cown := [(cur, next)]\<rparr>)
      else (Inl v, at_word v s\<lparr>cenv := []\<rparr>))"
  by (simp add: at_word_def compare_exchange_weak_def arrive_def put_def)

lemma at_word_cval: "cval (at_word v s) = v"
  by (simp add: at_word_def)

lemma at_word_put:
  "cval (store x (at_word v s)) = x" "cval (snd (fetch_sub d (at_word v s))) = v - d"
  by (simp_all add: at_word_def store_def fetch_sub_def arrive_def)

lemmas at_word = at_word_load at_word_cas at_word_cval at_word_put

lemma refresh_writes:
  "block_write (v AND REF_COUNT_MASK, v AND REF_COUNT_MASK OR REF_BLOCKED)"
  "checked_add pr (v AND REF_COUNT_MASK) REF_INCR = Inr nx \<Longrightarrow> incr_write pr (v AND REF_COUNT_MASK, nx)"
proof -
  obtain n where n: "n \<le> MAX_REFS" "v AND REF_COUNT_MASK = word_state n False" by (rule masked_word)
  then show "block_write (v AND REF_COUNT_MASK, v AND REF_COUNT_MASK OR REF_BLOCKED)"
    by (auto simp: block_write_def blocked_word_state)
  show "checked_add pr (v AND REF_COUNT_MASK) REF_INCR = Inr nx \<Longrightarrow> incr_write pr (v AND REF_COUNT_MASK, nx)"
    using first_incr [OF n(1)] n(2) by simp
qed

text \<open>What one access can do to the word, and to the role of the task that makes it.\<close>

datatype effect = Keeps | Enters | Leaves | Blocks | Grants | Unblocks

fun has_effect :: "profile \<Rightarrow> effect \<Rightarrow> u32 \<Rightarrow> u32 \<Rightarrow> point \<Rightarrow> point \<Rightarrow> bool" where
  "has_effect pr Keeps v v' p p' \<longleftrightarrow> v' = v \<and> same_role p p'"
| "has_effect pr Enters v v' p p' \<longleftrightarrow> incr_write pr (v, v') \<and> \<not> blocking p \<and> p \<noteq> Has_Ref \<and> p' = Has_Ref"
| "has_effect pr Leaves v v' p p' \<longleftrightarrow> v' = v - REF_INCR \<and> p = Has_Ref \<and> p' = Idle"
| "has_effect pr Blocks v v' p p' \<longleftrightarrow> block_write (v, v') \<and> \<not> blocking p \<and> p \<noteq> Has_Ref \<and> blocking p' \<and> p' \<noteq> Has_Excl"
| "has_effect pr Grants v v' p p' \<longleftrightarrow> v' = v \<and> refs_of v = 0 \<and> blocking p \<and> p' = Has_Excl"
| "has_effect pr Unblocks v v' p p' \<longleftrightarrow> v' = REF_ALLOWED \<and> p \<in> {Give_Up, Has_Block, Has_Excl} \<and> p' = First_Pop"

lemma block_done_role: "g \<noteq> Poll_Of Await_Free \<Longrightarrow> blocking (block_done g)" "block_done g \<noteq> Has_Excl"
  "wf_point pr (block_done g)"
  by (auto simp: block_done_def split: caller.split operation.split)

lemma block_failed_role: "g \<noteq> Poll_Of Await_Free \<Longrightarrow> same_role (Block_Cas g i cur next) (block_failed g)"
  "g \<noteq> Poll_Of Await_Free \<Longrightarrow> wf_point pr (block_failed g)"
  by (auto simp: block_failed_def same_role_def split: caller.split operation.split)

lemma incr_failed_role:
  "g \<noteq> Poll_Of Await_Free \<Longrightarrow> same_role (Incr_Cas g i cur next) (incr_failed g cur next)"
  "wf_point pr (Incr_Cas g i cur next) \<Longrightarrow> wf_point pr (incr_failed g cur next)"
  by (auto simp: incr_failed_def same_role_def split: caller.split operation.split)

lemma quiesced_effect:
  assumes "quiesced q (at_word v s) = (p', c)" "same_role p q" "blocking p" "wf_point pr q"
  shows "(\<exists>e. has_effect pr e v (cval c) p p') \<and> wf_point pr p'"
  using assms
  by (auto simp: quiesced_def at_word standard_ref_count_eq_0 split: if_splits
      intro: exI [of _ Grants] exI [of _ Keeps])

text \<open>The points whose next access is to the count.\<close>

fun at_count :: "point \<Rightarrow> bool" where
  "at_count (Incr_Load g) = True"
| "at_count (Incr_Cas g i cur next) = True"
| "at_count (Block_Load g) = True"
| "at_count (Block_Cas g i cur next) = True"
| "at_count (Quiesce_Try i) = True"
| "at_count Quiesce_Get = True"
| "at_count Quiesce_Blocking = True"
| "at_count Quiesce_Poll = True"
| "at_count (Check_Blocked a) = True"
| "at_count Has_Ref = True"
| "at_count Has_Block = True"
| "at_count Has_Excl = True"
| "at_count Give_Up = True"
| "at_count _ = False"

lemma access_effect:
  assumes "access pr p (at_word v s) = (p', c)" "at_count p" "wf_point pr p"
  shows "(\<exists>e. has_effect pr e v (cval c) p p') \<and> wf_point pr p'"
proof (cases p)
  case (Incr_Load g)
  with assms refresh_writes(2) [where v = v and pr = pr] show ?thesis
    by (auto simp: at_word Let_def same_role_def split: sum.splits intro!: exI [of _ Keeps])
next
  case (Incr_Cas g i cur nx)
  with assms refresh_writes(2) [where v = v and pr = pr] incr_failed_role [where g = g and i = i] show ?thesis
    apply (cases "v = cur \<and> \<not> s")
    subgoal by (auto simp: try_incr_def try_last_def at_word split: if_splits intro!: exI [of _ Enters])
    subgoal by (cases "checked_add pr (v AND REF_COUNT_MASK) REF_INCR")
      (auto simp: try_incr_def try_last_def at_word Let_def same_role_def split: if_splits intro!: exI [of _ Keeps])
    done
next
  case (Block_Load g)
  with assms refresh_writes(1) [where v = v] show ?thesis
    by (auto simp: at_word Let_def same_role_def intro!: exI [of _ Keeps])
next
  case (Block_Cas g i cur nx)
  with assms refresh_writes(1) [where v = v] block_done_role [where g = g] block_failed_role(1) [where g = g and i = i] block_failed_role(2) [where g = g]
  show ?thesis
    apply (cases "v = cur \<and> \<not> s")
    subgoal by (auto simp: try_block_def try_last_def at_word split: if_splits intro!: exI [of _ Blocks])
    subgoal by (auto simp: try_block_def try_last_def at_word Let_def same_role_def split: if_splits intro!: exI [of _ Keeps])
    done
next
  case (Quiesce_Try i)
  with assms show ?thesis
    by (intro quiesced_effect [of "case i of 0 \<Rightarrow> Give_Up | Suc j \<Rightarrow> Quiesce_Try j" v s])
      (auto simp: same_role_def split: nat.split)
next
  case Quiesce_Get
  with assms show ?thesis
    by (intro quiesced_effect [of "New_Future Await_Free" v s]) (auto simp: same_role_def)
next
  case Quiesce_Blocking
  with assms show ?thesis
    by (intro quiesced_effect [of Quiesce_Blocking v s]) (auto simp: same_role_def)
next
  case Quiesce_Poll
  with assms show ?thesis
    by (intro quiesced_effect [of "Wake_Self Await_Free" v s]) (auto simp: same_role_def)
next
  case (Check_Blocked a)
  with assms show ?thesis
    by (auto simp: at_word same_role_def split: if_splits intro!: exI [of _ Keeps])
next
  case Has_Ref
  with assms show ?thesis by (auto simp: at_word intro!: exI [of _ Leaves])
qed (use assms in \<open>auto simp: at_word intro!: exI [of _ Unblocks]\<close>)

section \<open>The gluing relation\<close>

definition glue :: "profile \<Rightarrow> nat \<Rightarrow> world \<Rightarrow> lock \<Rightarrow> bool" where
  "glue pr M w l \<longleftrightarrow>
     (\<forall>t. wf_point pr (points w t)) \<and>
     readers l = {t. points w t = Has_Ref} \<and> readers l \<subseteq> {..<M} \<and>
     (\<forall>t. owner l = Some t \<longleftrightarrow> blocking (points w t)) \<and>
     (granted l \<longleftrightarrow> (\<exists>t. points w t = Has_Excl)) \<and>
     shut l = is_blk (count_word w) \<and> refs_of (count_word w) = card (readers l)"

lemma glue_fresh: "fresh w \<Longrightarrow> \<exists>l. lock_init l \<and> glue pr M w l"
  by (auto simp: fresh_def all_idle_def lock_init_def glue_def refs_of_def is_blk_def)

text \<open>A step that leaves the word and the task's role alone is no step of the lock.\<close>

lemma glue_frame:
  assumes "glue pr M w l" "points w' = (points w)(t := p)" "count_word w' = count_word w"
    "same_role (points w t) p" "wf_point pr p"
  shows "glue pr M w' l"
  using assms by (auto simp: glue_def same_role_def)

lemma moved_simps [simp]:
  "points (moved t p w) = (points w)(t := p)" "count_word (moved t p w) = count_word w"
  "points (set_flag u f w) = points w" "count_word (set_flag u f w) = count_word w"
  "points (set_wake u b w) = points w" "count_word (set_wake u b w) = count_word w"
  by (simp_all add: moved_def set_flag_def set_wake_def)

lemma start_poll_role: "same_role (Parked a) (start_poll a)" "same_role (New_Future a) (start_poll a)"
  "wf_point pr (start_poll a)"
  by (cases a; simp add: start_poll_def same_role_def)+

lemma start_call_role: "same_role Idle (start_call opn)" "wf_point pr (start_call opn)"
  by (auto simp: start_call_def same_role_def)

text \<open>A step of a task is an access to the count or keeps its role, cancelling apart.\<close>

lemma go_frame:
  assumes "go pr N s t w = Some w'" "\<not> at_count (points w t)" "wf_point pr (points w t)"
  shows "\<exists>p. points w' = (points w)(t := p) \<and> count_word w' = count_word w \<and>
    same_role (points w t) p \<and> wf_point pr p"
  using assms start_poll_role
  by (cases "points w t") (auto simp: go_def same_role_def split: list.splits option.splits if_splits)

lemma go_count:
  assumes "go pr N s t w = Some w'" "at_count (points w t)"
  shows "w' = count_step pr s t w"
  using assms by (cases "points w t") (auto simp: go_def)

text \<open>An access to the count is at most one step of the lock.\<close>

lemma incr_write_parts:
  "incr_write pr (v, v') \<Longrightarrow> refs_of v < MAX_REFS \<Longrightarrow>
     \<not> is_blk v \<and> \<not> is_blk v' \<and> refs_of v' = Suc (refs_of v)"
  by (auto simp: incr_write_def word_pair)

lemma block_write_parts:
  "block_write (v, v') \<Longrightarrow> \<not> is_blk v \<and> is_blk v' \<and> refs_of v' = refs_of v"
  by (auto simp: block_write_def word_pair)

lemma decr_parts:
  "0 < refs_of v \<Longrightarrow> is_blk (v - REF_INCR) = is_blk v \<and> refs_of (v - REF_INCR) = refs_of v - 1"
  by (cases v rule: word_cases) (auto simp: word_pair)

lemma allowed_parts: "refs_of REF_ALLOWED = 0" "\<not> is_blk REF_ALLOWED"
  by (simp_all add: REF_ALLOWED_def refs_of_def is_blk_def)

lemma incr_write_debug: "incr_write Debug (v, v') \<Longrightarrow> refs_of v < MAX_REFS"
  by (auto simp: incr_write_def word_pair)

lemma glue_readers:
  assumes "glue pr M w l"
  shows "finite (readers l)" "t \<in> readers l \<longleftrightarrow> points w t = Has_Ref" "refs_of (count_word w) = card (readers l)"
    "t < M \<Longrightarrow> points w t \<noteq> Has_Ref \<Longrightarrow> card (readers l) < M"
proof -
  show fin: "finite (readers l)" using assms finite_subset by (fastforce simp: glue_def)
  show "t \<in> readers l \<longleftrightarrow> points w t = Has_Ref" "refs_of (count_word w) = card (readers l)"
    using assms by (auto simp: glue_def)
  assume "t < M" "points w t \<noteq> Has_Ref"
  then have "readers l \<subset> {..<M}" using assms by (auto simp: glue_def)
  then show "card (readers l) < M" using psubset_card_mono [of "{..<M}"] by simp
qed

lemma glue_effect:
  assumes g: "glue pr M w l" and ok: "lock_ok l" and t: "t < M" and size: "pr = Debug \<or> M \<le> MAX_REFS"
    and e: "has_effect pr e (count_word w) v (points w t) p" and wf: "wf_point pr p"
    and w': "points w' = (points w)(t := p)" "count_word w' = v"
    and calm: "e = Unblocks \<Longrightarrow> refs_of (count_word w) = 0"
  shows "\<exists>l'. lock_step\<^sup>*\<^sup>* l l' \<and> glue pr M w' l'"
proof -
  note readers = glue_readers [OF g]
  have step: ?thesis if "lock_step l l'" "glue pr M w' l'" for l' using that by blast
  show ?thesis
  proof (cases e)
    case Keeps
    with glue_frame [OF g w'(1)] e wf w'(2) show ?thesis by auto
  next
    case Enters
    with e have inc: "incr_write pr (count_word w, v)"
      and p: "\<not> blocking (points w t)" "points w t \<noteq> Has_Ref" "p = Has_Ref" by auto
    from readers(4) [OF t p(2)] size incr_write_debug [of "count_word w" v] inc readers(3)
    have "refs_of (count_word w) < MAX_REFS" by (cases pr) auto
    note parts = incr_write_parts [OF inc this]
    show ?thesis
    proof (rule step)
      show "lock_step l (l\<lparr>readers := insert t (readers l)\<rparr>)"
        using g parts p(2) by (intro lock_step.enter) (auto simp: glue_def)
      show "glue pr M w' (l\<lparr>readers := insert t (readers l)\<rparr>)"
        using g parts p w' t readers(1) by (auto simp: glue_def)
    qed
  next
    case Leaves
    with e have p: "v = count_word w - REF_INCR" "points w t = Has_Ref" "p = Idle" by auto
    have "t \<in> readers l" using readers(2) p(2) by simp
    with readers(1,3) have pos: "0 < refs_of (count_word w)" by (auto simp: card_gt_0_iff)
    have "u \<noteq> t" if "points w u = Has_Excl" for u using p(2) that by auto
    then have excl: "(\<exists>u. points w' u = Has_Excl) \<longleftrightarrow> (\<exists>u. points w u = Has_Excl)"
      unfolding w'(1) p(3) by (auto simp: fun_upd_apply)
    show ?thesis
    proof (rule step)
      show "lock_step l (l\<lparr>readers := readers l - {t}\<rparr>)"
        using \<open>t \<in> readers l\<close> by (rule lock_step.leave)
      show "glue pr M w' (l\<lparr>readers := readers l - {t}\<rparr>)"
        unfolding glue_def excl using g decr_parts [OF pos] p w' readers(1) \<open>t \<in> readers l\<close>
        by (simp add: glue_def) blast
    qed
  next
    case Blocks
    with e have blk: "block_write (count_word w, v)"
      and p: "\<not> blocking (points w t)" "points w t \<noteq> Has_Ref" "blocking p" "p \<noteq> Has_Excl" by auto
    note parts = block_write_parts [OF blk]
    have none: "owner l = None" "\<not> granted l" using ok parts g by (auto simp: lock_ok_def glue_def)
    show ?thesis
    proof (rule step)
      show "lock_step l (l\<lparr>owner := Some t, shut := True\<rparr>)"
        using g parts by (intro lock_step.block) (auto simp: glue_def)
      show "glue pr M w' (l\<lparr>owner := Some t, shut := True\<rparr>)"
        using g parts p w' t wf none by (auto simp: glue_def)
    qed
  next
    case Grants
    with e have p: "v = count_word w" "refs_of (count_word w) = 0" "blocking (points w t)" "p = Has_Excl" by auto
    have "points w t \<noteq> Has_Ref" using p(3) by auto
    show ?thesis
    proof (rule step)
      show "lock_step l (l\<lparr>granted := True\<rparr>)"
        using g p readers(1) by (intro lock_step.grant [of _ t]) (auto simp: glue_def)
      show "glue pr M w' (l\<lparr>granted := True\<rparr>)"
        using g p w' \<open>points w t \<noteq> Has_Ref\<close> by (auto simp: glue_def)
    qed
  next
    case Unblocks
    with e have p: "v = REF_ALLOWED" "p = First_Pop" "blocking (points w t)" "points w t \<noteq> Has_Ref" by auto
    have own: "owner l = Some t" using g p(3) by (auto simp: glue_def)
    with g have only: "blocking (points w u) \<Longrightarrow> u = t" for u by (auto simp: glue_def)
    have empty: "readers l = {}" using calm [OF Unblocks] readers(1,3) by simp
    show ?thesis
    proof (rule step)
      show "lock_step l (l\<lparr>owner := None, granted := False, shut := False\<rparr>)"
        using own empty by (rule lock_step.unblock)
      have others: "blocking (points w u) = (u = t)" "points w u \<noteq> Has_Ref" "wf_point pr (points w u)"
        "u \<noteq> t \<Longrightarrow> points w u \<noteq> Has_Excl" for u
        using only [of u] p(3) empty readers(2) [of u] g by (auto simp: glue_def)
      show "glue pr M w' (l\<lparr>owner := None, granted := False, shut := False\<rparr>)"
        using others allowed_parts empty by (auto simp: glue_def w' p)
    qed
  qed
qed

lemma glue_cancel:
  assumes g: "glue pr M w l" and p: "points w t = Parked a"
  shows "\<exists>l'. lock_step\<^sup>*\<^sup>* l l' \<and> glue pr M (moved t Idle (set_flag t None w)) l'"
proof (cases "a = Await_Free")
  case True
  with g p have own: "owner l = Some t" by (auto simp: glue_def)
  with g have only: "blocking (points w u) \<Longrightarrow> u = t" for u by (auto simp: glue_def)
  have "points w u \<noteq> Has_Excl" for u using only [of u] p by auto
  then have "glue pr M (moved t Idle (set_flag t None w)) (l\<lparr>owner := None, granted := False\<rparr>)"
    using g p only by (auto simp: glue_def)
  with lock_step.abandon [OF own] show ?thesis by blast
next
  case False
  with glue_frame [OF g, of "moved t Idle (set_flag t None w)" t Idle] p show ?thesis
    by (auto simp: same_role_def)
qed

lemma glue_step:
  assumes g: "glue pr M w l" and ok: "lock_ok l" and size: "pr = Debug \<or> M \<le> MAX_REFS"
    and step: "careful_step pr N M w w'"
  shows "\<exists>l'. lock_step\<^sup>*\<^sup>* l l' \<and> glue pr M w' l'"
  using step
proof (cases rule: careful_step.cases)
  case (careful t ch)
  note frame = glue_frame [OF g, of w' t]
  have wf: "wf_point pr (points w t)" using g by (simp add: glue_def)
  show ?thesis
  proof (cases ch)
    case (Go s)
    with careful have go: "go pr N s t w = Some w'" and calm: "\<not> wipes t w"
      by (auto simp: task_step_def)
    show ?thesis
    proof (cases "at_count (points w t)")
      case True
      obtain p c where acc: "access pr (points w t) (at_word (count_word w) s) = (p, c)" by fastforce
      from go_count [OF go True] acc have w': "points w' = (points w)(t := p)" "count_word w' = cval c"
        by (auto simp: count_step_def Let_def)
      from access_effect [OF acc True wf] obtain e
        where e: "has_effect pr e (count_word w) (cval c) (points w t) p" "wf_point pr p" by blast
      show ?thesis
        by (rule glue_effect [OF g ok careful(1) size e w']) (use e calm in \<open>auto simp: wipes_def\<close>)
    next
      case False
      from go_frame [OF go False wf] frame show ?thesis by blast
    qed
  qed (use careful g frame start_call_role start_poll_role glue_cancel [OF g] in
      \<open>fastforce simp: task_step_def split: if_splits point.splits\<close>)+
qed

section \<open>What the simulation gives\<close>

text \<open>
  The simulation is for a number of tasks the count can count, or for a build that checks the
  increments; the profile and the sizes are packed into the condition.
\<close>

definition countable :: "profile \<Rightarrow> nat \<Rightarrow> bool" where
  "countable pr M \<longleftrightarrow> pr = Debug \<or> M \<le> MAX_REFS"

text \<open>
  The locale has no room for the condition, so the steps of the interpretation are those of a
  run that meets it.
\<close>

inductive counted_step :: "profile \<Rightarrow> nat \<Rightarrow> nat \<Rightarrow> world \<Rightarrow> world \<Rightarrow> bool"
  for pr N M where
  counted: "careful_step pr N M w w' \<Longrightarrow> countable pr M \<Longrightarrow> counted_step pr N M w w'"

interpretation protocol: safe_simulation lock_init lock_step lock_ok fresh "counted_step pr N M" "glue pr M"
proof unfold_locales
  fix c show "fresh c \<Longrightarrow> \<exists>a. lock_init a \<and> glue pr M c a" by (rule glue_fresh)
next
  fix c a c' assume "glue pr M c a" "lock_ok a" "counted_step pr N M c c'"
  then show "\<exists>a'. lock_step\<^sup>*\<^sup>* a a' \<and> glue pr M c' a'"
    by (auto elim!: counted_step.cases simp: countable_def intro: glue_step)
qed

lemma careful_counted:
  "reachable fresh (careful_step pr N M) w \<Longrightarrow> countable pr M \<Longrightarrow> reachable fresh (counted_step pr N M) w"
  using reachable_mono [of fresh "careful_step pr N M" w "counted_step pr N M"]
  by (auto intro: counted_step.counted)

lemma careful_safe:
  assumes "reachable fresh (careful_step pr N M) w" "countable pr M"
  obtains l where "lock_ok l" "glue pr M w l"
  using protocol.safe_reachable [OF careful_counted [OF assms]] by blast

lemma glue_exclusive:
  assumes "lock_ok l" "glue pr M w l" "points w t = Has_Excl"
  shows "points w u \<noteq> Has_Ref" "blocking (points w u) \<Longrightarrow> u = t" "refs_of (count_word w) = 0"
    "is_blk (count_word w)"
proof -
  from assms have g: "granted l" by (auto simp: glue_def)
  with assms(1) have l: "readers l = {}" "shut l" by (auto simp: lock_ok_def)
  from l assms(2) show "points w u \<noteq> Has_Ref" "refs_of (count_word w) = 0" "is_blk (count_word w)"
    by (auto simp: glue_def)
  have "owner l = Some t" using assms by (auto simp: glue_def)
  with assms(2) show "blocking (points w u) \<Longrightarrow> u = t" by (auto simp: glue_def)
qed

section \<open>Running schedules\<close>

lemma schedule_reachable:
  assumes "schedule (task_step pr N) ds all_idle = Some w" "\<forall>d \<in> set ds. fst d < M"
  shows "reachable fresh (step pr N M) w"
proof (rule reachable_steps)
  show "(step pr N M)\<^sup>*\<^sup>* all_idle w"
    by (rule schedule_steps [OF assms(1)]) (use assms(2) in \<open>force intro: step.step\<close>)
  show "reachable fresh (step pr N M) all_idle" by (rule reachable.start) (simp add: fresh_def)
qed

text \<open>The same for careful runs: no decision of the schedule is a wiping store.\<close>

definition careful_task :: "profile \<Rightarrow> nat \<Rightarrow> nat \<times> choice \<Rightarrow> world \<Rightarrow> world option" where
  "careful_task pr N d w =
     (if wipes (fst d) w \<and> (case snd d of Go _ \<Rightarrow> True | _ \<Rightarrow> False) then None else task_step pr N d w)"

lemma careful_task_step:
  "careful_task pr N (t, ch) w = Some w' \<Longrightarrow> t < M \<Longrightarrow> careful_step pr N M w w'"
  by (auto simp: careful_task_def split: if_splits choice.splits intro!: careful_step.careful)

lemma careful_schedule_reachable:
  assumes "schedule (careful_task pr N) ds all_idle = Some w" "\<forall>d \<in> set ds. fst d < M"
  shows "reachable fresh (careful_step pr N M) w"
proof (rule reachable_steps)
  show "(careful_step pr N M)\<^sup>*\<^sup>* all_idle w"
    by (rule schedule_steps [OF assms(1)]) (use assms(2) in \<open>force intro: careful_task_step\<close>)
  show "reachable fresh (careful_step pr N M) all_idle" by (rule reachable.start) (simp add: fresh_def)
qed

end
