(* ===== verification/Protocol_Runs.thy ===== *)
theory Protocol_Runs
  imports Ref_Protocol
begin

text \<open>
  Runs of the protocol of \<open>Ref_Protocol\<close>: exclusion in careful runs, the runs that lose it,
  the runs in which a pending future is forgotten or a waiter outlives its future, and the
  block nobody can lift. A schedule is a list of decisions, executed by \<open>task_step\<close>.
\<close>

section \<open>A forgotten task\<close>

text \<open>
  A prompt run has no poll that nobody asked for and no dropped future. A task is forgotten if
  its future is pending, nobody has woken it, and no queue entry or unblocking task will.
\<close>

inductive prompt_step :: "profile \<Rightarrow> nat \<Rightarrow> nat \<Rightarrow> world \<Rightarrow> world \<Rightarrow> bool"
  for pr N M where
  prompt: "t < M \<Longrightarrow> task_step pr N (t, ch) w = Some w' \<Longrightarrow> ch \<noteq> Poll_Anyway \<Longrightarrow> ch \<noteq> Cancel \<Longrightarrow>
    prompt_step pr N M w w'"

definition forgotten :: "nat \<Rightarrow> world \<Rightarrow> bool" where
  "forgotten t w \<longleftrightarrow> (\<exists>a. points w t = Parked a) \<and> \<not> wakes w t \<and> t \<notin> set (waiting w) \<and>
     (\<forall>u. points w u \<noteq> Clear_Flag t \<and> points w u \<noteq> Wake_Up t)"

lemma moved_fields [simp]:
  "wakes (moved t p w) = wakes w" "waiting (moved t p w) = waiting w" "flag (moved t p w) = flag w"
  "wakes (set_flag u f w) = wakes w" "waiting (set_flag u f w) = waiting w"
  "flag (set_flag u f w) = (flag w)(u := f)" "flag (set_wake u b w) = flag w"
  "wakes (set_wake u b w) = (wakes w)(u := b)" "waiting (set_wake u b w) = waiting w"
  by (simp_all add: moved_def set_flag_def set_wake_def)

text \<open>An access to the count moves its own task, never to a wake-up, and no other.\<close>

lemma access_no_wake:
  assumes "access pr p c = (p', c')" "at_count p"
  shows "p' \<noteq> Clear_Flag t" "p' \<noteq> Wake_Up t"
  using assms
  by (cases p; auto simp: quiesced_def Let_def incr_failed_def block_done_def block_failed_def
      split: prod.splits if_splits sum.splits attempt.splits caller.splits operation.splits nat.splits)+

lemma count_step_fields:
  assumes "at_count (points w u)"
  obtains p where "points (count_step pr s u w) = (points w)(u := p)" "p \<noteq> Clear_Flag t" "p \<noteq> Wake_Up t"
    "wakes (count_step pr s u w) = wakes w" "waiting (count_step pr s u w) = waiting w"
proof -
  obtain p c where "access pr (points w u) (at_word (count_word w) s) = (p, c)" by fastforce
  with access_no_wake [OF this assms, of t] that [of p] show ?thesis
    by (auto simp: count_step_def Let_def)
qed

lemma forgotten_step:
  assumes f: "forgotten t w" and step: "prompt_step pr N M w w'"
  shows "forgotten t w'"
  using step
proof (cases rule: prompt_step.cases)
  case (prompt u ch)
  show ?thesis
  proof (cases "u = t")
    case True
    with prompt f show ?thesis by (auto simp: forgotten_def task_step_def go_def split: choice.splits)
  next
    case other: False
    show ?thesis
    proof (cases ch)
      case (Go s)
      show ?thesis
      proof (cases "at_count (points w u)")
        case True
        with Go prompt have w': "w' = count_step pr s u w"
          using go_count [of pr N s u w w'] by (simp add: task_step_def)
        show ?thesis
          by (rule count_step_fields [OF True, of pr s t]) (use f other w' in \<open>auto simp: forgotten_def\<close>)
      next
        case False
        with Go prompt f other show ?thesis
          by (cases "points w u")
            (auto simp: forgotten_def task_step_def go_def start_poll_def
              split: list.splits option.splits if_splits await.splits)
      qed
    qed (use prompt f other in \<open>auto simp: forgotten_def task_step_def start_call_def start_poll_def
          split: if_splits point.splits await.splits\<close>)
  qed
qed

lemma forgotten_steps:
  assumes "(prompt_step pr N M)\<^sup>*\<^sup>* w w'" "forgotten t w"
  shows "forgotten t w'"
  using assms by (induction rule: rtranclp_induct) (auto intro: forgotten_step)

section \<open>A block without an owner\<close>

text \<open>The block bit is set and no task owns the block.\<close>

definition sealed :: "profile \<Rightarrow> world \<Rightarrow> bool" where
  "sealed pr w \<longleftrightarrow> is_blk (count_word w) \<and> (\<forall>u. \<not> blocking (points w u) \<and> wf_point pr (points w u))"

lemma is_blk_decr: "is_blk (v - REF_INCR) = is_blk v"
proof (cases "0 < refs_of v")
  case True
  then show ?thesis by (simp add: decr_parts)
next
  case False
  then have "v = word_state 0 (is_blk v)" using word_state_pair [of v] by simp
  moreover have "is_blk (word_state 0 b - REF_INCR) = b" for b
    by (cases b) (simp_all add: word_state_def REF_INCR_def REF_COUNT_SHIFT_def is_blk_def odd_unat)
  ultimately show ?thesis by metis
qed

lemma sealed_effect:
  assumes "has_effect pr e v v' p p'" "is_blk v" "\<not> blocking p" "wf_point pr p'"
  shows "is_blk v'" "\<not> blocking p'" "p' = Has_Ref \<longrightarrow> p = Has_Ref"
  using assms by (cases e; auto simp: same_role_def is_blk_decr incr_write_def is_blk_word_state
      dest: block_write_parts)+

text \<open>A call, a poll and a dropped future leave the word alone and give the task no role.\<close>

lemma call_poll_cancel:
  assumes "task_step pr N (t, ch) w = Some w'" "\<nexists>s. ch = Go s"
  shows "\<exists>p. points w' = (points w)(t := p) \<and> count_word w' = count_word w \<and>
    (blocking p \<longrightarrow> blocking (points w t)) \<and> wf_point pr p \<and> p \<noteq> Has_Ref"
proof (cases ch)
  case (Call opn)
  with assms(1) show ?thesis
    using start_call_role by (auto simp: task_step_def same_role_def split: if_splits)
next
  case Poll
  with assms(1) show ?thesis
    using start_poll_role by (auto simp: task_step_def same_role_def split: if_splits point.splits)
next
  case Poll_Anyway
  with assms(1) show ?thesis
    using start_poll_role by (auto simp: task_step_def same_role_def split: if_splits point.splits)
next
  case Cancel
  with assms(1) show ?thesis by (auto simp: task_step_def split: point.splits)
qed (use assms(2) in blast)

lemma sealed_step:
  assumes s: "sealed pr w" and step: "step pr N M w w'"
  shows "sealed pr w'" "points w' u = Has_Ref \<Longrightarrow> points w u = Has_Ref"
proof -
  from step obtain t ch where t: "task_step pr N (t, ch) w = Some w'" by (auto elim: step.cases)
  note wf = s [unfolded sealed_def, THEN conjunct2, rule_format, of t]
  have "\<exists>p. points w' = (points w)(t := p) \<and> is_blk (count_word w') \<and> \<not> blocking p \<and> wf_point pr p \<and>
      (p = Has_Ref \<longrightarrow> points w t = Has_Ref)"
  proof (cases "\<exists>sp. ch = Go sp")
    case True
    then obtain sp where "ch = Go sp" by blast
    with t have go: "go pr N sp t w = Some w'" by (simp add: task_step_def)
    show ?thesis
    proof (cases "at_count (points w t)")
      case True
      obtain p c where acc: "access pr (points w t) (at_word (count_word w) sp) = (p, c)" by fastforce
      from go_count [OF go True] acc have w': "points w' = (points w)(t := p)" "count_word w' = cval c"
        by (auto simp: count_step_def Let_def)
      from access_effect [OF acc True] wf obtain e
        where e: "has_effect pr e (count_word w) (cval c) (points w t) p" "wf_point pr p" by blast
      from sealed_effect [OF e(1) _ _ e(2)] s w' e(2) show ?thesis by (auto simp: sealed_def)
    next
      case False
      from go_frame [OF go False] wf s show ?thesis by (auto simp: sealed_def same_role_def)
    qed
  next
    case False
    from call_poll_cancel [OF t False] s wf show ?thesis by (auto simp: sealed_def)
  qed
  then obtain p where p: "points w' = (points w)(t := p)" "is_blk (count_word w')" "\<not> blocking p"
    "wf_point pr p" "p = Has_Ref \<Longrightarrow> points w t = Has_Ref" by blast
  with s show "sealed pr w'" by (simp add: sealed_def)
  show "points w' u = Has_Ref \<Longrightarrow> points w u = Has_Ref"
    using p(1,5) by (cases "u = t") auto
qed

lemma sealed_steps:
  assumes "(step pr N M)\<^sup>*\<^sup>* w w'" "sealed pr w"
  shows "sealed pr w' \<and> (points w' u = Has_Ref \<longrightarrow> points w u = Has_Ref)"
  using assms by (induction rule: rtranclp_induct) (use sealed_step in blast)+

section \<open>Runs of the safe operations that only wait\<close>

text \<open>
  The safe operations but \<open>try_get_exclusive_ref\<close>: no call of it and none of the unsafe
  operations. Their runs never reach a point from which a wiping store could be made.
\<close>

definition wiping_call :: "operation \<Rightarrow> bool" where
  "wiping_call opn \<longleftrightarrow> opn \<in> {Op_try_get_exclusive_ref, Op_try_block_refs, Op_block_refs}"

inductive waiting_step :: "profile \<Rightarrow> nat \<Rightarrow> nat \<Rightarrow> world \<Rightarrow> world \<Rightarrow> bool"
  for pr N M where
  waits: "t < M \<Longrightarrow> task_step pr N (t, ch) w = Some w' \<Longrightarrow> (\<And>opn. ch = Call opn \<Longrightarrow> \<not> wiping_call opn) \<Longrightarrow>
    waiting_step pr N M w w'"

definition clean_caller :: "caller \<Rightarrow> bool" where
  "clean_caller g \<longleftrightarrow> (case g of Op opn \<Rightarrow> \<not> wiping_call opn | Poll_Of a \<Rightarrow> a \<noteq> Await_Block)"

definition clean_blocker :: "caller \<Rightarrow> bool" where
  "clean_blocker g \<longleftrightarrow> clean_caller g \<and> g \<notin> {Poll_Of Await_Ref, Poll_Of Await_Free,
     Op Op_try_get_ref, Op Op_get_ref, Op Op_blocking_get_ref}"

fun clean :: "point \<Rightarrow> bool" where
  "clean (Quiesce_Try i) = False"
| "clean Give_Up = False"
| "clean Has_Block = False"
| "clean (Block_Load g) = clean_blocker g"
| "clean (Block_Cas g i cur next) = clean_blocker g"
| "clean (New_Future a) = (a \<noteq> Await_Block)"
| "clean (Check_Blocked a) = (a \<noteq> Await_Block)"
| "clean (Test_Flag a) = (a \<noteq> Await_Block)"
| "clean (Enqueue a) = (a \<noteq> Await_Block)"
| "clean (Set_Flag a) = (a \<noteq> Await_Block)"
| "clean (Clear_Own a) = (a \<noteq> Await_Block)"
| "clean (Wake_Self a) = (a \<noteq> Await_Block)"
| "clean (Parked a) = (a \<noteq> Await_Block)"
| "clean (Incr_Load g) = (g \<noteq> Poll_Of Await_Block)"
| "clean (Incr_Cas g i cur next) = (g \<noteq> Poll_Of Await_Block)"
| "clean _ = True"

lemma clean_results:
  "clean (Block_Load g) \<Longrightarrow> clean (block_done g)"
  "clean (Block_Load g) \<Longrightarrow> clean (block_failed g)"
  "g \<noteq> Poll_Of Await_Block \<Longrightarrow> clean (incr_failed g cur nx)"
  by (auto simp: block_done_def block_failed_def incr_failed_def clean_blocker_def clean_caller_def wiping_call_def
      split: caller.split operation.split) (metis await.exhaust)

lemma clean_access:
  assumes "access pr p c = (p', c')" "clean p"
  shows "clean p'"
  using assms clean_results
  by (cases p) (auto simp: quiesced_def Let_def split: prod.splits if_splits sum.splits attempt.splits)

lemma clean_start: "\<not> wiping_call opn \<Longrightarrow> clean (start_call opn)" "a \<noteq> Await_Block \<Longrightarrow> clean (start_poll a)"
  by (cases opn; simp add: start_call_def wiping_call_def clean_blocker_def clean_caller_def)
    (cases a; simp add: start_poll_def clean_blocker_def clean_caller_def)

lemma clean_step:
  assumes cl: "\<forall>u. clean (points w u)" and step: "waiting_step pr N M w w'"
  shows "\<forall>u. clean (points w' u)"
  using step
proof (cases rule: waiting_step.cases)
  case (waits t ch)
  have t: "clean (points w t)" using cl by blast
  have "\<exists>p. points w' = (points w)(t := p) \<and> clean p"
  proof (cases ch)
    case (Go s)
    with waits have go: "go pr N s t w = Some w'" by (simp add: task_step_def)
    show ?thesis
    proof (cases "at_count (points w t)")
      case True
      obtain p c where acc: "access pr (points w t) (at_word (count_word w) s) = (p, c)" by fastforce
      with go_count [OF go True] clean_access [OF acc t] show ?thesis by (auto simp: count_step_def Let_def)
    next
      case False
      with go t clean_start(2) show ?thesis
        by (cases "points w t") (auto simp: go_def split: list.splits option.splits if_splits)
    qed
  qed (use waits t clean_start in \<open>auto simp: task_step_def split: if_splits point.splits\<close>)
  with cl show ?thesis by auto
qed

lemma waiting_careful:
  assumes "reachable fresh (waiting_step pr N M) w" "countable pr M"
  shows "reachable fresh (careful_step pr N M) w \<and> (\<forall>u. clean (points w u))"
  using assms(1)
proof (induction rule: reachable.induct)
  case (start w)
  then show ?case by (auto simp: fresh_def all_idle_def intro: reachable.start)
next
  case (further w w')
  then have r: "reachable fresh (careful_step pr N M) w" and cl: "\<forall>u. clean (points w u)" by auto
  from further.hyps(2) obtain t ch where t: "t < M" "task_step pr N (t, ch) w = Some w'"
    by (cases rule: waiting_step.cases) auto
  have "\<not> wipes t w"
  proof
    assume w: "wipes t w"
    have "clean (points w t)" using cl by blast
    with w have "points w t = Has_Excl" by (auto simp: wipes_def)
    moreover obtain l where "lock_ok l" "glue pr M w l" by (rule careful_safe [OF r assms(2)])
    ultimately show False using w glue_exclusive(3) [of l pr M w t] by (simp add: wipes_def)
  qed
  with t have "careful_step pr N M w w'" by (intro careful_step.careful) auto
  with r clean_step [OF cl further.hyps(2)] show ?case by (blast intro: reachable.further)
qed

section \<open>Schedules\<close>

text \<open>\<open>n\<close> accesses of task \<open>t\<close> in a row; \<open>snapshot\<close> is what a schedule is judged by.\<close>

definition accesses :: "nat \<Rightarrow> nat \<Rightarrow> (nat \<times> choice) list" where
  "accesses n t = replicate n (t, Go False)"

definition snapshot :: "nat \<Rightarrow> world \<Rightarrow> u32 \<times> nat list \<times> (point \<times> bool option \<times> bool) list" where
  "snapshot M w = (count_word w, waiting w, map (\<lambda>t. (points w t, flag w t, wakes w t)) [0..<M])"

text \<open>Task 0 gets a reference, task 1 gives up on the exclusive one and asks again.\<close>

definition give_up_schedule :: "(nat \<times> choice) list" where
  "give_up_schedule =
     (0, Call Op_try_get_ref) # accesses 2 0 @
     (1, Call Op_try_get_exclusive_ref) # accesses 10 1 @
     (1, Call Op_try_get_exclusive_ref) # accesses 3 1"

text \<open>
  Task 1 has the exclusive reference, task 0 asks for a reference and sees that it is blocked;
  then task 1 drops the reference and wakes everyone, and only then task 0 registers.
\<close>

definition late_schedule :: "(nat \<times> choice) list" where
  "late_schedule =
     (1, Call Op_try_get_exclusive_ref) # accesses 3 1 @
     (0, Call Op_get_ref) # accesses 6 0 @ (0, Poll) # accesses 1 0 @ accesses 3 1 @ accesses 3 0"

text \<open>
  Task 0 registers; before it sets its flag, task 1 wakes it and clears the flag. Task 0 sets the
  flag, is polled while task 1 has blocked again, and takes itself for registered.
\<close>

definition overwritten_schedule :: "(nat \<times> choice) list" where
  "overwritten_schedule =
     (1, Call Op_try_get_exclusive_ref) # accesses 3 1 @
     (0, Call Op_get_ref) # accesses 6 0 @ (0, Poll) # accesses 3 0 @ accesses 5 1 @ accesses 1 0 @
     (1, Call Op_try_get_exclusive_ref) # accesses 3 1 @
     (0, Poll) # accesses 2 0 @ accesses 3 1"

text \<open>As the late schedule, but task 0 is in the queue when its future is dropped.\<close>

definition cancel_schedule :: "(nat \<times> choice) list" where
  "cancel_schedule =
     (1, Call Op_try_get_exclusive_ref) # accesses 3 1 @
     (0, Call Op_get_ref) # accesses 6 0 @ (0, Poll) # accesses 4 0 @ (0, Cancel) # accesses 3 1"

text \<open>The registered future is polled between the store and the pop, gets its reference and is gone.\<close>

definition early_poll_schedule :: "(nat \<times> choice) list" where
  "early_poll_schedule =
     (1, Call Op_try_get_exclusive_ref) # accesses 3 1 @
     (0, Call Op_get_ref) # accesses 6 0 @ (0, Poll) # accesses 4 0 @ accesses 1 1 @ (0, Poll_Anyway) # accesses 3 0 @ accesses 2 1"

text \<open>A future that has set the block is dropped, then the last reference.\<close>

definition leak_schedule :: "(nat \<times> choice) list" where
  "leak_schedule =
     (0, Call Op_try_get_ref) # accesses 2 0 @
     (1, Call Op_get_exclusive_ref) # accesses 4 1 @ (1, Poll) # accesses 2 1 @ (1, Cancel) # accesses 1 0"

lemma idle_reachable: "r\<^sup>*\<^sup>* all_idle w \<Longrightarrow> reachable fresh r w"
  by (rule reachable_steps) (auto intro: reachable.start simp: fresh_def)

lemma schedule_prompt:
  assumes "schedule (task_step pr N) ds all_idle = Some w"
    "\<forall>d \<in> set ds. fst d < M \<and> snd d \<noteq> Poll_Anyway \<and> snd d \<noteq> Cancel"
  shows "reachable fresh (prompt_step pr N M) w"
  by (rule idle_reachable, rule schedule_steps [OF assms(1)]) (use assms(2) in \<open>force intro: prompt_step.prompt\<close>)

text \<open>The world a schedule ends in, from its snapshot.\<close>

lemma snapshotE:
  assumes "map_option (snapshot 2) r = Some (v, ws, [(p0, f0, k0), (p1, f1, k1)])"
  obtains w where "r = Some w" "count_word w = v" "waiting w = ws" "points w 0 = p0" "points w 1 = p1"
    "flag w 0 = f0" "flag w 1 = f1" "wakes w 0 = k0" "wakes w 1 = k1"
  using assms by (auto simp: snapshot_def numeral_2_eq_2)

lemma idle_rest:
  assumes "schedule (task_step pr N) ds s = Some w" "\<forall>d \<in> set ds. fst d < M" "M \<le> t"
  shows "points w t = points s t"
proof -
  have "(\<lambda>w w'. points w' t = points w t)\<^sup>*\<^sup>* s w"
  proof (rule schedule_steps [OF assms(1)])
    fix d w w' assume d: "d \<in> set ds" "task_step pr N d w = Some w'"
    then have "fst d \<noteq> t" using assms(2,3) by auto
    with d(2) show "points w' t = points w t"
      by (cases d) (auto simp: task_step_def go_def count_step_def Let_def split_beta
          split: choice.splits point.splits if_splits option.splits list.splits)
  qed
  then show ?thesis by (induction rule: rtranclp_induct) auto
qed

section \<open>Properties\<close>

text \<open>C1: mutual exclusion under preemption. In every interleaving of any operations in which no
  store of REF_ALLOWED meets a word that counts references, a task that holds the exclusive
  reference excludes every reference, every other holder of the block and everyone else's exclusive
  reference, and the word says blocked with no references.\<close>

theorem exclusive_access:
  assumes "reachable fresh (careful_step pr N M) w" "countable pr M" "points w t = Has_Excl"
  shows "{u. points w u = Has_Ref} = {} \<and> {u. blocking (points w u)} = {t} \<and> count_word w = word_state 0 True"
proof -
  obtain l where l: "lock_ok l" "glue pr M w l" by (rule careful_safe [OF assms(1,2)])
  note g = glue_exclusive [OF l assms(3)]
  have "count_word w = word_state 0 True"
    using word_state_pair [of "count_word w"] g(3,4) by simp
  moreover have "blocking (points w t)" using assms(3) by simp
  ultimately have "count_word w = word_state 0 True" "{u. blocking (points w u)} = {t}" using g(2) by blast+
  moreover have "{u. points w u = Has_Ref} = {}" using g(1) by simp
  ultimately show ?thesis by simp
qed

text \<open>C2: the interleaved operations refine the reader-writer lock that the documentation promises:
  every careful run is, step for step, a run of the abstract lock.\<close>

theorem protocol_refines_lock:
  assumes "reachable fresh (careful_step pr N M) w" "countable pr M"
  shows "\<exists>l. reachable lock_init lock_step l \<and> glue pr M w l"
  by (rule protocol.sim_reachable [OF careful_counted [OF assms]])

text \<open>The count is exact in careful runs: the word counts the tasks that hold a reference, and it
  is blocked while any task owns the block.\<close>

theorem word_counts_references:
  assumes "reachable fresh (careful_step pr N M) w" "countable pr M"
  shows "refs_of (count_word w) = card {u. points w u = Has_Ref} \<and>
    (is_blk (count_word w) \<or> {u. blocking (points w u)} = {})"
proof -
  obtain l where l: "lock_ok l" "glue pr M w l" by (rule careful_safe [OF assms])
  then have "owner l = Some u" if "blocking (points w u)" for u using that by (simp add: glue_def)
  with l show ?thesis by (auto simp: glue_def lock_ok_def)
qed

text \<open>C3: the safe operations without try_get_exclusive_ref never wipe a reference: every run of them,
  with any polls and any dropped futures, is a careful one, so an exclusive reference is exclusive.\<close>

theorem waiting_operations_exclude:
  assumes "reachable fresh (waiting_step pr N M) w" "countable pr M"
  shows "reachable fresh (careful_step pr N M) w \<and> {t. wipes t w} = {} \<and>
    (\<forall>t u. points w t = Has_Excl \<and> points w u \<in> {Has_Ref, Has_Excl} \<longrightarrow> u = t)"
proof -
  note w = waiting_careful [OF assms]
  obtain l where l: "lock_ok l" "glue pr M w l" using careful_safe [OF _ assms(2)] w by blast
  have "\<not> wipes t w" for t
  proof
    assume wi: "wipes t w"
    have "clean (points w t)" using w by blast
    with wi have "points w t = Has_Excl" by (auto simp: wipes_def)
    from glue_exclusive(3) [OF l this] wi show False by (simp add: wipes_def)
  qed
  moreover have "u = t" if t: "points w t = Has_Excl" and u: "points w u \<in> {Has_Ref, Has_Excl}" for t u
  proof -
    have "points w u = Has_Excl" using glue_exclusive(1) [OF l t, of u] u by simp
    then show ?thesis using glue_exclusive(2) [OF l t, of u] by simp
  qed
  ultimately show ?thesis using w by blast
qed

text \<open>C14: the exclusive reference is not exclusive when an attempt to get it gives up: in three
  operations of two tasks, one task holds a reference and the other an exclusive reference.\<close>

theorem give_up_breaks_exclusion:
  "\<exists>w. reachable fresh (step pr 32 2) w \<and> points w 0 = Has_Ref \<and> points w 1 = Has_Excl"
proof -
  have "map_option (snapshot 2) (schedule (task_step pr 32) give_up_schedule all_idle) =
      Some (1, [], [(Has_Ref, None, False), (Has_Excl, None, False)])"
    by (cases pr; hypsubst; code_simp)
  then obtain w where "schedule (task_step pr 32) give_up_schedule all_idle = Some w"
    "points w 0 = Has_Ref" "points w 1 = Has_Excl" by (rule snapshotE)
  moreover have "\<forall>d \<in> set give_up_schedule. fst d < 2" by code_simp
  ultimately show ?thesis using schedule_reachable [of pr 32 give_up_schedule w 2] by blast
qed

text \<open>C31: a registration can come too late: the lock is open and nobody uses it, yet a task that asked
  for a reference sits in the queue with its flag set, and no wake-up is on its way.\<close>

theorem registration_comes_too_late:
  "\<exists>w. reachable fresh (prompt_step pr 32 2) w \<and> count_word w = 0 \<and> waiting w = [0] \<and>
     points w 0 = Parked Await_Ref \<and> \<not> wakes w 0 \<and> points w 1 = Idle"
proof -
  have "map_option (snapshot 2) (schedule (task_step pr 32) late_schedule all_idle) =
      Some (0, [0], [(Parked Await_Ref, Some True, False), (Idle, None, False)])"
    by (cases pr; hypsubst; code_simp)
  then obtain w where "schedule (task_step pr 32) late_schedule all_idle = Some w" "count_word w = 0"
    "waiting w = [0]" "points w 0 = Parked Await_Ref" "\<not> wakes w 0" "points w 1 = Idle"
    by (rule snapshotE) simp
  moreover have "\<forall>d \<in> set late_schedule. fst d < 2 \<and> snd d \<noteq> Poll_Anyway \<and> snd d \<noteq> Cancel" by code_simp
  ultimately show ?thesis using schedule_prompt [of pr 32 late_schedule w 2] by blast
qed

text \<open>C22: a pending reference can be forgotten for good: the flag says registered, the queue is empty,
  the lock is open, and whatever the tasks do from there on, nothing ever wakes the task.\<close>

theorem forgotten_for_good:
  "\<exists>w. reachable fresh (prompt_step pr 32 2) w \<and> count_word w = 0 \<and> points w 0 = Parked Await_Ref \<and>
     flag w 0 = Some True \<and> points w 1 = Idle \<and>
     {w'. (prompt_step pr 32 2)\<^sup>*\<^sup>* w w'} \<subseteq> {w'. forgotten 0 w'}"
proof -
  have "map_option (snapshot 2) (schedule (task_step pr 32) overwritten_schedule all_idle) =
      Some (0, [], [(Parked Await_Ref, Some True, False), (Idle, None, False)])"
    by (cases pr; hypsubst; code_simp)
  then obtain w where w: "schedule (task_step pr 32) overwritten_schedule all_idle = Some w" "count_word w = 0"
    "waiting w = []" "points w 0 = Parked Await_Ref" "\<not> wakes w 0" "points w 1 = Idle" "flag w 0 = Some True"
    by (rule snapshotE) simp
  have few: "\<forall>d \<in> set overwritten_schedule. fst d < 2 \<and> snd d \<noteq> Poll_Anyway \<and> snd d \<noteq> Cancel" by code_simp
  have "points w u \<noteq> Clear_Flag 0 \<and> points w u \<noteq> Wake_Up 0" for u
  proof (cases "u < 2")
    case True
    then have "u = 0 \<or> u = 1" by linarith
    with w show ?thesis by auto
  next
    case False
    with idle_rest [OF w(1), of 2 u] few show ?thesis by (simp add: all_idle_def)
  qed
  with w have "forgotten 0 w" by (simp add: forgotten_def)
  with w schedule_prompt [OF w(1) few] show ?thesis by (blast intro: forgotten_steps)
qed

text \<open>C29: a waiter can outlive its future: if a registered future is dropped while it waits, or is polled
  and resolved between the store and the wake-ups of an unblocking task, that task uses freed memory.\<close>

theorem waiter_outlives_future:
  "(\<exists>w. reachable fresh (step pr 32 2) w \<and> points w 0 = Idle \<and> points w 1 = Crashed Undefined) \<and>
   (\<exists>w. reachable fresh (step pr 32 2) w \<and> points w 0 = Has_Ref \<and> points w 1 = Crashed Undefined)"
proof
  have "map_option (snapshot 2) (schedule (task_step pr 32) cancel_schedule all_idle) =
      Some (0, [], [(Idle, None, False), (Crashed Undefined, None, False)])"
    by (cases pr; hypsubst; code_simp)
  then obtain w where "schedule (task_step pr 32) cancel_schedule all_idle = Some w"
    "points w 0 = Idle" "points w 1 = Crashed Undefined" by (rule snapshotE)
  moreover have "\<forall>d \<in> set cancel_schedule. fst d < 2" by code_simp
  ultimately show "\<exists>w. reachable fresh (step pr 32 2) w \<and> points w 0 = Idle \<and> points w 1 = Crashed Undefined"
    using schedule_reachable [of pr 32 cancel_schedule w 2] by blast
next
  have "map_option (snapshot 2) (schedule (task_step pr 32) early_poll_schedule all_idle) =
      Some (2, [], [(Has_Ref, None, False), (Crashed Undefined, None, False)])"
    by (cases pr; hypsubst; code_simp)
  then obtain w where "schedule (task_step pr 32) early_poll_schedule all_idle = Some w"
    "points w 0 = Has_Ref" "points w 1 = Crashed Undefined" by (rule snapshotE)
  moreover have "\<forall>d \<in> set early_poll_schedule. fst d < 2" by code_simp
  ultimately show "\<exists>w. reachable fresh (step pr 32 2) w \<and> points w 0 = Has_Ref \<and> points w 1 = Crashed Undefined"
    using schedule_reachable [of pr 32 early_poll_schedule w 2] by blast
qed

text \<open>C30: dropping the future of an exclusive reference after it has set the block blocks the references
  for ever: everyone is idle, and no task ever gets a reference of any kind again.\<close>

theorem lost_block_is_forever:
  "\<exists>w. reachable fresh (step pr 32 2) w \<and> count_word w = 1 \<and> {t. points w t \<noteq> Idle} = {} \<and>
     {w'. (step pr 32 2)\<^sup>*\<^sup>* w w'} \<subseteq> {w'. {t. points w' t \<in> {Has_Ref, Has_Block, Has_Excl}} = {}}"
proof -
  have "map_option (snapshot 2) (schedule (task_step pr 32) leak_schedule all_idle) =
      Some (1, [], [(Idle, None, False), (Idle, None, True)])"
    by (cases pr; hypsubst; code_simp)
  then obtain w where w: "schedule (task_step pr 32) leak_schedule all_idle = Some w" "count_word w = 1"
    "points w 0 = Idle" "points w 1 = Idle" by (rule snapshotE)
  have few: "\<forall>d \<in> set leak_schedule. fst d < 2" by code_simp
  have idle: "points w u = Idle" for u
  proof (cases "u < 2")
    case True
    then have "u = 0 \<or> u = 1" by linarith
    with w show ?thesis by auto
  next
    case False
    with idle_rest [OF w(1) few, of u] show ?thesis by (simp add: all_idle_def)
  qed
  then have "sealed pr w" using w(2) by (simp add: sealed_def is_blk_def)
  have "{t. points w' t \<in> {Has_Ref, Has_Block, Has_Excl}} = {}" if "(step pr 32 2)\<^sup>*\<^sup>* w w'" for w'
  proof -
    have "points w' u \<noteq> Has_Ref" for u using sealed_steps [OF that \<open>sealed pr w\<close>, of u] idle by simp
    moreover have "\<not> blocking (points w' u)" for u
      using sealed_steps [OF that \<open>sealed pr w\<close>] by (simp add: sealed_def)
    ultimately show ?thesis by (auto) (metis blocking.simps(6,7))+
  qed
  with w idle schedule_reachable [OF w(1) few] show ?thesis by blast
qed

section \<open>Witnesses\<close>

text \<open>A careful run: task 0 takes and drops a reference, task 1 takes the exclusive one.\<close>

definition careful_schedule :: "(nat \<times> choice) list" where
  "careful_schedule =
     (0, Call Op_try_get_ref) # accesses 3 0 @ (1, Call Op_get_exclusive_ref) # accesses 3 1"

lemma careful_run:
  obtains w where "reachable fresh (careful_step Release 32 2) w" "countable Release 2" "points w 1 = Has_Excl"
proof -
  have "map_option (snapshot 2) (schedule (careful_task Release 32) careful_schedule all_idle) =
      Some (1, [], [(Idle, None, False), (Has_Excl, None, False)])"
    by code_simp
  then obtain w where w: "schedule (careful_task Release 32) careful_schedule all_idle = Some w" "points w 1 = Has_Excl"
    by (rule snapshotE)
  moreover have "\<forall>d \<in> set careful_schedule. fst d < 2" by code_simp
  moreover have "countable Release 2" by (simp add: countable_def MAX_REFS_def)
  ultimately show thesis using careful_schedule_reachable [of Release 32 careful_schedule w 2] that by blast
qed

theorem exclusive_access_witness:
  "\<exists>w :: world. points w 1 = Has_Excl \<and> {u. points w u = Has_Ref} = {} \<and> {u. blocking (points w u)} = {1} \<and>
     count_word w = word_state 0 True"
proof (rule careful_run)
  fix w assume r: "reachable fresh (careful_step Release 32 2) w" "countable Release 2" "points w 1 = Has_Excl"
  from exclusive_access [OF r] r(3) show ?thesis by blast
qed

theorem protocol_refines_lock_witness:
  "\<exists>w l. points w 1 = Has_Excl \<and> reachable lock_init lock_step l \<and> glue Release 2 w l"
proof (rule careful_run)
  fix w assume r: "reachable fresh (careful_step Release 32 2) w" "countable Release 2" "points w 1 = Has_Excl"
  from protocol_refines_lock [OF r(1,2)] r(3) show ?thesis by blast
qed

theorem word_counts_references_witness:
  "\<exists>w :: world. points w 1 = Has_Excl \<and> refs_of (count_word w) = card {u. points w u = Has_Ref} \<and>
     (is_blk (count_word w) \<or> {u. blocking (points w u)} = {})"
proof (rule careful_run)
  fix w assume r: "reachable fresh (careful_step Release 32 2) w" "countable Release 2" "points w 1 = Has_Excl"
  from word_counts_references [OF r(1,2)] r(3) show ?thesis by blast
qed

text \<open>The same without the schedule's call that gives up.\<close>

theorem waiting_operations_exclude_witness:
  "\<exists>w. points w 1 = Has_Excl \<and> {t. wipes t w} = {} \<and>
     (\<forall>t u. points w t = Has_Excl \<and> points w u \<in> {Has_Ref, Has_Excl} \<longrightarrow> u = t)"
proof -
  have "map_option (snapshot 2) (schedule (task_step Release 32) careful_schedule all_idle) =
      Some (1, [], [(Idle, None, False), (Has_Excl, None, False)])"
    by code_simp
  then obtain w where w: "schedule (task_step Release 32) careful_schedule all_idle = Some w" "points w 1 = Has_Excl"
    by (rule snapshotE)
  have few: "\<forall>d \<in> set careful_schedule. fst d < 2 \<and> snd d \<notin> Call ` {Op_try_get_exclusive_ref, Op_try_block_refs, Op_block_refs}"
    by code_simp
  have "(waiting_step Release 32 2)\<^sup>*\<^sup>* all_idle w"
  proof (rule schedule_steps [OF w(1)])
    fix d v v' assume "d \<in> set careful_schedule" "task_step Release 32 d v = Some v'"
    with few show "waiting_step Release 32 2 v v'"
      by (cases d) (force intro!: waiting_step.waits simp: wiping_call_def)
  qed
  from waiting_operations_exclude [OF idle_reachable [OF this]] w(2) show ?thesis
    by (auto simp: countable_def MAX_REFS_def)
qed

end
