(* ===== verification/Protocol_Progress.thy ===== *)
theory Protocol_Progress
  imports Protocol_Runs
begin

text \<open>
  The word never gets stuck: as long as no pending future is dropped and no block is released over references, whoever waits for a
  reference, a block or an exclusive reference can still get it, whatever has happened before. The futures that are never woken
  (\<open>forgotten_for_good\<close>) and the block that is lost (\<open>lost_block_is_forever\<close>) are bugs of the wake-ups and of the drops, not of
  the count.
\<close>

section \<open>Runs in which nobody gives up waiting\<close>

inductive staying_step :: "profile \<Rightarrow> nat \<Rightarrow> nat \<Rightarrow> world \<Rightarrow> world \<Rightarrow> bool"
  for pr N M where
  staying: "t < M \<Longrightarrow> task_step pr N (t, ch) w = Some w' \<Longrightarrow> \<not> (\<exists>s. ch = Go s \<and> wipes t w) \<Longrightarrow> ch \<noteq> Cancel \<Longrightarrow>
    staying_step pr N M w w'"

lemma staying_careful: "staying_step pr N M w w' \<Longrightarrow> careful_step pr N M w w'"
  by (auto elim!: staying_step.cases intro: careful_step.careful)

text \<open>What a future and what an operation are for.\<close>

fun awaited :: "await \<Rightarrow> point" where
  "awaited Await_Ref = Has_Ref"
| "awaited Await_Block = Has_Block"
| "awaited _ = Has_Excl"

fun requested :: "operation \<Rightarrow> point" where
  "requested Op_try_get_ref = Has_Ref"
| "requested Op_get_ref = Has_Ref"
| "requested Op_blocking_get_ref = Has_Ref"
| "requested Op_try_block_refs = Has_Block"
| "requested Op_block_refs = Has_Block"
| "requested _ = Has_Excl"

text \<open>A block that is set is somebody's.\<close>

definition owned :: "nat \<Rightarrow> world \<Rightarrow> bool" where
  "owned M w \<longleftrightarrow> (is_blk (count_word w) \<longrightarrow> (\<exists>t < M. blocking (points w t)))"

definition sound :: "profile \<Rightarrow> nat \<Rightarrow> world \<Rightarrow> bool" where
  "sound pr M w \<longleftrightarrow> (\<exists>l. glue pr M w l \<and> lock_ok l) \<and> owned M w"

lemma owned_frame:
  assumes "owned M w" "points w' = (points w)(t := p)" "count_word w' = count_word w" "blocking p = blocking (points w t)"
  shows "owned M w'"
  using assms unfolding owned_def by (metis fun_upd_apply)

lemma owned_effect:
  assumes "owned M w" "t < M" "has_effect pr e (count_word w) v (points w t) p" "points w' = (points w)(t := p)" "count_word w' = v"
    and few: "points w t \<noteq> Has_Ref \<Longrightarrow> pr = Release \<Longrightarrow> refs_of (count_word w) < MAX_REFS"
  shows "owned M w'"
proof (cases e)
  case Keeps
  then show ?thesis using owned_frame [OF assms(1,4)] assms(3,5) by (simp add: same_role_def)
next
  case Enters
  with assms(3) few have "refs_of (count_word w) < MAX_REFS" using incr_write_debug by (cases pr) auto
  with Enters assms(3,5) incr_write_parts show ?thesis by (auto simp: owned_def)
next
  case Leaves
  with assms(3) have p: "v = count_word w - REF_INCR" "\<not> blocking (points w t)" by auto
  have "is_blk (count_word w') = is_blk (count_word w)" by (simp add: assms(5) p(1) is_blk_decr)
  moreover have "blocking (points w' u)" if "blocking (points w u)" for u using that p(2) by (auto simp: assms(4))
  ultimately show ?thesis using assms(1) by (auto simp: owned_def)
next
  case Unblocks
  then show ?thesis using assms allowed_parts by (simp add: owned_def)
qed (use assms in \<open>auto simp: owned_def\<close>)

lemma sound_step:
  assumes s: "sound pr M w" and size: "countable pr M" and step: "staying_step pr N M w w'"
  shows "sound pr M w'"
proof -
  obtain l where l: "glue pr M w l" "lock_ok l" "owned M w" using s by (auto simp: sound_def)
  obtain l' where "lock_step\<^sup>*\<^sup>* l l'" "glue pr M w' l'"
    using glue_step [OF l(1,2) _ staying_careful [OF step]] size by (auto simp: countable_def)
  moreover from this have "lock_ok l'" using lock.inv_steps l(2) by blast
  moreover have "owned M w'"
    using step
  proof (cases rule: staying_step.cases)
    case (staying t ch)
    have wf: "wf_point pr (points w t)" using l(1) by (simp add: glue_def)
    have few: "points w t \<noteq> Has_Ref \<Longrightarrow> pr = Release \<Longrightarrow> refs_of (count_word w) < MAX_REFS"
      using glue_readers(3,4) [OF l(1)] staying(1) size by (fastforce simp: countable_def)
    show ?thesis
    proof (cases "\<exists>s. ch = Go s \<and> at_count (points w t)")
      case True
      then obtain s where go: "go pr N s t w = Some w'" "at_count (points w t)" using staying(2) by (auto simp: task_step_def)
      obtain p c where acc: "access pr (points w t) (at_word (count_word w) s) = (p, c)" by fastforce
      from go_count [OF go] acc have w': "points w' = (points w)(t := p)" "count_word w' = cval c"
        by (auto simp: count_step_def Let_def)
      from access_effect [OF acc go(2) wf] obtain e where "has_effect pr e (count_word w) (cval c) (points w t) p" by blast
      then show ?thesis by (rule owned_effect [OF l(3) staying(1) _ w' few])
    next
      case False
      have "\<exists>p. points w' = (points w)(t := p) \<and> count_word w' = count_word w \<and> same_role (points w t) p"
        using staying(2,4) False go_frame [OF _ _ wf] start_call_role start_poll_role
        by (cases ch) (auto simp: task_step_def split: if_splits point.splits, blast)
      then show ?thesis using owned_frame [OF l(3)] by (auto simp: same_role_def)
    qed
  qed
  ultimately show ?thesis unfolding sound_def by blast
qed

lemma sound_steps: "(staying_step pr N M)\<^sup>*\<^sup>* w w' \<Longrightarrow> sound pr M w \<Longrightarrow> countable pr M \<Longrightarrow> sound pr M w'"
  by (induction rule: rtranclp_induct) (auto intro: sound_step)

lemma sound_reachable: "reachable fresh (staying_step pr N M) w \<Longrightarrow> countable pr M \<Longrightarrow> sound pr M w"
proof (induction rule: reachable.induct)
  case (start w)
  then obtain l where "lock_init l" "glue pr M w l" using glue_fresh by blast
  then show ?case using start lock.inv_init by (auto simp: sound_def owned_def fresh_def all_idle_def is_blk_def)
qed (auto intro: sound_step)

section \<open>The way out\<close>

abbreviation may_reach :: "profile \<Rightarrow> nat \<Rightarrow> nat \<Rightarrow> world \<Rightarrow> world \<Rightarrow> bool" where
  "may_reach pr N M \<equiv> (staying_step pr N M)\<^sup>*\<^sup>*"

lemma one_go:
  assumes "t < M" "go pr N s t w = Some w'" "\<not> wipes t w"
  shows "may_reach pr N M w w'"
  using assms by (intro r_into_rtranclp staying_step.staying [of t M pr N "Go s"]) (auto simp: task_step_def)

lemma go_count_point:
  assumes "access pr (points w t) (at_word (count_word w) False) = (p, c)" "at_count (points w t)"
    "points w t \<in> {Has_Block, Has_Excl, Give_Up} \<Longrightarrow> refs_of (count_word w) = 0" "t < M"
  shows "\<exists>w'. may_reach pr N M w w' \<and> points w' = (points w)(t := p) \<and> count_word w' = cval c"
proof -
  have "go pr N False t w = Some (count_step pr False t w)" using assms(2) by (cases "points w t") (simp_all add: go_def)
  moreover have "\<not> wipes t w" using assms(3) by (auto simp: wipes_def)
  ultimately have "may_reach pr N M w (count_step pr False t w)" by (rule one_go [OF assms(4)])
  then show ?thesis using assms(1) by (intro exI [of _ "count_step pr False t w"]) (simp add: count_step_def Let_def)
qed

text \<open>Everybody who has a reference drops it.\<close>

lemma readers_leave:
  assumes "sound pr M w" "countable pr M"
  shows "\<exists>w'. may_reach pr N M w w' \<and> refs_of (count_word w') = 0 \<and> (\<forall>t. points w t \<noteq> Has_Ref \<longrightarrow> points w' t = points w t)"
  using assms(1)
proof (induction "refs_of (count_word w)" arbitrary: w)
  case (Suc k)
  obtain l where l: "glue pr M w l" using Suc.prems by (auto simp: sound_def)
  from glue_readers(1,3) [OF l] Suc(2) have "readers l \<noteq> {}" by force
  then obtain t where t: "points w t = Has_Ref" "t < M" using l by (auto simp: glue_def)
  let ?w = "moved t Idle (w\<lparr>count_word := count_word w - REF_INCR\<rparr>)"
  have "go pr N False t w = Some ?w" using t by (simp add: go_def count_step_def at_word resolved_def)
  then have go: "may_reach pr N M w ?w" by (rule one_go [OF t(2)]) (simp add: wipes_def t)
  have "k = refs_of (count_word ?w)" using decr_parts [of "count_word w"] Suc(2) by simp
  from Suc.hyps(1) [OF this sound_steps [OF go Suc.prems assms(2)]] obtain w'
    where w': "may_reach pr N M ?w w'" "refs_of (count_word w') = 0" "\<forall>u. points ?w u \<noteq> Has_Ref \<longrightarrow> points w' u = points ?w u" by blast
  have "points w' u = points w u" if "points w u \<noteq> Has_Ref" for u using w'(3) that t by (cases "u = t") auto
  with rtranclp_trans [OF go w'(1)] w'(2) show ?case by blast
qed auto

text \<open>Without references a task with the block gets its exclusive reference.\<close>

lemma quiesced_free: "refs_of v = 0 \<Longrightarrow> quiesced p (at_word v s) = (Has_Excl, at_word v s\<lparr>cenv := []\<rparr>)"
  by (simp add: quiesced_def at_word standard_ref_count_eq_0)

lemma quiesce_goes:
  assumes "points w t \<in> {Quiesce_Try i, Quiesce_Get, Quiesce_Blocking, Quiesce_Poll}" "refs_of (count_word w) = 0" "t < M"
  shows "\<exists>w'. may_reach pr N M w w' \<and> points w' = (points w)(t := Has_Excl) \<and> count_word w' = count_word w"
  using go_count_point [of pr w t Has_Excl "at_word (count_word w) False\<lparr>cenv := []\<rparr>" M N] assms by (auto simp: quiesced_free at_word)

lemma poll_anyway:
  assumes "points w t = Parked a" "t < M"
  shows "may_reach pr N M w (moved t (start_poll a) w)"
  using assms by (intro r_into_rtranclp staying_step.staying [of t M pr N Poll_Anyway]) (simp_all add: task_step_def)

lemma owner_gets_it:
  assumes "blocking (points w t)" "points w t \<notin> {Has_Block, Has_Excl, Give_Up}" "refs_of (count_word w) = 0" "t < M"
  shows "\<exists>w'. may_reach pr N M w w' \<and> points w' = (points w)(t := Has_Excl) \<and> count_word w' = count_word w"
proof -
  have quiesce: ?thesis
    if "may_reach pr N M w v" "points v = (points w)(t := Quiesce_Poll)" "count_word v = count_word w" for v
    using quiesce_goes [of v t 0 M pr N] that assms(3,4) by (auto intro: rtranclp_trans)
  from assms(1,2) consider i where "points w t \<in> {Quiesce_Try i, Quiesce_Get, Quiesce_Blocking, Quiesce_Poll}"
    | "points w t \<in> {New_Future Await_Free, Wake_Self Await_Free}" | "points w t = Parked Await_Free"
    by (cases "points w t") auto
  then show ?thesis
  proof cases
    case 1
    then show ?thesis using quiesce_goes assms(3,4) by blast
  next
    case 2
    let ?v = "moved t (Parked Await_Free) (set_wake t True w)"
    have "go pr N False t w = Some ?v" using 2 by (auto simp: go_def)
    with one_go [OF assms(4) this] 2 have "may_reach pr N M w ?v" by (auto simp: wipes_def)
    moreover have "may_reach pr N M ?v (moved t Quiesce_Poll ?v)"
      using poll_anyway [of ?v t Await_Free M pr N] assms(4) by (simp add: start_poll_def)
    ultimately have "may_reach pr N M w (moved t Quiesce_Poll ?v)" by (rule rtranclp_trans)
    then show ?thesis by (rule quiesce) simp_all
  next
    case 3
    have "may_reach pr N M w (moved t Quiesce_Poll w)" using poll_anyway [OF 3 assms(4)] by (simp add: start_poll_def)
    then show ?thesis by (rule quiesce) simp_all
  qed
qed

lemma owner_releases:
  assumes "blocking (points w t)" "refs_of (count_word w) = 0" "t < M"
  shows "\<exists>w'. may_reach pr N M w w' \<and> points w' = (points w)(t := First_Pop) \<and> count_word w' = REF_ALLOWED"
proof -
  have store: "\<exists>w'. may_reach pr N M w w' \<and> points w' = (points w)(t := First_Pop) \<and> count_word w' = REF_ALLOWED"
    if "points w t \<in> {Has_Block, Has_Excl, Give_Up}" "refs_of (count_word w) = 0" for w
    using go_count_point [of pr w t First_Pop "store REF_ALLOWED (at_word (count_word w) False)" M N] that assms(3) by (auto simp: at_word)
  show ?thesis
  proof (cases "points w t \<in> {Has_Block, Has_Excl, Give_Up}")
    case False
    then obtain v where v: "may_reach pr N M w v" "points v = (points w)(t := Has_Excl)" "count_word v = count_word w"
      using owner_gets_it [OF assms(1) _ assms(2,3)] by blast
    with store [of v] assms(2) show ?thesis by (auto intro: rtranclp_trans)
  qed (use store assms(2) in blast)
qed

text \<open>So the word can be made zero, and a task that does not have the block itself does not notice.\<close>

lemma cleared:
  assumes "sound pr M w" "countable pr M" "points w t \<noteq> Has_Ref" "\<not> blocking (points w t)"
  shows "\<exists>w'. may_reach pr N M w w' \<and> count_word w' = 0 \<and> points w' t = points w t"
proof -
  obtain v where v: "may_reach pr N M w v" "refs_of (count_word v) = 0" "points v t = points w t"
    using readers_leave [OF assms(1,2)] assms(3) by metis
  have s: "sound pr M v" by (rule sound_steps [OF v(1) assms(1,2)])
  then obtain l where l: "glue pr M v l" "lock_ok l" "owned M v" by (auto simp: sound_def)
  show ?thesis
  proof (cases "is_blk (count_word v)")
    case True
    with l(3) obtain b where b: "blocking (points v b)" "b < M" by (auto simp: owned_def)
    from owner_releases [OF b(1) v(2) b(2)] obtain w'
      where "may_reach pr N M v w'" "points w' = (points v)(b := First_Pop)" "count_word w' = REF_ALLOWED" by blast
    moreover have "b \<noteq> t" using b v(3) assms(4) by auto
    ultimately show ?thesis using v by (auto simp: REF_ALLOWED_def intro: rtranclp_trans)
  next
    case False
    with v(2) have "count_word v = 0" using word_state_pair [of "count_word v"] by (simp add: word_state_def)
    with v show ?thesis by blast
  qed
qed


section \<open>Getting in\<close>

text \<open>Undisturbed on a word that is zero, every way in works at the first exchange.\<close>

lemma increment_goes:
  assumes "points w t = Incr_Load g" "count_word w = 0" "t < M"
  shows "\<exists>w'. may_reach pr N M w w' \<and> points w' t = Has_Ref"
proof -
  have "checked_add pr (0 AND REF_COUNT_MASK) REF_INCR = Inr 2" by (cases pr; hypsubst; code_simp)
  then obtain v where v: "may_reach pr N M w v" "points v t = Incr_Cas g 0 0 2" "count_word v = 0"
    using go_count_point [of pr w t _ _ M N] assms by (auto simp: at_word)
  moreover obtain w' where "may_reach pr N M v w'" "points w' t = Has_Ref"
    using go_count_point [of pr v t _ _ M N] v(2,3) assms(3) by (auto simp: try_incr_def at_word)
  ultimately show ?thesis by (auto intro: rtranclp_trans)
qed

lemma block_goes:
  assumes "points w t = Block_Load g" "count_word w = 0" "t < M"
  shows "\<exists>w'. may_reach pr N M w w' \<and> points w' t = block_done g \<and> refs_of (count_word w') = 0"
proof -
  obtain v where v: "may_reach pr N M w v" "points v t = Block_Cas g 0 0 1" "count_word v = 0"
    using go_count_point [of pr w t _ _ M N] assms by (auto simp: at_word Let_def REF_BLOCKED_def)
  moreover obtain w' where "may_reach pr N M v w'" "points w' t = block_done g" "count_word w' = 1"
    using go_count_point [of pr v t _ _ M N] v(2,3) assms(3) by (auto simp: try_block_def at_word)
  moreover have "refs_of 1 = 0" by (simp add: refs_of_def)
  ultimately show ?thesis by (metis rtranclp_trans)
qed

lemma exclusive_goes:
  assumes "points w t = Block_Load g" "count_word w = 0" "t < M"
    "block_done g \<in> {Quiesce_Try i, Quiesce_Get, Quiesce_Blocking, Quiesce_Poll}"
  shows "\<exists>w'. may_reach pr N M w w' \<and> points w' t = Has_Excl"
proof -
  obtain v where v: "may_reach pr N M w v" "points v t = block_done g" "refs_of (count_word v) = 0"
    using block_goes [OF assms(1-3)] by blast
  with quiesce_goes [of v t i M pr N] assms(3,4) obtain w' where "may_reach pr N M v w'" "points w' t = Has_Excl" by auto
  with v(1) show ?thesis by (auto intro: rtranclp_trans)
qed

lemma call_goes:
  assumes "points w t = Idle" "count_word w = 0" "t < M"
  shows "\<exists>w'. may_reach pr N M w w' \<and> points w' t = requested opn"
proof -
  let ?v = "moved t (start_call opn) w"
  have call: "may_reach pr N M w ?v"
    using assms by (intro r_into_rtranclp staying_step.staying [of t M pr N "Call opn"]) (simp_all add: task_step_def)
  have "\<exists>w'. may_reach pr N M ?v w' \<and> points w' t = requested opn"
    using increment_goes [of ?v t "Op opn" M pr N] block_goes [of ?v t "Op opn" M pr N] exclusive_goes [of ?v t "Op opn" M 4 pr N] assms(2,3)
    by (cases opn) (auto simp: start_call_def block_done_def)
  with call show ?thesis by (auto intro: rtranclp_trans)
qed

lemma poll_goes:
  assumes "points w t = Parked a" "count_word w = 0" "t < M" "a \<noteq> Await_Free"
  shows "\<exists>w'. may_reach pr N M w w' \<and> points w' t = awaited a"
proof -
  let ?v = "moved t (start_poll a) w"
  have "\<exists>w'. may_reach pr N M ?v w' \<and> points w' t = awaited a"
  proof (cases a)
    case Await_Ref
    obtain v where v: "may_reach pr N M ?v v" "points v t = Incr_Load (Poll_Of Await_Ref)" "count_word v = 0"
      using go_count_point [of pr ?v t _ _ M N] Await_Ref assms(2,3) by (auto simp: start_poll_def at_word block_state_def)
    with increment_goes [OF v(2,3) assms(3), of pr N] Await_Ref show ?thesis by (auto intro: rtranclp_trans)
  next
    case Await_Block
    with block_goes [of ?v t "Poll_Of a" M pr N] assms(2,3) show ?thesis by (auto simp: start_poll_def block_done_def)
  next
    case Await_Excl
    with exclusive_goes [of ?v t "Poll_Of a" M 0 pr N] assms(2,3) show ?thesis by (auto simp: start_poll_def block_done_def)
  qed (use assms(4) in simp)
  with poll_anyway [OF assms(1,3)] show ?thesis by (auto intro: rtranclp_trans)
qed

section \<open>Property\<close>

text \<open>C4: the count is never stuck: as long as no future has been dropped while it was pending and no block released over references,
  every pending future can still be granted what it waits for and every operation can still succeed, whatever the interleaving so far:
  the references can be dropped, whoever has the block can get its exclusive reference and release it, and then the word is free.
  (A future that nobody wakes has to be polled anyway, see forgotten_for_good; and lost_block_is_forever shows that a dropped future
  can stop everything.)\<close>

theorem count_never_stuck:
  assumes "reachable fresh (staying_step pr N M) w" "countable pr M" "t < M"
  shows "(\<forall>a. points w t = Parked a \<longrightarrow> (\<exists>w'. (staying_step pr N M)\<^sup>*\<^sup>* w w' \<and> points w' t = awaited a)) \<and>
    (points w t = Idle \<longrightarrow> (\<forall>opn. \<exists>w'. (staying_step pr N M)\<^sup>*\<^sup>* w w' \<and> points w' t = requested opn))"
proof (intro conjI allI impI)
  note s = sound_reachable [OF assms(1,2)]
  show "\<exists>w'. (staying_step pr N M)\<^sup>*\<^sup>* w w' \<and> points w' t = awaited a" if p: "points w t = Parked a" for a
  proof (cases "a = Await_Free")
    case True
    obtain v where v: "may_reach pr N M w v" "refs_of (count_word v) = 0" "points v t = points w t"
      using readers_leave [OF s assms(2)] p by force
    with owner_gets_it [of v t M pr N] p True assms(3) show ?thesis by (auto intro: rtranclp_trans)
  next
    case False
    obtain v where v: "may_reach pr N M w v" "count_word v = 0" "points v t = points w t"
      using cleared [OF s assms(2), of t N] p False by auto
    with poll_goes [of v t a M pr N] p False assms(3) show ?thesis by (auto intro: rtranclp_trans)
  qed
  show "\<exists>w'. (staying_step pr N M)\<^sup>*\<^sup>* w w' \<and> points w' t = requested opn" if p: "points w t = Idle" for opn
  proof -
    obtain v where v: "may_reach pr N M w v" "count_word v = 0" "points v t = points w t"
      using cleared [OF s assms(2), of t N] p by auto
    with call_goes [of v t M pr N opn] p assms(3) show ?thesis by (auto intro: rtranclp_trans)
  qed
qed

section \<open>Witness\<close>

text \<open>The task that nobody wakes any more, at the end of \<open>overwritten_schedule\<close>.\<close>

lemma staying_schedule:
  assumes "schedule (careful_task pr N) ds all_idle = Some w" "\<forall>d \<in> set ds. fst d < M \<and> snd d \<noteq> Cancel"
  shows "reachable fresh (staying_step pr N M) w"
proof (rule idle_reachable, rule schedule_steps [OF assms(1)])
  fix d v v' assume "d \<in> set ds" "careful_task pr N d v = Some v'"
  with assms(2) show "staying_step pr N M v v'"
    by (cases d) (force simp: careful_task_def split: if_splits choice.splits intro!: staying_step.staying)
qed

theorem count_never_stuck_witness:
  "\<exists>w w'. points w 0 = Parked Await_Ref \<and> \<not> wakes w 0 \<and> waiting w = [] \<and> (staying_step Release 32 2)\<^sup>*\<^sup>* w w' \<and> points w' 0 = Has_Ref"
proof -
  have "map_option (snapshot 2) (schedule (careful_task Release 32) overwritten_schedule all_idle) =
      Some (0, [], [(Parked Await_Ref, Some True, False), (Idle, None, False)])"
    by code_simp
  then obtain w where w: "schedule (careful_task Release 32) overwritten_schedule all_idle = Some w" "waiting w = []"
    "points w 0 = Parked Await_Ref" "\<not> wakes w 0" by (rule snapshotE) simp
  have "\<forall>d \<in> set overwritten_schedule. fst d < 2 \<and> snd d \<noteq> Cancel" by code_simp
  from count_never_stuck [OF staying_schedule [OF w(1) this], of 0] w(2-4) show ?thesis
    by (auto simp: countable_def MAX_REFS_def)
qed

end
