(* ===== verification/Protocol_Code.thy ===== *)
theory Protocol_Code
  imports Ref_Protocol
begin

text \<open>
  The program points of \<open>Ref_Protocol\<close> are those of the operations of \<open>Ref_Count\<close>: a task
  whose accesses all hit one cell, with any interference in between, computes what the
  operation computes on that cell, and leaves the cell as it does; and it pops, clears and wakes what the operation does.
\<close>

section \<open>Accesses to the count\<close>

fun settled :: "point \<Rightarrow> bool" where
  "settled Has_Ref = True"
| "settled Has_Block = True"
| "settled Has_Excl = True"
| "settled Give_Up = True"
| "settled p = (\<not> at_count p)"

text \<open>At most \<open>n\<close> accesses of one task to the cell, until its call has come to an end.\<close>

fun solo :: "profile \<Rightarrow> nat \<Rightarrow> point \<Rightarrow> u32 acell \<Rightarrow> point \<times> u32 acell" where
  "solo pr 0 p c = (p, c)"
| "solo pr (Suc n) p c =
     (if settled p then (p, c) else (case access pr p c of (p, c) \<Rightarrow> solo pr n p c))"

lemma solo_settled: "settled p \<Longrightarrow> solo pr n p c = (p, c)"
  by (cases n) auto

lemma solo_block_cas:
  "i < 3 \<Longrightarrow> solo pr (Suc n) (Block_Cas g i cur nx) c = (case try_block cur nx c of
     (Done, c) \<Rightarrow> solo pr n (block_done g) c
   | (Retry cur nx, c) \<Rightarrow> solo pr n (Block_Cas g (Suc i) cur nx) c)"
  "solo pr (Suc n) (Block_Cas g 3 cur nx) c = (case try_last cur nx c of
     (Done, c) \<Rightarrow> solo pr n (block_done g) c | (Retry _ _, c) \<Rightarrow> solo pr n (block_failed g) c)"
  by (auto split: prod.split attempt.split)

lemma solo_incr_cas:
  "i < 3 \<Longrightarrow> solo pr (Suc n) (Incr_Cas g i cur nx) c = (case try_incr pr cur nx c of
     (Inl e, c) \<Rightarrow> (Crashed e, c)
   | (Inr Done, c) \<Rightarrow> (Has_Ref, c)
   | (Inr (Retry cur nx), c) \<Rightarrow> solo pr n (Incr_Cas g (Suc i) cur nx) c)"
  "solo pr (Suc n) (Incr_Cas g 3 cur nx) c = (case try_last cur nx c of
     (Done, c) \<Rightarrow> (Has_Ref, c) | (Retry cur nx, c) \<Rightarrow> solo pr n (incr_failed g cur nx) c)"
  by (auto simp: solo_settled split: prod.split attempt.split sum.split)

lemma solo_block:
  assumes "\<And>n c. m \<le> n \<Longrightarrow> solo pr n (block_done g) c = F c" "\<And>c. solo pr m (block_failed g) c = G c"
  shows "solo pr (m + 5) (Block_Load g) c = (case try_block_cell c of (ok, c) \<Rightarrow> if ok then F c else G c)"
proof -
  obtain v c0 where ld: "load c = (v, c0)" by fastforce
  have start: "solo pr (m + 5) (Block_Load g) c =
      solo pr (m + 4) (Block_Cas g 0 (v AND REF_COUNT_MASK) (v AND REF_COUNT_MASK OR REF_BLOCKED)) c0"
    by (simp add: numeral_eq_Suc ld Let_def)
  have cas: "solo pr (m + 4) (Block_Cas g 0 cur nx) d = (case try_block cur nx d of
        (Done, d) \<Rightarrow> F d | (Retry cur nx, d) \<Rightarrow> solo pr (m + 3) (Block_Cas g 1 cur nx) d)"
      "solo pr (m + 3) (Block_Cas g 1 cur nx) d = (case try_block cur nx d of
        (Done, d) \<Rightarrow> F d | (Retry cur nx, d) \<Rightarrow> solo pr (m + 2) (Block_Cas g 2 cur nx) d)"
      "solo pr (m + 2) (Block_Cas g 2 cur nx) d = (case try_block cur nx d of
        (Done, d) \<Rightarrow> F d | (Retry cur nx, d) \<Rightarrow> solo pr (m + 1) (Block_Cas g 3 cur nx) d)"
      "solo pr (m + 1) (Block_Cas g 3 cur nx) d = (case try_last cur nx d of
        (Done, d) \<Rightarrow> F d | (Retry _ _, d) \<Rightarrow> G d)" for cur nx d
    using solo_block_cas(1) [of 0 pr "m + 3" g cur nx d] solo_block_cas(1) [of 1 pr "m + 2" g cur nx d]
      solo_block_cas(1) [of 2 pr "m + 1" g cur nx d] solo_block_cas(2) [of pr m g cur nx d] assms
    by (simp_all add: eval_nat_numeral cong: prod.case_cong attempt.case_cong del: solo.simps access.simps)
  show ?thesis
    unfolding start try_block_cell_def ld Let_def
    by (auto simp: cas split: attempt.split prod.split simp del: solo.simps access.simps One_nat_def add_2_eq_Suc')
qed

text \<open>The program points of the increments are the code's: from the first load, a task that makes its
  accesses on a cell, with any interference in between, ends after at most five where try_get_ref ends on
  that cell, a panic included, and leaves the cell as it does.\<close>

theorem reference_points_are_the_code:
  "solo pr 5 (Incr_Load (Op Op_try_get_ref)) c = (case try_incr_cell pr c of (r, c) \<Rightarrow>
    (case r of Inl e \<Rightarrow> Crashed e | Inr ok \<Rightarrow> if ok then Has_Ref else Idle, c))"
proof -
  let ?g = "Op Op_try_get_ref"
  obtain v c0 where ld: "load c = (v, c0)" by fastforce
  have cas: "solo pr 4 (Incr_Cas ?g 0 cur nx) d = (case try_incr pr cur nx d of
        (Inl e, d) \<Rightarrow> (Crashed e, d) | (Inr Done, d) \<Rightarrow> (Has_Ref, d)
      | (Inr (Retry cur nx), d) \<Rightarrow> solo pr 3 (Incr_Cas ?g 1 cur nx) d)"
      "solo pr 3 (Incr_Cas ?g 1 cur nx) d = (case try_incr pr cur nx d of
        (Inl e, d) \<Rightarrow> (Crashed e, d) | (Inr Done, d) \<Rightarrow> (Has_Ref, d)
      | (Inr (Retry cur nx), d) \<Rightarrow> solo pr 2 (Incr_Cas ?g 2 cur nx) d)"
      "solo pr 2 (Incr_Cas ?g 2 cur nx) d = (case try_incr pr cur nx d of
        (Inl e, d) \<Rightarrow> (Crashed e, d) | (Inr Done, d) \<Rightarrow> (Has_Ref, d)
      | (Inr (Retry cur nx), d) \<Rightarrow> solo pr 1 (Incr_Cas ?g 3 cur nx) d)"
      "solo pr 1 (Incr_Cas ?g 3 cur nx) d = (case try_last cur nx d of
        (Done, d) \<Rightarrow> (Has_Ref, d) | (Retry _ _, d) \<Rightarrow> (Idle, d))" for cur nx d
    using solo_incr_cas(1) [of 0 pr 3 ?g cur nx d] solo_incr_cas(1) [of 1 pr 2 ?g cur nx d]
      solo_incr_cas(1) [of 2 pr 1 ?g cur nx d] solo_incr_cas(2) [of pr 0 ?g cur nx d]
    by (simp_all add: eval_nat_numeral incr_failed_def cong: prod.case_cong sum.case_cong attempt.case_cong
        del: solo.simps(2) access.simps)
  have start: "solo pr 5 (Incr_Load ?g) c = (case checked_add pr (v AND REF_COUNT_MASK) REF_INCR of
      Inl e \<Rightarrow> (Crashed e, c0) | Inr nx \<Rightarrow> solo pr 4 (Incr_Cas ?g 0 (v AND REF_COUNT_MASK) nx) c0)"
    by (simp add: numeral_eq_Suc ld Let_def solo_settled split: sum.split)
  show ?thesis
    unfolding start try_incr_cell_def ld Let_def many_weak_try_incr_refs_def
    by (auto simp: cas split: sum.split attempt.split prod.split simp del: solo.simps access.simps One_nat_def add_2_eq_Suc')
qed

text \<open>The five rounds of \<open>try_get_exclusive_ref\<close>.\<close>

lemma solo_quiesce:
  "i < n \<Longrightarrow> solo pr n (Quiesce_Try i) (count rc) = (case await_no_refs (Suc i) rc of
     (free, rc) \<Rightarrow> (if free then Has_Excl else Give_Up, count rc))"
proof (induction i arbitrary: n rc)
  case 0
  then show ?case
    by (cases n) (auto simp: quiesced_def no_standard_refs_def std_ref_count_def load_count_def Let_def
        solo_settled split: prod.split)
next
  case (Suc i)
  then obtain m where m: "n = Suc m" "i < m" by (cases n) auto
  obtain v c where ld: "load (count rc) = (v, c)" by fastforce
  have "no_standard_refs rc = (standard_ref_count v = 0, rc\<lparr>count := c\<rparr>)"
    by (simp add: no_standard_refs_def std_ref_count_def load_count_def ld)
  with Suc.IH [OF m(2), of "rc\<lparr>count := c\<rparr>"] m show ?case
    by (simp add: quiesced_def ld solo_settled)
qed

text \<open>The part of \<open>try_get_exclusive_ref\<close> before its unblocking, which only loads and exchanges.\<close>

lemma solo_exclusive:
  "solo pr 10 (Block_Load (Op Op_try_get_exclusive_ref)) (count rc) =
     (let (ok, rc) = try_block_refs rc in
      if ok then (let (free, rc) = await_no_refs 5 rc in (if free then Has_Excl else Give_Up, count rc))
      else (Idle, count rc))"
proof -
  let ?F = "\<lambda>c. case await_no_refs 5 (rc\<lparr>count := c\<rparr>) of (free, rc) \<Rightarrow> (if free then Has_Excl else Give_Up, count rc)"
  have "solo pr n (block_done (Op Op_try_get_exclusive_ref)) c = ?F c" if "5 \<le> n" for n c
    using solo_quiesce [of 4 n pr "rc\<lparr>count := c\<rparr>"] that by (simp add: block_done_def)
  moreover have "solo pr 5 (block_failed (Op Op_try_get_exclusive_ref)) c = (Idle, c)" for c
    by (simp add: block_failed_def solo_settled)
  ultimately show ?thesis
    using solo_block [of 5 pr "Op Op_try_get_exclusive_ref" ?F "\<lambda>c. (Idle, c)" "count rc"]
    by (auto simp: try_block_refs_def Let_def split: prod.split)
qed

section \<open>Whole operations\<close>

text \<open>
  The next step of task \<open>t\<close> with the count in a cell of its own, whose accesses are interfered with; the
  \<open>count_word\<close> of the world is not used. Nobody else moves.
\<close>

definition solo_step :: "profile \<Rightarrow> nat \<Rightarrow> nat \<Rightarrow> u32 acell \<times> world \<Rightarrow> u32 acell \<times> world" where
  "solo_step pr N t s = (case s of (c, w) \<Rightarrow>
     if at_count (points w t) then
       (case access pr (points w t) c of (p, c) \<Rightarrow> (c, if resolved p then set_flag t None (moved t p w) else moved t p w))
     else (c, case go pr N False t w of None \<Rightarrow> w | Some w \<Rightarrow> w))"

text \<open>It is the step \<open>go\<close> of the protocol, with the shared word as the cell.\<close>

lemma solo_step_is_go:
  assumes "go pr N sp t w = Some w'" "at_count (points w t) \<or> \<not> sp"
  shows "case solo_step pr N t (at_word (count_word w) sp, w) of (c, v) \<Rightarrow>
    w' = (if at_count (points w t) then v\<lparr>count_word := cval c\<rparr> else v)"
  using assms go_count [OF assms(1)]
  by (cases "at_count (points w t)")
    (auto simp: solo_step_def count_step_def Let_def moved_def set_flag_def split: prod.split)

definition runs :: "profile \<Rightarrow> nat \<Rightarrow> nat \<Rightarrow> u32 acell \<times> world \<Rightarrow> u32 acell \<times> world \<Rightarrow> bool" where
  "runs pr N t s s' \<longleftrightarrow> (\<exists>k. (solo_step pr N t ^^ k) s = s')"

lemma runs_refl: "runs pr N t s s"
  unfolding runs_def by (rule exI [of _ 0]) simp

lemma runs_step: "runs pr N t (solo_step pr N t s) s' \<Longrightarrow> runs pr N t s s'"
  unfolding runs_def by (metis funpow_Suc_right o_apply)

lemma runs_trans: "runs pr N t s s' \<Longrightarrow> runs pr N t s' s'' \<Longrightarrow> runs pr N t s s''"
  unfolding runs_def by (metis funpow_add o_apply)

lemma runs_one: "solo_step pr N t s = s' \<Longrightarrow> runs pr N t s s'"
  using runs_step runs_refl by metis

text \<open>
  The waiters of the world are those in the array queue, its flags the ones alive in memory, and its wake-ups those the
  executor has received.
\<close>

definition mirrors :: "nat \<Rightarrow> world \<Rightarrow> waiter array_queue \<Rightarrow> memory \<Rightarrow> bool" where
  "mirrors N w q m \<longleftrightarrow> holds q N (map (\<lambda>u. new_waiter u u) (waiting w)) \<and> flags m = flag w \<and> {u. wakes w u} = set (woken m)"

lemma mirrors_moved [simp]: "mirrors N (moved t p w) q m = mirrors N w q m"
  by (simp add: mirrors_def moved_def)

text \<open>An operation of the code, and the run of a task from its first point: both end alike.\<close>

definition runs_as ::
  "profile \<Rightarrow> nat \<Rightarrow> nat \<Rightarrow> point \<Rightarrow> world \<Rightarrow> ref_count \<Rightarrow> 'r call \<Rightarrow> (fault + 'r \<Rightarrow> point) \<Rightarrow> bool" where
  "runs_as pr N t p w rc res fin \<longleftrightarrow> (\<exists>r rc' m' w'. res = Some (r, rc', m') \<and>
     runs pr N t (count rc, moved t p w) (count rc', w') \<and> points w' = (points w)(t := fin r) \<and>
     mirrors N w' (waiter_queue rc') m')"

fun freed :: "fault + unit \<Rightarrow> point" where
  "freed (Inl e) = Crashed e"
| "freed (Inr _) = Idle"

fun obtained :: "fault + exclusive_handle option \<Rightarrow> point" where
  "obtained (Inl e) = Crashed e"
| "obtained (Inr (Some _)) = Has_Excl"
| "obtained (Inr None) = Idle"

lemma wake_points:
  assumes "mirrors N w q m" "points w t = Clear_Flag u"
  shows "(wake (new_waiter u u) m = Inl Undefined \<and> runs pr N t (c, w) (c, moved t (Crashed Undefined) w)) \<or>
    (\<exists>m' w'. wake (new_waiter u u) m = Inr m' \<and> runs pr N t (c, w) (c, w') \<and> points w' = (points w)(t := Drain) \<and>
      waiting w' = waiting w \<and> mirrors N w' q m')"
proof (cases "flag w u")
  case None
  then have "runs pr N t (c, w) (c, moved t (Crashed Undefined) w)"
    using assms(2) by (intro runs_one) (simp add: solo_step_def go_def)
  with None assms(1) show ?thesis
    by (simp add: mirrors_def wake_def set_registered_def new_waiter_def)
next
  case (Some b)
  let ?w1 = "moved t (Wake_Up u) (set_flag u (Some False) w)" and ?w2 = "moved t Drain (set_wake u True (moved t (Wake_Up u) (set_flag u (Some False) w)))"
  have "solo_step pr N t (c, w) = (c, ?w1)" "solo_step pr N t (c, ?w1) = (c, ?w2)"
    using assms(2) Some by (simp_all add: solo_step_def go_def)
  then have "runs pr N t (c, w) (c, ?w2)" by (metis runs_step runs_refl)
  moreover have "wake (new_waiter u u) m = Inr (wake_task u (m\<lparr>flags := (flags m)(u \<mapsto> False)\<rparr>))"
    using Some assms(1) by (simp add: mirrors_def wake_def set_registered_def new_waiter_def)
  moreover have "mirrors N ?w2 q (wake_task u (m\<lparr>flags := (flags m)(u \<mapsto> False)\<rparr>))"
  proof -
    have "{v. wakes ?w2 v} = insert u {v. wakes w v}" by (auto simp: moved_def set_flag_def set_wake_def)
    with assms(1) show ?thesis by (simp add: mirrors_def wake_task_def moved_def set_flag_def set_wake_def)
  qed
  moreover have "points ?w2 = (points w)(t := Drain)" "waiting ?w2 = waiting w"
    by (simp_all add: moved_def set_flag_def set_wake_def)
  ultimately show ?thesis by blast
qed

text \<open>The loop of \<open>unblock_refs\<close>.\<close>

lemma drain_points:
  assumes "mirrors N w q m" "points w t = Drain"
  shows "\<exists>r q' m' w'. drain (pop pr) wake q m = Some (r, q', m') \<and> runs pr N t (c, w) (c, w') \<and>
    points w' = (points w)(t := freed r) \<and> mirrors N w' q' m'"
  using assms
proof (induction "waiting w" arbitrary: w q m)
  case Nil
  then obtain q' where q': "pop pr q = Some (Inr None, q')" "holds q' N ([] :: waiter list)"
    using array_fifo.deq_none [of q N] by (auto simp: mirrors_def)
  from q'(1) have "drain (pop pr) wake q m = Some (Inr (), q', m)"
    by (simp add: drain_def drain_pass_def run_loop_leave)
  moreover have "solo_step pr N t (c, w) = (c, moved t Idle w)"
    using Nil by (simp add: solo_step_def go_def)
  then have "runs pr N t (c, w) (c, moved t Idle w)" by (rule runs_one)
  moreover have "mirrors N (moved t Idle w) q' m" using Nil q'(2) by (simp add: mirrors_def moved_def)
  ultimately show ?case by (intro exI conjI) (assumption, assumption, simp_all add: moved_def)
next
  case (Cons u us)
  have "holds q N (new_waiter u u # map (\<lambda>u. new_waiter u u) us)"
    using Cons.prems(1) Cons.hyps(2) [symmetric] by (simp add: mirrors_def)
  then obtain q1 where q1: "pop pr q = Some (Inr (Some (new_waiter u u)), q1)" "holds q1 N (map (\<lambda>u. new_waiter u u) us)"
    using array_fifo.deq_some [of q N "new_waiter u u"] by blast
  let ?w1 = "moved t (Clear_Flag u) (w\<lparr>waiting := us\<rparr>)"
  have "solo_step pr N t (c, w) = (c, ?w1)" using Cons.hyps(2) [symmetric] Cons.prems(2) by (simp add: solo_step_def go_def)
  then have pop: "runs pr N t (c, w) (c, ?w1)" by (rule runs_one)
  have mir: "mirrors N ?w1 q1 m" using Cons.prems(1) q1(2) by (simp add: mirrors_def moved_def)
  have "points ?w1 t = Clear_Flag u" by (simp add: moved_def)
  from wake_points [OF mir this, of pr c] show ?case
  proof (elim disjE exE conjE)
    assume w: "wake (new_waiter u u) m = Inl Undefined" "runs pr N t (c, ?w1) (c, moved t (Crashed Undefined) ?w1)"
    from q1 w(1) have "drain (pop pr) wake q m = Some (Inl Undefined, q1, m)" by (simp add: drain_def drain_pass_def run_loop_leave)
    moreover have "mirrors N (moved t (Crashed Undefined) ?w1) q1 m" using mir by simp
    moreover have "points (moved t (Crashed Undefined) ?w1) = (points w)(t := freed (Inl Undefined))" by (simp add: moved_def)
    ultimately show ?thesis using runs_trans [OF pop w(2)] by blast
  next
    fix m' w' assume w: "wake (new_waiter u u) m = Inr m'" "runs pr N t (c, ?w1) (c, w')" "points w' = (points ?w1)(t := Drain)"
      "waiting w' = waiting ?w1" "mirrors N w' q1 m'"
    have again: "drain (pop pr) wake q m = drain (pop pr) wake q1 m'"
      by (simp add: drain_def, rule run_loop_again) (simp add: drain_pass_def q1 w(1))
    have "us = waiting w'" "points w' t = Drain" using w(3,4) by (simp_all add: moved_def)
    from Cons.hyps(1) [OF this(1) w(5) this(2)] obtain r q' m'' v where "drain (pop pr) wake q1 m' = Some (r, q', m'')"
      "runs pr N t (c, w') (c, v)" "points v = (points w')(t := freed r)" "mirrors N v q' m''" by blast
    with again have "drain (pop pr) wake q m = Some (r, q', m'')" "runs pr N t (c, w) (c, v)" "points v = (points w)(t := freed r)"
      "mirrors N v q' m''"
      using runs_trans [OF pop runs_trans [OF w(2)]] w(3) by (simp_all add: moved_def)
    then show ?thesis by blast
  qed
qed

lemma unblock_points:
  assumes mir: "mirrors N w (waiter_queue rc) m" and p: "p \<in> {Has_Block, Has_Excl, Give_Up}"
  shows "runs_as pr N t p w rc (unblock_refs pr rc m) freed"
proof -
  let ?c = "store REF_ALLOWED (count rc)" and ?q = "waiter_queue rc" and ?w = "moved t p w" and ?w1 = "moved t First_Pop w"
  have "solo_step pr N t (count rc, ?w) = (?c, ?w1)"
    using p by (auto simp: solo_step_def resolved_def moved_def)
  then have store: "runs pr N t (count rc, ?w) (?c, ?w1)" by (rule runs_one)
  have q: "holds ?q N (map (\<lambda>u. new_waiter u u) (waiting w))" using mir by (simp add: mirrors_def)
  have fin: "runs_as pr N t p w rc (unblock_refs pr rc m) freed"
    if "unblock_refs pr rc m = Some (r, rc\<lparr>count := ?c, waiter_queue := q'\<rparr>, m')" "runs pr N t (?c, ?w1) (?c, w')"
      "points w' = (points w)(t := freed r)" "mirrors N w' q' m'" for r q' m' w'
    unfolding runs_as_def using that(1,3,4) runs_trans [OF store that(2)] by force
  show ?thesis
  proof (cases "waiting w")
    case Nil
    then obtain q1 where q1: "pop pr ?q = Some (Inr None, q1)" "holds q1 N ([] :: waiter list)"
      using array_fifo.deq_none [of ?q N] q by auto
    have "solo_step pr N t (?c, ?w1) = (?c, moved t Drain w)" using Nil by (simp add: solo_step_def go_def moved_def)
    then have pop: "runs pr N t (?c, ?w1) (?c, moved t Drain w)" by (rule runs_one)
    have "mirrors N (moved t Drain w) q1 m" using mir q1(2) Nil by (simp add: mirrors_def moved_def)
    from drain_points [OF this, of t pr ?c] obtain r q' m' w' where d: "drain (pop pr) wake q1 m = Some (r, q', m')"
      "runs pr N t (?c, moved t Drain w) (?c, w')" "points w' = (points w)(t := freed r)" "mirrors N w' q' m'"
      by (auto simp: moved_def)
    show ?thesis
      by (rule fin [OF _ runs_trans [OF pop d(2)] d(3,4)]) (simp add: unblock_refs_def q1 d(1))
  next
    case (Cons u us)
    with q obtain q1 where q1: "pop pr ?q = Some (Inr (Some (new_waiter u u)), q1)" "holds q1 N (map (\<lambda>u. new_waiter u u) us)"
      using array_fifo.deq_some [of ?q N "new_waiter u u"] by auto
    let ?w2 = "moved t (Clear_Flag u) (w\<lparr>waiting := us\<rparr>)"
    have "solo_step pr N t (?c, ?w1) = (?c, ?w2)" using Cons by (simp add: solo_step_def go_def moved_def)
    then have pop: "runs pr N t (?c, ?w1) (?c, ?w2)" by (rule runs_one)
    have m2: "mirrors N ?w2 q1 m" "points ?w2 t = Clear_Flag u" using mir q1(2) by (simp_all add: mirrors_def moved_def)
    from wake_points [OF m2, of pr ?c] show ?thesis
    proof (elim disjE exE conjE)
      assume w: "wake (new_waiter u u) m = Inl Undefined" "runs pr N t (?c, ?w2) (?c, moved t (Crashed Undefined) ?w2)"
      show ?thesis
        by (rule fin [OF _ runs_trans [OF pop w(2)], of "Inl Undefined" q1 m])
          (simp add: unblock_refs_def q1 w(1), simp add: moved_def, simp only: mirrors_moved, rule m2(1) [unfolded mirrors_moved])
    next
      fix m1 w1 assume w: "wake (new_waiter u u) m = Inr m1" "runs pr N t (?c, ?w2) (?c, w1)"
        "points w1 = (points ?w2)(t := Drain)" "waiting w1 = waiting ?w2" "mirrors N w1 q1 m1"
      have "points w1 t = Drain" using w(3) by simp
      from drain_points [OF w(5) this, of pr ?c] obtain r q' m' w' where d: "drain (pop pr) wake q1 m1 = Some (r, q', m')"
        "runs pr N t (?c, w1) (?c, w')" "points w' = (points w1)(t := freed r)" "mirrors N w' q' m'" by blast
      show ?thesis
        by (rule fin [OF _ runs_trans [OF pop runs_trans [OF w(2) d(2)]] _ d(4), of r])
          (simp_all add: unblock_refs_def q1 w(1) d(1,3) w(3) moved_def)
    qed
  qed
qed

text \<open>A part that only accesses the count.\<close>

lemma runs_solo:
  assumes "flag w t = None"
  shows "solo pr n p c = (p', c') \<Longrightarrow> runs pr N t (c, moved t p w) (c', moved t p' w)"
proof (induction n arbitrary: p c)
  case 0
  then show ?case by (simp add: runs_refl)
next
  case (Suc n)
  show ?case
  proof (cases "settled p")
    case True
    with Suc.prems show ?thesis by (simp add: runs_refl)
  next
    case False
    then have at: "at_count p" by (cases p) auto
    obtain p1 c1 where acc: "access pr p c = (p1, c1)" by fastforce
    have "set_flag t None (moved t p1 (moved t p w)) = moved t p1 w"
      using assms by (simp add: set_flag_def moved_def fun_upd_idem)
    then have "solo_step pr N t (c, moved t p w) = (c1, moved t p1 w)"
      using at acc by (simp add: solo_step_def moved_def)
    moreover have "runs pr N t (c1, moved t p1 w) (c', moved t p' w)"
      using Suc.IH [of p1 c1] Suc.prems False acc by simp
    ultimately show ?thesis by (metis runs_step)
  qed
qed

text \<open>C28: the program points of the protocol are the code's. A task that is run alone from the first point of
  try_get_exclusive_ref, with any interference of others on the count between its accesses, ends where that function ends,
  a fault at a waiter of a future that is gone included, with the same word, waiters, flags and wake-ups: the block, the five
  looks at the count, and if it gives up the store, both pops and every wake of unblock_refs. And so does one that
  has a block or an exclusive reference and releases it, which is unblock_refs.\<close>

theorem exclusive_points_are_the_code:
  assumes "mirrors N w (waiter_queue rc) m" "flag w t = None"
  shows "runs_as pr N t (Block_Load (Op Op_try_get_exclusive_ref)) w rc (try_get_exclusive_ref pr rc m) obtained \<and>
    runs_as pr N t Has_Excl w rc (drop_exclusive pr ExclusiveRef rc m) freed \<and>
    runs_as pr N t Has_Block w rc (unblock_refs pr rc m) freed"
proof (intro conjI)
  show "runs_as pr N t Has_Excl w rc (drop_exclusive pr ExclusiveRef rc m) freed"
    using unblock_points [OF assms(1)] by (simp add: drop_exclusive_def)
  show "runs_as pr N t Has_Block w rc (unblock_refs pr rc m) freed" by (rule unblock_points [OF assms(1)]) simp
  obtain ok rc1 where block: "try_block_refs rc = (ok, rc1)" by fastforce
  then have q1: "waiter_queue rc1 = waiter_queue rc" by (auto simp: try_block_refs_def split: prod.splits)
  obtain free rc2 where wait: "await_no_refs 5 rc1 = (free, rc2)" by fastforce
  have "waiter_queue (snd (await_no_refs i rc)) = waiter_queue rc" for i rc
    by (induction i arbitrary: rc) (auto simp: no_standard_refs_def std_ref_count_def load_count_def Let_def split: prod.splits)
  from this [of 5 rc1] wait have q2: "waiter_queue rc2 = waiter_queue rc1" by simp
  have start: "runs pr N t (count rc, moved t (Block_Load (Op Op_try_get_exclusive_ref)) w) (c', moved t p w)"
    if "solo pr 10 (Block_Load (Op Op_try_get_exclusive_ref)) (count rc) = (p, c')" for p c'
    by (rule runs_solo [where n = 10, OF assms(2) that])
  show "runs_as pr N t (Block_Load (Op Op_try_get_exclusive_ref)) w rc (try_get_exclusive_ref pr rc m) obtained"
  proof (cases "ok \<and> \<not> free")
    case True
    have "mirrors N w (waiter_queue rc2) m" using assms(1) q1 q2 by simp
    from unblock_points [OF this, of Give_Up pr t] obtain r rc' m' w' where u: "unblock_refs pr rc2 m = Some (r, rc', m')"
      "runs pr N t (count rc2, moved t Give_Up w) (count rc', w')" "points w' = (points w)(t := freed r)"
      "mirrors N w' (waiter_queue rc') m'"
      unfolding runs_as_def by auto
    have "solo pr 10 (Block_Load (Op Op_try_get_exclusive_ref)) (count rc) = (Give_Up, count rc2)"
      unfolding solo_exclusive using True by (simp add: block wait)
    from runs_trans [OF start [OF this] u(2)] u show ?thesis
      unfolding runs_as_def using True
      by (intro exI [of _ "map_sum id (\<lambda>_. None) r"] exI [of _ rc'] exI [of _ m'] exI [of _ w'])
        (cases r; simp add: try_get_exclusive_ref_def block wait)
  next
    case False
    define rc' where "rc' = (if ok then rc2 else rc1)"
    define r :: "exclusive_handle option" where "r = (if ok then Some ExclusiveRef else None)"
    have "solo pr 10 (Block_Load (Op Op_try_get_exclusive_ref)) (count rc) = (obtained (Inr r), count rc')"
      unfolding solo_exclusive using False by (simp add: block wait r_def rc'_def)
    from start [OF this] assms(1) q1 q2 False show ?thesis
      unfolding runs_as_def
      by (intro exI [of _ "Inr r"] exI [of _ rc'] exI [of _ m] exI [of _ "moved t (obtained (Inr r)) w"])
        (auto simp: try_get_exclusive_ref_def block wait r_def rc'_def moved_def mirrors_def)
  qed
qed

section \<open>Witness\<close>

text \<open>A reference is alive and a future waits, so task 3 gives up and wakes the future.\<close>

theorem exclusive_points_are_the_code_witness:
  "\<exists>rc. cval (count rc) = word_state 1 False \<and>
     runs_as Debug 2 3 (Block_Load (Op Op_try_get_exclusive_ref)) (all_idle\<lparr>waiting := [7], flag := [7 \<mapsto> True]\<rparr>) rc
       (try_get_exclusive_ref Debug rc \<lparr>flags = [7 \<mapsto> True], woken = []\<rparr>) obtained"
proof -
  obtain rc where "rc_ok rc 0 False 2 []" using new_ref_count_ok [of 2 Debug] by force
  then obtain q where q: "holds q 2 [new_waiter 7 7]"
    using array_fifo.enq_room [of "waiter_queue rc" 2 "[]" Debug "new_waiter 7 7"] by (auto simp: rc_ok_def)
  let ?rc = "rc\<lparr>count := new_cell (word_state 1 False), waiter_queue := q\<rparr>" and ?m = "\<lparr>flags = [7 \<mapsto> True], woken = []\<rparr>"
  let ?w = "all_idle\<lparr>waiting := [7], flag := [7 \<mapsto> True]\<rparr>"
  have "mirrors 2 ?w (waiter_queue ?rc) ?m" using q by (simp add: mirrors_def all_idle_def)
  from exclusive_points_are_the_code [OF this, of 3 Debug] show ?thesis by (intro exI [of _ ?rc]) (simp add: quiet_new)
qed

end
