(* ===== verification/Crate_Threads.thy ===== *)
theory Crate_Threads
  imports Protocol_Runs Queue_Linearizable
begin

text \<open>
  The whole crate under preemption, with nothing atomic but the accesses of the code: the tasks of
  \<open>Ref_Protocol\<close> on the interleaved array queue of \<open>Queue_Threads\<close>. A task that pushes its waiter or
  pops one makes the accesses of that call one by one, between those of the other tasks; the return of the
  call is the step at which the task goes on. The waiter of task \<open>t\<close> is the number \<open>t\<close>, as its waker and
  its flag are those of \<open>t\<close>.

  Every run is a run of \<open>Ref_Protocol\<close>, where a push or a pop is one step: the linearization of the queue
  carries over to the tasks that use it. The overflow of a spin counter in a debug build, which panics in the code,
  stops the task for good.
\<close>

section \<open>Tasks on the array queue\<close>

record crate =
  proto :: world                 \<comment> \<open>its list of waiters is not used\<close>
  wqueue :: "nat queue_world"

text \<open>The call of the queue that a task makes at a point.\<close>

fun queue_call :: "point \<Rightarrow> nat \<Rightarrow> nat fifo_op option" where
  "queue_call (Enqueue a) t = Some (Push t)"
| "queue_call First_Pop t = Some Pop"
| "queue_call Drain t = Some Pop"
| "queue_call _ t = None"

text \<open>Where the task goes on with the answer.\<close>

fun answered_point :: "point \<Rightarrow> nat fifo_answer \<Rightarrow> point option" where
  "answered_point (Enqueue a) (Pushed r) = Some (case r of Inr _ \<Rightarrow> Set_Flag a | Inl _ \<Rightarrow> Clear_Own a)"
| "answered_point First_Pop (Popped r) = Some (case r of None \<Rightarrow> Drain | Some u \<Rightarrow> Clear_Flag u)"
| "answered_point Drain (Popped r) = Some (case r of None \<Rightarrow> Idle | Some u \<Rightarrow> Clear_Flag u)"
| "answered_point _ _ = None"

definition take_answer :: "nat \<Rightarrow> nat fifo_answer \<Rightarrow> world \<Rightarrow> world" where
  "take_answer t a w = (case answered_point (points w t) a of None \<Rightarrow> w | Some p \<Rightarrow> moved t p w)"

definition crate_task :: "profile \<Rightarrow> nat \<times> choice \<Rightarrow> crate \<Rightarrow> crate option" where
  "crate_task pr d w = (case d of (t, ch) \<Rightarrow>
     (case queue_call (points (proto w) t) t of
        None \<Rightarrow> map_option (\<lambda>p. w\<lparr>proto := p\<rparr>) (task_step pr 0 d (proto w))
      | Some opn \<Rightarrow> (case ch of
          Go sp \<Rightarrow>
            (let ch = (if at_point (wqueue w) t = Q_Idle then Ask opn else Act sp);
                 p = (case at_point (wqueue w) t of Returns a \<Rightarrow> take_answer t a (proto w) | _ \<Rightarrow> proto w) in
             map_option (\<lambda>q. \<lparr>proto = p, wqueue = q\<rparr>) (q_task pr (t, ch) (wqueue w)))
        | _ \<Rightarrow> None)))"

text \<open>\<open>ok\<close> restricts the choices, for the runs that make only some of the calls.\<close>

inductive crate_step :: "(choice \<Rightarrow> bool) \<Rightarrow> profile \<Rightarrow> nat \<Rightarrow> crate \<Rightarrow> crate \<Rightarrow> bool" for ok pr M where
  crate_step: "t < M \<Longrightarrow> ok ch \<Longrightarrow> crate_task pr (t, ch) w = Some w' \<Longrightarrow> crate_step ok pr M w w'"

definition fresh_crate :: "profile \<Rightarrow> usize \<Rightarrow> crate \<Rightarrow> bool" where
  "fresh_crate pr C w \<longleftrightarrow> proto w = all_idle \<and> fresh_queue pr C (wqueue w)"

section \<open>The same steps on the list of waiters\<close>

inductive chosen_step :: "(choice \<Rightarrow> bool) \<Rightarrow> profile \<Rightarrow> nat \<Rightarrow> nat \<Rightarrow> world \<Rightarrow> world \<Rightarrow> bool" for ok pr N M where
  chosen: "t < M \<Longrightarrow> ok ch \<Longrightarrow> task_step pr N (t, ch) w = Some w' \<Longrightarrow> chosen_step ok pr N M w w'"

text \<open>A step that is no call of the queue neither sees the waiters nor the other tasks' points.\<close>

lemma count_step_frame:
  assumes "f t = points w t"
  shows "count_step pr sp t (w\<lparr>waiting := ws, points := f\<rparr>) =
    count_step pr sp t w\<lparr>waiting := ws, points := f(t := points (count_step pr sp t w) t)\<rparr>"
    "points (count_step pr sp t w) = (points w)(t := points (count_step pr sp t w) t)"
  using assms by (simp_all add: count_step_def moved_def set_flag_def Let_def split: prod.split)

lemma task_frame:
  assumes "queue_call (points w t) t = None" "task_step pr N (t, ch) w = Some w'" "f t = points w t"
  shows "task_step pr N' (t, ch) (w\<lparr>waiting := ws, points := f\<rparr>) =
      Some (w'\<lparr>waiting := ws, points := f(t := points w' t)\<rparr>)"
    "points w' = (points w)(t := points w' t)"
  using assms count_step_frame [of f t w]
  by (cases "points w t"; cases ch; auto simp: task_step_def go_def moved_def set_flag_def set_wake_def split: option.splits if_splits)+

section \<open>The gluing relation\<close>

text \<open>
  A task whose call of the queue has taken effect has already gone on in \<open>Ref_Protocol\<close>.
\<close>

definition in_call :: "nat \<Rightarrow> point \<Rightarrow> nat phase \<Rightarrow> point \<Rightarrow> bool" where
  "in_call t p ph p' \<longleftrightarrow> (case ph of
     Free \<Rightarrow> p' = p
   | Asked opn \<Rightarrow> p' = p \<and> queue_call p t = Some opn
   | Answered a \<Rightarrow> answered_point p a = Some p')"

definition glue_crate :: "profile \<Rightarrow> nat \<Rightarrow> crate \<Rightarrow> world \<Rightarrow> bool" where
  "glue_crate pr N w v \<longleftrightarrow>
     (\<exists>s ps. glue_queue pr N (wqueue w) s \<and> v = proto w\<lparr>waiting := items s, points := ps\<rparr> \<and>
       (\<forall>t. in_call t (points (proto w) t) (phases s t) (ps t)))"

lemma glue_crateI:
  assumes "glue_queue pr N (wqueue w) s" "v = proto w\<lparr>waiting := items s, points := ps\<rparr>"
    "\<And>t. in_call t (points (proto w) t) (phases s t) (ps t)"
  shows "glue_crate pr N w v"
  using assms unfolding glue_crate_def by blast

lemma no_call_free: "queue_call p t = None \<Longrightarrow> in_call t p ph p' \<Longrightarrow> ph = Free \<and> p' = p"
  by (cases p; cases ph) (auto simp: in_call_def)

text \<open>When the call takes effect, \<open>Ref_Protocol\<close> makes its step.\<close>

lemma effect_is_go:
  assumes "queue_call (points v t) t = Some opn" "fifo_step N opn (waiting v) = (a, xs)"
  shows "\<exists>p. answered_point (points v t) a = Some p \<and>
    task_step pr N (t, Go sp) v = Some (v\<lparr>waiting := xs, points := (points v)(t := p)\<rparr>)"
proof -
  consider b where "points v t = Enqueue b" "opn = Push t" | "points v t = First_Pop" "opn = Pop" | "points v t = Drain" "opn = Pop"
    using assms(1) by (cases "points v t") auto
  then show ?thesis
  proof cases
    case (1 b)
    with assms(2) show ?thesis
      by (cases "length (waiting v) < N") (auto simp: task_step_def go_def moved_def)
  next
    case 2
    with assms(2) show ?thesis by (cases "waiting v") (auto simp: task_step_def go_def moved_def)
  next
    case 3
    with assms(2) show ?thesis by (cases "waiting v") (auto simp: task_step_def go_def moved_def)
  qed
qed

text \<open>A return leaves everything but the task's point as it is.\<close>

lemma take_answer_moves: "answered_point (points w t) a = Some p \<Longrightarrow> take_answer t a w = w\<lparr>points := (points w)(t := p)\<rparr>"
  by (simp add: take_answer_def moved_def)

lemma glue_local_step:
  assumes glue: "glue_crate pr N w v" and idle: "queue_call (points (proto w) t) t = None"
    and step: "task_step pr 0 (t, ch) (proto w) = Some p"
  shows "\<exists>v'. task_step pr N (t, ch) v = Some v' \<and> glue_crate pr N (w\<lparr>proto := p\<rparr>) v'"
proof -
  obtain s ps where s: "glue_queue pr N (wqueue w) s" "v = proto w\<lparr>waiting := items s, points := ps\<rparr>"
    "\<And>u. in_call u (points (proto w) u) (phases s u) (ps u)"
    using glue unfolding glue_crate_def by blast
  have t: "phases s t = Free" "ps t = points (proto w) t" using no_call_free [OF idle s(3)] by auto
  note frame = task_frame(1) [where f = ps and t = t and N' = N and ws = "items s", OF idle step t(2)]
    task_frame(2) [where f = ps and t = t, OF idle step t(2)]
  let ?v = "p\<lparr>waiting := items s, points := ps(t := points p t)\<rparr>"
  have "in_call u (points p u) (phases s u) ((ps(t := points p t)) u)" for u
  proof (cases "u = t")
    case False
    then have "points p u = points (proto w) u" by (subst frame(2)) simp
    with s(3) [of u] False show ?thesis by simp
  qed (simp add: in_call_def t(1))
  then have "glue_crate pr N (w\<lparr>proto := p\<rparr>) ?v"
    using s(1) by (intro glue_crateI [of _ _ _ s]) (simp_all del: fun_upd_apply)
  with frame(1) s(2) show ?thesis by auto
qed

lemma glue_ask_step:
  assumes glue: "glue_crate pr N w v" and call: "queue_call (points (proto w) t) t = Some opn"
    and idle: "at_point (wqueue w) t = Q_Idle"
    and q: "q = wqueue w\<lparr>at_point := (at_point (wqueue w))(t := begins opn), history := history (wqueue w) @ [Asks t opn]\<rparr>"
  shows "glue_crate pr N (w\<lparr>wqueue := q\<rparr>) v"
proof -
  obtain s ps where s: "glue_queue pr N (wqueue w) s" "v = proto w\<lparr>waiting := items s, points := ps\<rparr>"
    "\<And>u. in_call u (points (proto w) u) (phases s u) (ps u)"
    using glue unfolding glue_crate_def by blast
  let ?s = "s\<lparr>phases := (phases s)(t := Asked opn), events := events s @ [Asks t opn]\<rparr>"
  from linear_ask [OF s(1) idle] have free: "phases s t = Free" and g: "glue_queue pr N q ?s" by (simp_all add: q)
  have "in_call u (points (proto w) u) (phases ?s u) (ps u)" for u
    using s(3) [of u] free call by (auto simp: in_call_def)
  with g s(2) show ?thesis by (intro glue_crateI [of _ _ _ ?s]) (simp_all del: fun_upd_apply)
qed

lemma glue_return_step:
  assumes glue: "glue_crate pr N w v" and ret: "at_point (wqueue w) t = Returns a"
    and q: "q = wqueue w\<lparr>at_point := (at_point (wqueue w))(t := Q_Idle), history := history (wqueue w) @ [Gets t a]\<rparr>"
  shows "glue_crate pr N \<lparr>proto = take_answer t a (proto w), wqueue = q\<rparr> v"
proof -
  obtain s ps where s: "glue_queue pr N (wqueue w) s" "v = proto w\<lparr>waiting := items s, points := ps\<rparr>"
    "\<And>u. in_call u (points (proto w) u) (phases s u) (ps u)"
    using glue unfolding glue_crate_def by blast
  let ?s = "s\<lparr>phases := (phases s)(t := Free), events := events s @ [Gets t a]\<rparr>"
  from linear_answer [OF s(1) ret] have ans: "phases s t = Answered a" and g: "glue_queue pr N q ?s" by (simp_all add: q)
  with s(3) [of t] have p: "answered_point (points (proto w) t) a = Some (ps t)" by (simp add: in_call_def)
  note take = take_answer_moves [OF p]
  have "in_call u (points (take_answer t a (proto w)) u) (phases ?s u) (ps u)" for u
    using s(3) [of u] by (auto simp: take in_call_def)
  then show ?thesis using g s(2) by (intro glue_crateI [of _ _ _ ?s]) (simp_all add: take del: fun_upd_apply)
qed

lemma glue_access_step:
  assumes glue: "glue_crate pr N w v" and busy: "at_point (wqueue w) t \<noteq> Q_Idle" "\<not> ended (at_point (wqueue w) t)"
    and few: "few_moves N (q_move pr sp t (wqueue w))"
  shows "glue_crate pr N (w\<lparr>wqueue := q_move pr sp t (wqueue w)\<rparr>) v \<or>
    (\<exists>v'. task_step pr N (t, Go sp') v = Some v' \<and> glue_crate pr N (w\<lparr>wqueue := q_move pr sp t (wqueue w)\<rparr>) v')"
proof -
  obtain s ps where s: "glue_queue pr N (wqueue w) s" "v = proto w\<lparr>waiting := items s, points := ps\<rparr>"
    "\<And>u. in_call u (points (proto w) u) (phases s u) (ps u)"
    using glue unfolding glue_crate_def by blast
  from linear_act [OF s(1) busy few] show ?thesis
  proof (elim disjE exE conjE)
    assume "glue_queue pr N (q_move pr sp t (wqueue w)) s"
    with s show ?thesis by (intro disjI1 glue_crateI [of _ _ _ s]) simp_all
  next
    fix opn a xs
    let ?s = "s\<lparr>items := xs, phases := (phases s)(t := Answered a), log := log s @ [(t, opn, a)]\<rparr>"
    assume e: "phases s t = Asked opn" "fifo_step N opn (items s) = (a, xs)"
      and g: "glue_queue pr N (q_move pr sp t (wqueue w)) ?s"
    from e(1) s(3) [of t] have t: "ps t = points (proto w) t" "queue_call (points (proto w) t) t = Some opn"
      by (simp_all add: in_call_def)
    have "\<exists>p. answered_point (points v t) a = Some p \<and>
        task_step pr N (t, Go sp') v = Some (v\<lparr>waiting := xs, points := (points v)(t := p)\<rparr>)"
      by (rule effect_is_go) (use e(2) t s(2) in auto)
    then obtain p where p: "answered_point (points (proto w) t) a = Some p"
      "task_step pr N (t, Go sp') v = Some (v\<lparr>waiting := xs, points := (points v)(t := p)\<rparr>)"
      using s(2) t(1) by auto
    have "in_call u (points (proto w) u) (phases ?s u) ((ps(t := p)) u)" for u
      using s(3) [of u] p(1) by (auto simp: in_call_def)
    then have "glue_crate pr N (w\<lparr>wqueue := q_move pr sp t (wqueue w)\<rparr>) (v\<lparr>waiting := xs, points := (points v)(t := p)\<rparr>)"
      using s(2) g by (intro glue_crateI [of _ _ _ ?s]) (simp_all del: fun_upd_apply)
    with p(2) show ?thesis by blast
  qed
qed

text \<open>So every step is none or one of \<open>Ref_Protocol\<close>, of the same task.\<close>

lemma glue_crate_step:
  assumes glue: "glue_crate pr N w v" and step: "crate_task pr (t, ch) w = Some w'" and few: "few_moves N (wqueue w')"
  shows "glue_crate pr N w' v \<or> (\<exists>v'. task_step pr N (t, ch) v = Some v' \<and> glue_crate pr N w' v')"
proof (cases "queue_call (points (proto w) t) t")
  case None
  with step obtain p where "task_step pr 0 (t, ch) (proto w) = Some p" "w' = w\<lparr>proto := p\<rparr>"
    by (auto simp: crate_task_def)
  with glue_local_step [OF glue None] show ?thesis by blast
next
  case (Some opn)
  then obtain sp p q where ch: "ch = Go sp" and w': "w' = \<lparr>proto = p, wqueue = q\<rparr>"
    and p: "p = (case at_point (wqueue w) t of Returns a \<Rightarrow> take_answer t a (proto w) | _ \<Rightarrow> proto w)"
    and q: "q_task pr (t, if at_point (wqueue w) t = Q_Idle then Ask opn else Act sp) (wqueue w) = Some q"
    using step by (cases ch) (auto simp: crate_task_def Let_def)
  show ?thesis
  proof (cases "at_point (wqueue w) t = Q_Idle")
    case True
    with q have "q = wqueue w\<lparr>at_point := (at_point (wqueue w))(t := begins opn), history := history (wqueue w) @ [Asks t opn]\<rparr>"
      by (simp add: q_task_def)
    from glue_ask_step [OF glue Some True this] have "glue_crate pr N (w\<lparr>wqueue := q\<rparr>) v" .
    moreover have "w' = w\<lparr>wqueue := q\<rparr>" using w' p True by (cases w) simp
    ultimately show ?thesis by simp
  next
    case False
    with q have q': "q_task pr (t, Act sp) (wqueue w) = Some q" by simp
    show ?thesis
    proof (cases "\<exists>a. at_point (wqueue w) t = Returns a")
      case True
      then obtain a where a: "at_point (wqueue w) t = Returns a" by blast
      with q' have "q = wqueue w\<lparr>at_point := (at_point (wqueue w))(t := Q_Idle), history := history (wqueue w) @ [Gets t a]\<rparr>"
        by (simp add: q_task_def)
      from glue_return_step [OF glue a this] w' p a show ?thesis by simp
    next
      case ret: False
      with q' False have m: "\<not> ended (at_point (wqueue w) t)" "q = q_move pr sp t (wqueue w)"
        by (auto simp: q_task_def split: q_point.splits)
      have "p = proto w" using p ret by (simp split: q_point.splits)
      then have "w' = w\<lparr>wqueue := q_move pr sp t (wqueue w)\<rparr>" using w' m(2) by (cases w) simp
      with glue_access_step [OF glue False m(1), of sp sp] few ch show ?thesis by simp
    qed
  qed
qed

section \<open>What the simulation gives\<close>

definition starting_crate :: "profile \<Rightarrow> usize \<Rightarrow> crate \<Rightarrow> bool" where
  "starting_crate pr C w \<longleftrightarrow> fresh_crate pr C w \<and> few_moves (unat C) (wqueue w)"

definition followed_step :: "(choice \<Rightarrow> bool) \<Rightarrow> profile \<Rightarrow> usize \<Rightarrow> nat \<Rightarrow> crate \<Rightarrow> crate \<Rightarrow> bool" where
  "followed_step ok pr C M w w' \<longleftrightarrow> crate_step ok pr M w w' \<and> few_moves (unat C) (wqueue w')"

interpretation crate_tasks: safe_simulation fresh "chosen_step ok pr (unat C) M" "\<lambda>_. True"
    "starting_crate pr C" "followed_step ok pr C M" "glue_crate pr (unat C)" for ok pr C M
proof (unfold_locales, simp_all only: simp_thms)
  fix w assume w: "starting_crate pr C w"
  then obtain s where s: "idle_queue (unat C) s" "glue_queue pr (unat C) (wqueue w) s"
    using linear_glue_start [of pr C "wqueue w"] by (auto simp: starting_crate_def fresh_crate_def starts_def)
  have "glue_crate pr (unat C) w all_idle"
    by (rule glue_crateI [OF s(2), where ps = "\<lambda>_. Idle"])
      (use w s(1) in \<open>simp_all add: starting_crate_def fresh_crate_def all_idle_def idle_queue_def in_call_def\<close>)
  then show "\<exists>v. fresh v \<and> glue_crate pr (unat C) w v" by (auto simp: fresh_def)
next
  fix w v w' assume glue: "glue_crate pr (unat C) w v" and "followed_step ok pr C M w w'"
  then obtain t ch where t: "t < M" "ok ch" "crate_task pr (t, ch) w = Some w'" "few_moves (unat C) (wqueue w')"
    by (auto simp: followed_step_def elim: crate_step.cases)
  from glue_crate_step [OF glue t(3,4)] chosen_step.chosen [of t M ok ch pr "unat C" v] t(1,2)
  show "\<exists>v'. (chosen_step ok pr (unat C) M)\<^sup>*\<^sup>* v v' \<and> glue_crate pr (unat C) w' v'" by blast
qed

lemma crate_tail_moves_on:
  assumes "crate_step ok pr M w w'"
  shows "tail_moves (wqueue w) \<le> tail_moves (wqueue w')"
proof -
  obtain t ch where "crate_task pr (t, ch) w = Some w'" using assms by (auto elim: crate_step.cases)
  then have "wqueue w' = wqueue w \<or> q_step pr (wqueue w) (wqueue w')"
    by (auto simp: crate_task_def Let_def split: option.splits choice.splits intro: q_step.intros)
  then show ?thesis using tail_moves_on [of pr "wqueue w" "wqueue w'"] by auto
qed

lemma crate_followed:
  assumes "reachable (fresh_crate pr C) (crate_step ok pr M) w" "few_moves (unat C) (wqueue w)"
  shows "reachable (starting_crate pr C) (followed_step ok pr C M) w"
  using assms
proof (induction rule: reachable.induct)
  case (start w)
  then show ?case by (intro reachable.start) (simp add: starting_crate_def)
next
  case (further w w')
  from crate_tail_moves_on [OF further.hyps(2)] further.prems have "few_moves (unat C) (wqueue w)"
    by (simp add: few_moves_def)
  from reachable.further [OF further.IH [OF this]] further.hyps(2) further.prems show ?case
    by (simp add: followed_step_def)
qed

lemma crate_glue:
  assumes "reachable (fresh_crate pr C) (crate_step ok pr M) w" "few_moves (unat C) (wqueue w)"
  obtains v where "reachable fresh (chosen_step ok pr (unat C) M) v" "glue_crate pr (unat C) w v"
  using crate_tasks.sim_reachable [OF crate_followed [OF assms]] that by blast

text \<open>What the two worlds have in common.\<close>

lemma glue_crate_same:
  assumes "glue_crate pr N w v"
  shows "count_word v = count_word (proto w)" "flag v = flag (proto w)" "wakes v = wakes (proto w)"
    "queue_call (points (proto w) t) t = None \<Longrightarrow> points v t = points (proto w) t"
    "at_point (wqueue w) t = Q_Idle \<Longrightarrow> points v t = points (proto w) t"
    "(\<And>t. at_point (wqueue w) t = Q_Idle) \<Longrightarrow> holds (shared (wqueue w)) N (waiting v)"
proof -
  obtain s ps where g: "glue_queue pr N (wqueue w) s" and v: "v = proto w\<lparr>waiting := items s, points := ps\<rparr>"
    and c: "\<And>u. in_call u (points (proto w) u) (phases s u) (ps u)"
    using assms unfolding glue_crate_def by blast
  obtain k g where "items s = contents g" "coherent pr k N g (shared (wqueue w)) (at_point (wqueue w)) (phases s)"
    using g unfolding glue_queue_def by blast
  note s = v this(1) c this(2)
  show "count_word v = count_word (proto w)" "flag v = flag (proto w)" "wakes v = wakes (proto w)"
    using s(1) by simp_all
  show "queue_call (points (proto w) t) t = None \<Longrightarrow> points v t = points (proto w) t"
    using no_call_free [OF _ s(3)] s(1) by simp
  show "at_point (wqueue w) t = Q_Idle \<Longrightarrow> points v t = points (proto w) t"
    using coherentD(2) [OF s(4), of t] s(3) [of t] s(1) by (simp add: in_call_def)
  show "(\<And>t. at_point (wqueue w) t = Q_Idle) \<Longrightarrow> holds (shared (wqueue w)) N (waiting v)"
    using idle_ring [OF s(4)] s(1,2) by (auto simp: holds_def)
qed

section \<open>Properties\<close>

text \<open>C5: the whole crate, interleaved at its single accesses with those inside the array queue, does nothing that
  the protocol with the queue as an atomic list does not do: the word, the flags, the wake-ups and the points of the tasks are
  those of a run of the protocol, a task whose push or pop has taken effect counting as returned; between calls of the queue
  the array holds the protocol's list of waiters.\<close>

theorem crate_refines_protocol:
  assumes "reachable (fresh_crate pr C) (crate_step (\<lambda>_. True) pr M) w" "few_moves (unat C) (wqueue w)"
  shows "\<exists>v. reachable fresh (step pr (unat C) M) v \<and> count_word v = count_word (proto w) \<and>
    flag v = flag (proto w) \<and> wakes v = wakes (proto w) \<and>
    (\<forall>t. at_point (wqueue w) t = Q_Idle \<longrightarrow> points v t = points (proto w) t) \<and>
    ((\<forall>t. at_point (wqueue w) t = Q_Idle) \<longrightarrow> holds (shared (wqueue w)) (unat C) (waiting v))"
proof -
  obtain v where v: "reachable fresh (chosen_step (\<lambda>_. True) pr (unat C) M) v" "glue_crate pr (unat C) w v"
    by (rule crate_glue [OF assms])
  have "reachable fresh (step pr (unat C) M) v"
    by (rule reachable_mono [OF v(1)]) (auto elim!: chosen_step.cases intro: step.step)
  with glue_crate_same [OF v(2)] show ?thesis by blast
qed

definition waits_only :: "choice \<Rightarrow> bool" where
  "waits_only ch \<longleftrightarrow> (case ch of Call opn \<Rightarrow> \<not> wiping_call opn | _ \<Rightarrow> True)"

text \<open>C6: in the whole crate, under every interleaving of single accesses, an exclusive reference is exclusive as long as
  only the safe operations without try_get_exclusive_ref are called: no reference is alive, no other task holds the block, and
  the word says so.\<close>

theorem crate_excludes:
  assumes "reachable (fresh_crate pr C) (crate_step waits_only pr M) w" "few_moves (unat C) (wqueue w)" "countable pr M"
    and "points (proto w) t = Has_Excl"
  shows "points (proto w) u \<noteq> Has_Ref \<and> (blocking (points (proto w) u) \<longrightarrow> u = t) \<and>
    count_word (proto w) = word_state 0 True"
proof -
  obtain v where v: "reachable fresh (chosen_step waits_only pr (unat C) M) v" "glue_crate pr (unat C) w v"
    by (rule crate_glue [OF assms(1,2)])
  have "reachable fresh (waiting_step pr (unat C) M) v"
    by (rule reachable_mono [OF v(1)]) (auto elim!: chosen_step.cases simp: waits_only_def intro: waiting_step.waits)
  from waiting_careful [OF this assms(3)] obtain l where l: "lock_ok l" "glue pr M v l"
    by (elim conjE careful_safe) (use assms(3) in auto)
  note same = glue_crate_same [OF v(2)]
  have "points v t = Has_Excl" using same(4) [of t] assms(4) by simp
  note x = glue_exclusive [OF l this]
  have "points v u = points (proto w) u" if "points (proto w) u = Has_Ref \<or> blocking (points (proto w) u)"
    by (rule same(4)) (use that in \<open>cases "points (proto w) u"; auto\<close>)
  with x(1,2) [of u] have "points (proto w) u \<noteq> Has_Ref" "blocking (points (proto w) u) \<longrightarrow> u = t" by auto
  moreover have "count_word (proto w) = word_state 0 True"
    using x(3,4) word_state_pair [of "count_word v"] same(1) by simp
  ultimately show ?thesis by blast
qed

section \<open>Witnesses\<close>

text \<open>
  On a queue of one slot: task 1 has the exclusive reference and task 0 is about to write its waiter into the slot it
  has got. Then task 1 drops the reference, its pop spins until task 0 has stored the stamp, takes the waiter and wakes task
  0, all before the push returns.
\<close>

definition start_crate :: crate where
  "start_crate = \<lparr>proto = all_idle, wqueue = start_world\<rparr>"

definition pushing :: "(nat \<times> choice) list" where
  "pushing = (1, Call Op_get_exclusive_ref) # accesses 3 1 @ (0, Call Op_get_ref) # accesses 6 0 @ (0, Poll) # accesses 6 0"

definition meeting :: "(nat \<times> choice) list" where
  "meeting = pushing @ accesses 4 1 @ accesses 2 0 @ accesses 14 1 @ accesses 2 0"

lemma crate_schedule:
  assumes "map_option f (schedule (crate_task Debug) ds start_crate) = Some x" "\<forall>d \<in> set ds. fst d < M \<and> ok (snd d)"
  obtains w where "reachable (fresh_crate Debug 1) (crate_step ok Debug M) w" "f w = x"
proof -
  from assms(1) obtain w where w: "schedule (crate_task Debug) ds start_crate = Some w" "f w = x" by auto
  have "(crate_step ok Debug M)\<^sup>*\<^sup>* start_crate w"
    by (rule schedule_steps [OF w(1)]) (use assms(2) in \<open>force intro: crate_step.crate_step\<close>)
  moreover have "reachable (fresh_crate Debug 1) (crate_step ok Debug M) start_crate"
    using start_world_fresh by (intro reachable.start) (simp add: fresh_crate_def start_crate_def)
  ultimately show ?thesis using that w(2) reachable_steps by metis
qed

theorem crate_refines_protocol_witness:
  "\<exists>v. reachable fresh (step Debug 1 2) v \<and> count_word v = 0 \<and> flag v 0 = Some True \<and> wakes v 0 \<and>
     points v 0 = Parked Await_Ref \<and> points v 1 = Idle"
proof -
  have "map_option (\<lambda>w. (tail_moves (wqueue w), count_word (proto w), flag (proto w) 0, wakes (proto w) 0,
        map (\<lambda>t. (at_point (wqueue w) t, points (proto w) t)) [0, 1])) (schedule (crate_task Debug) meeting start_crate) =
      Some (1, 0, Some True, True, [(Q_Idle, Parked Await_Ref), (Q_Idle, Idle)])"
    by code_simp
  moreover have "\<forall>d \<in> set meeting. fst d < 2 \<and> True" by code_simp
  ultimately obtain w where w: "reachable (fresh_crate Debug 1) (crate_step (\<lambda>_. True) Debug 2) w"
    "(tail_moves (wqueue w), count_word (proto w), flag (proto w) 0, wakes (proto w) 0,
        map (\<lambda>t. (at_point (wqueue w) t, points (proto w) t)) [0, 1]) =
     (1, 0, Some True, True, [(Q_Idle, Parked Await_Ref), (Q_Idle, Idle)])"
    by (rule crate_schedule)
  then have "few_moves (unat (1::usize)) (wqueue w)" by (simp add: few_moves_def)
  from crate_refines_protocol [OF w(1) this] w(2) show ?thesis by auto
qed

theorem crate_excludes_witness:
  "\<exists>w :: crate. points (proto w) 1 = Has_Excl \<and> touches (at_point (wqueue w) 0) = Some 0 \<and>
     count_word (proto w) = word_state 0 True \<and> \<not> blocking (points (proto w) 0)"
proof -
  have "map_option (\<lambda>w. (tail_moves (wqueue w), points (proto w) 1, touches (at_point (wqueue w) 0)))
      (schedule (crate_task Debug) pushing start_crate) = Some (1, Has_Excl, Some 0)"
    by code_simp
  moreover have "\<forall>d \<in> set pushing. fst d < 2 \<and> waits_only (snd d)" by code_simp
  ultimately obtain w where w: "reachable (fresh_crate Debug 1) (crate_step waits_only Debug 2) w"
    "(tail_moves (wqueue w), points (proto w) 1, touches (at_point (wqueue w) 0)) = (1, Has_Excl, Some 0)"
    by (rule crate_schedule)
  then have "few_moves (unat (1::usize)) (wqueue w)" "points (proto w) 1 = Has_Excl" by (simp_all add: few_moves_def)
  with crate_excludes [OF w(1) this(1) _ this(2), of 0] w(2) show ?thesis by (auto simp: countable_def)
qed

end
