(* ===== verification/Memory_Order.thy ===== *)
theory Memory_Order
  imports Main
begin

text \<open>
  Release and acquire accesses to one atomic variable, in the memory model of Rust (that of C++20 without its
  out-of-thin-air executions), as an operational model. The writes to the variable have a modification order.
  A read-modify-write reads its immediate predecessor in that order, so the order is a list of chains: a chain starts
  with a plain store (or the initial value) and goes on with read-modify-writes. A load may read any message that is not older than
  the latest one its thread knows; a plain store may go anywhere after that one, but not into a chain.

  A message carries the memory accesses that happen before whoever reads it with an acquiring access: what its
  writer has seen, if the write releases, and what the message carries that a read-modify-write has read (a
  release sequence).
\<close>

section \<open>Orderings\<close>

datatype ordering = Relaxed | Acquire | Release_Order | AcqRel | SeqCst

definition acquires :: "ordering \<Rightarrow> bool" where
  "acquires ord \<longleftrightarrow> ord \<in> {Acquire, AcqRel, SeqCst}"

definition releases :: "ordering \<Rightarrow> bool" where
  "releases ord \<longleftrightarrow> ord \<in> {Release_Order, AcqRel, SeqCst}"

section \<open>Messages\<close>

record 'v message =
  content :: 'v
  carries :: "nat set"

type_synonym 'v chains = "'v message list list"

text \<open>A place is a chain and a position in it.\<close>

type_synonym place = "nat \<times> nat"

definition not_before :: "place \<Rightarrow> place \<Rightarrow> bool" where
  "not_before p q \<longleftrightarrow> fst p < fst q \<or> fst p = fst q \<and> snd p \<le> snd q"

definition readable :: "'v chains \<Rightarrow> place \<Rightarrow> place \<Rightarrow> bool" where
  "readable ch p q \<longleftrightarrow> fst q < length ch \<and> snd q < length (ch ! fst q) \<and> not_before p q"

definition message_at :: "'v chains \<Rightarrow> place \<Rightarrow> 'v message" where
  "message_at ch q = ch ! fst q ! snd q"

definition at_end :: "'v chains \<Rightarrow> place \<Rightarrow> bool" where
  "at_end ch q \<longleftrightarrow> Suc (snd q) = length (ch ! fst q)"

definition append_to :: "nat \<Rightarrow> 'v message \<Rightarrow> 'v chains \<Rightarrow> 'v chains" where
  "append_to c m ch = ch[c := ch ! c @ [m]]"

definition insert_chain :: "nat \<Rightarrow> 'v message \<Rightarrow> 'v chains \<Rightarrow> 'v chains" where
  "insert_chain c m ch = take c ch @ [m] # drop c ch"

definition shifted :: "nat \<Rightarrow> place \<Rightarrow> place" where
  "shifted c p = (if c \<le> fst p then (Suc (fst p), snd p) else p)"

text \<open>The end of the modification order.\<close>

definition latest :: "'v chains \<Rightarrow> 'v message" where
  "latest ch = last (last ch)"

definition wf_chains :: "'v chains \<Rightarrow> bool" where
  "wf_chains ch \<longleftrightarrow> ch \<noteq> [] \<and> (\<forall>c \<in> set ch. c \<noteq> [])"

lemma latest_append:
  assumes "wf_chains ch"
  shows "latest (append_to (length ch - 1) m ch) = m" "wf_chains (append_to c m ch)" "length (append_to c m ch) = length ch"
  using assms
  by (auto simp: latest_def append_to_def wf_chains_def last_list_update dest!: set_update_subset_insert [THEN subsetD])

lemma last_chain_append:
  assumes "wf_chains ch"
  shows "last (append_to (length ch - 1) m ch) = last ch @ [m]"
  using assms by (simp add: append_to_def wf_chains_def last_list_update last_conv_nth)

lemma insert_at_end: "insert_chain (length ch) m ch = ch @ [[m]]"
  by (simp add: insert_chain_def)


lemma last_chain: "wf_chains ch \<Longrightarrow> Suc (fst q) = length ch \<Longrightarrow> ch ! fst q = last ch"
  by (metis diff_Suc_1 last_conv_nth wf_chains_def)

lemma message_last: "ch ! fst q \<noteq> [] \<Longrightarrow> at_end ch q \<Longrightarrow> message_at ch q = last (ch ! fst q)"
  by (metis at_end_def diff_Suc_1 last_conv_nth message_at_def)

lemma message_latest:
  assumes "wf_chains ch" "Suc (fst q) = length ch" "at_end ch q"
  shows "message_at ch q = latest ch"
proof -
  have "ch ! fst q = last ch" using assms(1,2) by (rule last_chain)
  moreover have "last ch \<noteq> []" using assms(1) by (simp add: wf_chains_def)
  ultimately show ?thesis using message_last [OF _ assms(3)] by (simp add: latest_def)
qed

section \<open>The modification order\<close>

definition valid_place :: "'v chains \<Rightarrow> place \<Rightarrow> bool" where
  "valid_place ch q \<longleftrightarrow> fst q < length ch \<and> snd q < length (ch ! fst q)"

definition newest :: "'v chains \<Rightarrow> place" where
  "newest ch = (length ch - 1, length (last ch) - 1)"

definition messages_in :: "'v chains \<Rightarrow> nat" where
  "messages_in ch = sum_list (map length ch)"

text \<open>The number of messages before a place.\<close>

definition rank :: "'v chains \<Rightarrow> place \<Rightarrow> nat" where
  "rank ch q = messages_in (take (fst q) ch) + snd q"

lemma readable_valid: "readable ch p q \<longleftrightarrow> valid_place ch q \<and> not_before p q"
  by (auto simp: readable_def valid_place_def)

lemma newest_place:
  assumes "wf_chains ch"
  shows "valid_place ch (newest ch)" "at_end ch (newest ch)" "message_at ch (newest ch) = latest ch"
    "Suc (fst (newest ch)) = length ch"
proof -
  have ne: "ch \<noteq> []" "last ch \<noteq> []" using assms by (auto simp: wf_chains_def)
  show L: "Suc (fst (newest ch)) = length ch" using ne by (simp add: newest_def)
  note chain = last_chain [OF assms L]
  show at: "at_end ch (newest ch)" using ne by (simp add: at_end_def chain) (simp add: newest_def)
  show "message_at ch (newest ch) = latest ch" by (rule message_latest [OF assms L at])
  have "snd (newest ch) < length (last ch)" using ne by (simp add: newest_def)
  then show "valid_place ch (newest ch)" using L by (simp add: valid_place_def chain)
qed

lemma messages_prefix: "i < length ch \<Longrightarrow> messages_in (take (Suc i) ch) = messages_in (take i ch) + length (ch ! i)"
  by (simp add: messages_in_def take_Suc_conv_app_nth)

lemma messages_split: "i \<le> length ch \<Longrightarrow> messages_in ch = messages_in (take i ch) + messages_in (drop i ch)"
  by (simp add: messages_in_def flip: sum_list.append map_append)

lemma messages_last: "ch \<noteq> [] \<Longrightarrow> messages_in ch = messages_in (butlast ch) + length (last ch)"
  using messages_split [of "length ch - 1" ch] by (cases ch rule: rev_cases) (simp_all add: messages_in_def)

lemma messages_mono:
  assumes "i \<le> j"
  shows "messages_in (take i ch) \<le> messages_in (take j ch)"
proof -
  obtain d where "j = i + d" using assms le_Suc_ex by blast
  then show ?thesis by (simp add: take_add messages_in_def)
qed

lemma rank_before:
  assumes "valid_place ch p" "fst p < j" "j \<le> length ch"
  shows "rank ch p < messages_in (take j ch)"
proof -
  have "rank ch p < messages_in (take (Suc (fst p)) ch)"
    using assms(1) by (simp add: rank_def messages_prefix valid_place_def)
  also have "\<dots> \<le> messages_in (take j ch)" using assms(2) by (intro messages_mono) simp
  finally show ?thesis .
qed

lemma rank_less: "valid_place ch q \<Longrightarrow> rank ch q < messages_in ch"
  using rank_before [of ch q "length ch"] by (simp add: valid_place_def)

lemma rank_mono:
  assumes "valid_place ch p" "valid_place ch q"
  shows "rank ch p \<le> rank ch q \<longleftrightarrow> not_before p q"
proof -
  have lt: "rank ch p < rank ch q" if "valid_place ch p" "valid_place ch q" "fst p < fst q" for p q
    using rank_before [OF that(1,3)] that(2) by (simp add: valid_place_def) (simp add: rank_def)
  consider "fst p < fst q" | "fst p = fst q" | "fst q < fst p" by linarith
  then show ?thesis
  proof cases
    case 1
    with lt [OF assms 1] show ?thesis by (simp add: not_before_def)
  next
    case 3
    with lt [OF assms(2,1) 3] show ?thesis by (simp add: not_before_def)
  qed (simp add: rank_def not_before_def)
qed

lemma rank_inj:
  assumes "valid_place ch p" "valid_place ch q" "rank ch p = rank ch q"
  shows "p = q"
  using rank_mono [OF assms(1,2)] rank_mono [OF assms(2,1)] assms(3)
  by (cases p; cases q) (auto simp: not_before_def)

lemma rank_newest:
  assumes "wf_chains ch"
  shows "Suc (rank ch (newest ch)) = messages_in ch"
proof -
  have "ch \<noteq> []" "last ch \<noteq> []" using assms by (auto simp: wf_chains_def)
  with messages_last [of ch] have "messages_in ch = messages_in (butlast ch) + length (last ch)" by simp
  with \<open>last ch \<noteq> []\<close> show ?thesis by (simp add: rank_def newest_def butlast_conv_take)
qed

lemma newest_above: "wf_chains ch \<Longrightarrow> valid_place ch q \<Longrightarrow> not_before q (newest ch)"
  using rank_mono [of ch q "newest ch"] newest_place(1) [of ch] rank_newest [of ch] rank_less [of ch q] by simp

lemma newest_readable: "wf_chains ch \<Longrightarrow> valid_place ch q \<Longrightarrow> readable ch q (newest ch)"
  by (simp add: readable_valid newest_place newest_above)

lemma newest_top: "wf_chains ch \<Longrightarrow> valid_place ch q \<Longrightarrow> Suc (rank ch q) = messages_in ch \<Longrightarrow> q = newest ch"
  using rank_inj newest_place(1) rank_newest by (metis Suc_inject)

text \<open>One more message at the end, by a read-modify-write or by a store.\<close>

definition grows :: "'v chains \<Rightarrow> 'v message \<Rightarrow> 'v chains \<Rightarrow> bool" where
  "grows ch m ch' \<longleftrightarrow> wf_chains ch' \<and> messages_in ch' = Suc (messages_in ch) \<and> latest ch' = m \<and>
     (\<forall>p. valid_place ch p \<longrightarrow> valid_place ch' p \<and> p \<noteq> newest ch' \<and> message_at ch' p = message_at ch p \<and> rank ch' p = rank ch p) \<and>
     (\<forall>p. valid_place ch' p \<longrightarrow> valid_place ch p \<or> p = newest ch')"

lemma grows_append:
  assumes wf: "wf_chains ch"
  shows "grows ch m (append_to (length ch - 1) m ch)" "newest (append_to (length ch - 1) m ch) = (length ch - 1, length (last ch))"
proof -
  define ch' where "ch' = append_to (length ch - 1) m ch"
  have ne: "ch \<noteq> []" "last ch \<noteq> []" using wf by (auto simp: wf_chains_def)
  note app = latest_append [OF wf, where m = m, folded ch'_def]
  have len: "length ch' = length ch" by (simp add: ch'_def append_to_def)
  have end': "last ch' = last ch @ [m]" using last_chain_append [OF wf, of m] by (simp add: ch'_def)
  have chain: "ch' ! j = (if Suc j = length ch then ch ! j @ [m] else ch ! j)" if "j < length ch" for j
    using that by (cases "Suc j = length ch") (auto simp: ch'_def append_to_def nth_list_update)
  have take: "take j ch' = take j ch" if "Suc j \<le> length ch" for j
    using that by (simp add: ch'_def append_to_def)
  have new: "newest ch' = (length ch - 1, length (last ch))" by (simp add: newest_def len end')
  have "ch' \<noteq> []" using ne(1) len by auto
  moreover have "butlast ch' = butlast ch" using ne(1) by (simp add: butlast_conv_take take len)
  ultimately have "messages_in ch' = Suc (messages_in ch)"
    using messages_last [of ch] messages_last [of ch'] ne(1) by (simp add: end')
  moreover have "valid_place ch' p \<and> p \<noteq> newest ch' \<and> message_at ch' p = message_at ch p \<and> rank ch' p = rank ch p" if "valid_place ch p" for p
    using that ne unfolding new by (auto simp: valid_place_def message_at_def rank_def chain take len nth_append last_conv_nth)
  moreover have "valid_place ch p \<or> p = newest ch'" if "valid_place ch' p" for p
    using that ne last_chain [OF wf, of p] unfolding new
    by (cases p) (auto simp: valid_place_def chain len less_Suc_eq split: if_splits)
  moreover have "wf_chains ch'" using latest_append(2) [OF wf] by (simp add: ch'_def)
  moreover have "latest ch' = m" using app(1) .
  ultimately show "grows ch m (append_to (length ch - 1) m ch)" unfolding ch'_def [symmetric] grows_def by blast
  show "newest (append_to (length ch - 1) m ch) = (length ch - 1, length (last ch))" using new by (simp add: ch'_def)
qed

lemma grows_insert:
  assumes wf: "wf_chains ch"
  shows "grows ch m (insert_chain (length ch) m ch)" "newest (insert_chain (length ch) m ch) = (length ch, 0)"
  using wf by (auto simp: grows_def insert_at_end newest_def wf_chains_def messages_in_def latest_def valid_place_def
      message_at_def rank_def nth_append less_Suc_eq)

lemma growsD:
  assumes "grows ch m ch'"
  shows "wf_chains ch'" "messages_in ch' = Suc (messages_in ch)" "latest ch' = m"
    "valid_place ch p \<Longrightarrow> valid_place ch' p" "valid_place ch p \<Longrightarrow> p \<noteq> newest ch'"
    "valid_place ch p \<Longrightarrow> message_at ch' p = message_at ch p" "valid_place ch p \<Longrightarrow> rank ch' p = rank ch p"
    "valid_place ch' p \<Longrightarrow> p \<noteq> newest ch' \<Longrightarrow> valid_place ch p"
  using assms unfolding grows_def by blast+

text \<open>The words a variable has had, if they are known in advance.\<close>

definition ranked :: "(nat \<Rightarrow> 'v) \<Rightarrow> 'v chains \<Rightarrow> nat \<Rightarrow> bool" where
  "ranked f ch N \<longleftrightarrow> wf_chains ch \<and> messages_in ch = Suc N \<and> (\<forall>p. valid_place ch p \<longrightarrow> content (message_at ch p) = f (rank ch p))"

lemma rankedD:
  assumes "ranked f ch N"
  shows "wf_chains ch" "messages_in ch = Suc N" "valid_place ch p \<Longrightarrow> content (message_at ch p) = f (rank ch p)"
    "valid_place ch p \<Longrightarrow> rank ch p \<le> N" "valid_place ch p \<Longrightarrow> rank ch p = N \<longleftrightarrow> p = newest ch"
    "rank ch (newest ch) = N" "valid_place ch (newest ch)" "content (latest ch) = f N"
proof -
  show wf: "wf_chains ch" and N: "messages_in ch = Suc N" "valid_place ch p \<Longrightarrow> content (message_at ch p) = f (rank ch p)" for p
    using assms unfolding ranked_def by blast+
  show r: "rank ch (newest ch) = N" using rank_newest [OF wf] N by simp
  show v: "valid_place ch (newest ch)" by (rule newest_place(1) [OF wf])
  show "content (latest ch) = f N" using N(2) [OF v] r newest_place(3) [OF wf] by simp
  show "valid_place ch p \<Longrightarrow> rank ch p \<le> N" using rank_less [of ch p] N(1) by simp
  show "valid_place ch p \<Longrightarrow> rank ch p = N \<longleftrightarrow> p = newest ch" using rank_inj [of ch p "newest ch"] r v by auto
qed

lemma ranked_grows:
  assumes "ranked f ch N" "grows ch m ch'" "content m = f (Suc N)"
  shows "ranked f ch' (Suc N)"
proof -
  note g = growsD [OF assms(2)] and r = rankedD [OF assms(1)]
  have "content (message_at ch' p) = f (rank ch' p)" if p: "valid_place ch' p" for p
  proof (cases "p = newest ch'")
    case True
    with rank_newest [OF g(1)] g(2,3) r(2) newest_place(3) [OF g(1)] assms(3) show ?thesis by simp
  next
    case False
    with g(8) [OF p] g(6,7) r(3) show ?thesis by simp
  qed
  with g(1,2) r(2) show ?thesis by (simp add: ranked_def)
qed

end
