(* ===== verification/Count_Orderings.thy ===== *)
theory Count_Orderings
  imports Protocol_Runs Memory_Order
begin

text \<open>
  The operations of \<open>Ref_Protocol\<close> with the memory orderings that the code gives its accesses to the count, and a
  client that keeps data behind the \<open>RefCount\<close>: who has a reference may read them, who has the exclusive
  reference may write them, without an ordering (\<open>src/tests/loom.rs\<close> builds such a reader-writer lock). A load of the count
  may return an old word, and an access to the data that does not happen after a conflicting one is a data race, which is undefined
  behaviour.

  The accesses to the count are those of \<open>Ref_Count\<close>. Everything else a task does (the queue, the flags, the wakers)
  is as in \<open>Ref_Protocol\<close>, but in surroundings that are arbitrary at each step: no ordering of those accesses is relied on, and
  none of them makes anything happen before anything else.
\<close>

section \<open>The orderings of the code\<close>

definition first_load_order :: ordering where "first_load_order = Relaxed"

definition exchange_order :: ordering where "exchange_order = SeqCst"

definition count_order :: ordering where "count_order = Acquire"

definition blocked_order :: ordering where "blocked_order = Acquire"

definition drop_order :: ordering where "drop_order = Release_Order"

definition unblock_order :: ordering where "unblock_order = Release_Order"

lemmas code_orders = first_load_order_def exchange_order_def count_order_def blocked_order_def drop_order_def
  unblock_order_def acquires_def releases_def

fun order_at :: "point \<Rightarrow> ordering" where
  "order_at (Incr_Load g) = first_load_order"
| "order_at (Block_Load g) = first_load_order"
| "order_at (Incr_Cas g i cur next) = exchange_order"
| "order_at (Block_Cas g i cur next) = exchange_order"
| "order_at (Check_Blocked a) = blocked_order"
| "order_at Has_Ref = drop_order"
| "order_at Has_Block = unblock_order"
| "order_at Has_Excl = unblock_order"
| "order_at Give_Up = unblock_order"
| "order_at _ = count_order"

section \<open>Steps\<close>

record relaxed =
  words :: "u32 chains"
  known :: "nat \<Rightarrow> Memory_Order.place"   \<comment> \<open>the latest message of the count a task knows\<close>
  sees :: "nat \<Rightarrow> nat set"               \<comment> \<open>the uses of the data that happen before its next step\<close>
  tasks :: "nat \<Rightarrow> point"
  uses :: "(nat \<times> bool) list"             \<comment> \<open>the uses so far: the task, and whether it writes\<close>

datatype relaxed_choice =
    Count Memory_Order.place bool   \<comment> \<open>the next access to the count, what it reads, and whether an exchange fails spuriously\<close>
  | Other world choice              \<comment> \<open>anything else, in these surroundings\<close>
  | Use                             \<comment> \<open>a use of the data\<close>

definition storing :: "point \<Rightarrow> bool" where
  "storing p \<longleftrightarrow> p \<in> {Has_Block, Has_Excl, Give_Up}"

definition released :: "point \<Rightarrow> nat set \<Rightarrow> nat set" where
  "released p s = (if releases (order_at p) then s else {})"

definition store_count :: "profile \<Rightarrow> nat \<Rightarrow> nat \<Rightarrow> relaxed \<Rightarrow> relaxed" where
  "store_count pr c t w =
     (case access pr (tasks w t) (at_word 0 False) of (p, cell) \<Rightarrow>
      w\<lparr>words := insert_chain c \<lparr>content = cval cell, carries = released (tasks w t) (sees w t)\<rparr> (words w),
        known := (\<lambda>u. if u = t then (c, 0) else shifted c (known w u)), tasks := (tasks w)(t := p)\<rparr>)"

text \<open>A load, or an exchange that fails, or one that succeeds, and the \<open>fetch_sub\<close>, which always does.\<close>

definition read_count :: "profile \<Rightarrow> Memory_Order.place \<Rightarrow> bool \<Rightarrow> nat \<Rightarrow> relaxed \<Rightarrow> relaxed option" where
  "read_count pr q sp t w =
     (let m = message_at (words w) q;
          seen = sees w t \<union> (if acquires (order_at (tasks w t)) then carries m else {}) in
      case access pr (tasks w t) (at_word (content m) sp) of (p, cell) \<Rightarrow>
        if cown cell = [] then
          Some (w\<lparr>known := (known w)(t := q), sees := (sees w)(t := seen), tasks := (tasks w)(t := p)\<rparr>)
        else if at_end (words w) q then
          Some (w\<lparr>words := append_to (fst q) \<lparr>content = cval cell, carries = carries m \<union> released (tasks w t) seen\<rparr> (words w),
            known := (known w)(t := (fst q, Suc (snd q))), sees := (sees w)(t := seen), tasks := (tasks w)(t := p)\<rparr>)
        else None)"

definition relaxed_task :: "profile \<Rightarrow> nat \<Rightarrow> nat \<times> relaxed_choice \<Rightarrow> relaxed \<Rightarrow> relaxed option" where
  "relaxed_task pr N d w = (case d of (t, ch) \<Rightarrow> (case ch of
     Count q sp \<Rightarrow>
       (if \<not> at_count (tasks w t) then None
        else if storing (tasks w t) then
          (if fst (known w t) < fst q \<and> fst q \<le> length (words w) then Some (store_count pr (fst q) t w) else None)
        else if readable (words w) (known w t) q then read_count pr q sp t w else None)
   | Other v c \<Rightarrow>
       (if at_count (tasks w t) \<and> (case c of Go _ \<Rightarrow> True | _ \<Rightarrow> False) then None
        else map_option (\<lambda>v'. w\<lparr>tasks := points v'\<rparr>) (task_step pr N (t, c) (v\<lparr>points := tasks w\<rparr>)))
   | Use \<Rightarrow>
       (if tasks w t \<in> {Has_Ref, Has_Excl} then
          Some (w\<lparr>uses := uses w @ [(t, tasks w t = Has_Excl)], sees := (sees w)(t := insert (length (uses w)) (sees w t))\<rparr>)
        else None)))"

definition relaxed_start :: relaxed where
  "relaxed_start = \<lparr>words = [[\<lparr>content = 0, carries = {}\<rparr>]], known = (\<lambda>_. (0, 0)), sees = (\<lambda>_. {}), tasks = (\<lambda>_. Idle), uses = []\<rparr>"

definition relaxed_init :: "relaxed \<Rightarrow> bool" where
  "relaxed_init w \<longleftrightarrow> w = relaxed_start"

text \<open>The next use of a task is a data race: it conflicts with one that does not happen before it.\<close>

definition races :: "relaxed \<Rightarrow> nat \<Rightarrow> bool" where
  "races w t \<longleftrightarrow> (\<exists>i < length (uses w). i \<notin> sees w t \<and>
     (tasks w t = Has_Excl \<or> tasks w t = Has_Ref \<and> snd (uses w ! i)))"

inductive relaxed_step :: "profile \<Rightarrow> nat \<Rightarrow> nat \<Rightarrow> relaxed \<Rightarrow> relaxed \<Rightarrow> bool" for pr N M where
  relaxed_step: "t < M \<Longrightarrow> relaxed_task pr N (t, ch) w = Some w' \<Longrightarrow> relaxed_step pr N M w w'"

text \<open>The waiting operations of \<open>Protocol_Runs\<close>; and careful steps, none of which stores over references.\<close>

definition relaxed_waits :: "relaxed_choice \<Rightarrow> bool" where
  "relaxed_waits ch \<longleftrightarrow> (case ch of Other _ (Call opn) \<Rightarrow> \<not> wiping_call opn | _ \<Rightarrow> True)"

inductive relaxed_waiting :: "profile \<Rightarrow> nat \<Rightarrow> nat \<Rightarrow> relaxed \<Rightarrow> relaxed \<Rightarrow> bool" for pr N M where
  waits: "t < M \<Longrightarrow> relaxed_waits ch \<Longrightarrow> relaxed_task pr N (t, ch) w = Some w' \<Longrightarrow> relaxed_waiting pr N M w w'"

definition relaxed_wipes :: "nat \<Rightarrow> relaxed_choice \<Rightarrow> relaxed \<Rightarrow> bool" where
  "relaxed_wipes t ch w \<longleftrightarrow> (case ch of Count _ _ \<Rightarrow> storing (tasks w t) \<and> 0 < refs_of (content (latest (words w))) | _ \<Rightarrow> False)"

inductive relaxed_careful :: "profile \<Rightarrow> nat \<Rightarrow> nat \<Rightarrow> relaxed \<Rightarrow> relaxed \<Rightarrow> bool" for pr N M where
  careful: "t < M \<Longrightarrow> \<not> relaxed_wipes t ch w \<Longrightarrow> relaxed_task pr N (t, ch) w = Some w' \<Longrightarrow> relaxed_careful pr N M w w'"

section \<open>What an access does\<close>

lemma at_word_owned:
  "cown (at_word v s) = []" "cown (store x (at_word v s)) = [(v, x)]" "cown (snd (fetch_sub d (at_word v s))) = [(v, v - d)]"
  by (simp_all add: at_word_def store_def fetch_sub_def arrive_def put_def)

lemma access_silent:
  assumes "access pr p (at_word v s) = (p', c)" "cown c = []"
  shows "cval c = v" "\<not> storing p"
  using assms
  by (cases p; auto simp: storing_def at_word at_word_owned quiesced_def try_incr_def try_block_def try_last_def Let_def
      split: if_splits sum.splits)+

lemma access_writing:
  assumes "access pr p (at_word v s) = (p', c)" "cown c \<noteq> []"
  shows "p' = Has_Ref \<or> (\<exists>g i cur nx. p = Block_Cas g i cur nx \<and> p' = block_done g) \<or> p = Has_Ref \<or> storing p \<and> p' = First_Pop"
  using assms
  by (cases p) (auto simp: storing_def at_word at_word_owned quiesced_def try_incr_def try_block_def try_last_def Let_def
      split: if_splits sum.splits)

text \<open>An access that writes is a step of the lock, one that does not keeps the word.\<close>

lemma access_writes:
  assumes "access pr p (at_word v s) = (p', c)" "at_count p" "wf_point pr p"
  obtains "cown c = []" "cval c = v" "has_effect pr Keeps v v p p'" "wf_point pr p'"
  | "cown c = []" "cval c = v" "has_effect pr Grants v v p p'" "wf_point pr p'"
  | e where "cown c \<noteq> []" "e \<in> {Enters, Leaves, Blocks, Unblocks}" "has_effect pr e v (cval c) p p'" "wf_point pr p'"
proof -
  obtain e where e: "has_effect pr e v (cval c) p p'" and wf: "wf_point pr p'" using access_effect [OF assms] by blast
  show thesis
  proof (cases "cown c = []")
    case True
    note silent = access_silent [OF assms(1) True]
    have "v - REF_INCR \<noteq> v" by (simp add: REF_INCR_def REF_COUNT_SHIFT_def)
    moreover have "\<not> block_write (v, v)" using block_write_parts by blast
    moreover have "\<not> incr_write pr (v, v)"
      by (auto simp: incr_write_def word_state_def)
    ultimately have "e \<in> {Keeps, Grants}"
      using e silent by (cases e) (auto simp: storing_def)
    with that(1,2) True silent(1) e wf show thesis by auto
  next
    case False
    have "blocking (block_done g)" "block_done g \<noteq> Has_Excl" if "p = Block_Cas g i cur nx" for g i cur nx
      using block_done_role(1,2) [of g] assms(3) that by auto
    with access_writing [OF assms(1) False] have "e \<notin> {Keeps, Grants}"
      using e by (auto simp: same_role_def storing_def)
    with that(3) [OF False _ e wf] show thesis by (cases e) auto
  qed
qed

section \<open>Sequentially consistent runs\<close>

text \<open>Reading the latest word at every access gives the runs of \<open>Ref_Protocol\<close>, so the relaxed ones include them.\<close>

definition placed :: "relaxed \<Rightarrow> bool" where
  "placed w \<longleftrightarrow> wf_chains (words w) \<and> (\<forall>u. readable (words w) (known w u) (known w u))"

lemma newest_end:
  assumes "placed w"
  shows "readable (words w) (known w u) (newest (words w))" "at_end (words w) (newest (words w))"
    "message_at (words w) (newest (words w)) = latest (words w)" "Suc (fst (newest (words w))) = length (words w)"
  using assms newest_place [of "words w"] newest_readable [of "words w" "known w u"] by (simp_all add: placed_def readable_valid)

definition strong_glue :: "world \<Rightarrow> relaxed \<Rightarrow> bool" where
  "strong_glue v w \<longleftrightarrow> placed w \<and> points v = tasks w \<and> count_word v = content (latest (words w))"

lemma strong_count_step:
  assumes g: "strong_glue v w" and at: "at_count (points v t)"
  shows "\<exists>q w'. relaxed_task pr N (t, Count q sp) w = Some w' \<and> strong_glue (count_step pr sp t v) w'"
proof -
  obtain p cell where acc: "access pr (points v t) (at_word (count_word v) sp) = (p, cell)" by fastforce
  have v': "points (count_step pr sp t v) = (points v)(t := p)" "count_word (count_step pr sp t v) = cval cell"
    by (simp_all add: count_step_def acc Let_def)
  have pl: "placed w" and v: "points v = tasks w" "count_word v = content (latest (words w))"
    using g by (auto simp: strong_glue_def)
  note new = newest_end [OF pl]
  show ?thesis
  proof (cases "storing (points v t)")
    case True
    let ?w = "store_count pr (length (words w)) t w"
    have "p = First_Pop" "cval cell = REF_ALLOWED" "fst (access pr (tasks w t) (at_word 0 False)) = First_Pop"
      "cval (snd (access pr (tasks w t) (at_word 0 False))) = REF_ALLOWED"
      using acc True v(1) by (auto simp: storing_def at_word)
    with v v' have g': "points (count_step pr sp t v) = tasks ?w" "count_word (count_step pr sp t v) = content (latest (words ?w))"
      by (auto simp: store_count_def split_beta insert_at_end latest_def)
    have "fst (known w u) < length (words w)" for u using pl by (simp add: placed_def readable_def)
    then have "\<not> length (words w) \<le> fst (known w u)" for u by (simp add: not_le)
    with pl have "placed ?w"
      by (auto simp: placed_def store_count_def split_beta insert_at_end wf_chains_def readable_def nth_append
          shifted_def not_before_def)
    with g' have "strong_glue (count_step pr sp t v) ?w" by (simp add: strong_glue_def)
    moreover have "fst (known w t) < length (words w)" using pl by (simp add: placed_def readable_def)
    ultimately show ?thesis
      using True at v(1) by (intro exI [of _ "(length (words w), 0)"] exI [of _ ?w]) (simp add: relaxed_task_def)
  next
    case False
    have "read_count pr (newest (words w)) sp t w \<noteq> None"
      using new(2) by (simp add: read_count_def Let_def split: prod.split)
    then obtain w' where w': "read_count pr (newest (words w)) sp t w = Some w'" by blast
    have acc': "access pr (tasks w t) (at_word (content (latest (words w))) sp) = (p, cell)" using acc v by simp
    have "strong_glue (count_step pr sp t v) w'"
    proof (cases "cown cell = []")
      case True
      then have up: "tasks w' = (tasks w)(t := p)" "known w' = (known w)(t := newest (words w))" "words w' = words w"
        using w' acc' new(3) by (auto simp: read_count_def Let_def)
      have "placed w'" using pl new(1) [of t] by (auto simp: placed_def up readable_def not_before_def)
      with access_silent(1) [OF acc True] v v' show ?thesis by (simp add: strong_glue_def up)
    next
      case False
      then have up: "tasks w' = (tasks w)(t := p)" "known w' = (known w)(t := (fst (newest (words w)), Suc (snd (newest (words w)))))"
        "words w' = append_to (fst (newest (words w))) \<lparr>content = cval cell, carries = carries (latest (words w)) \<union>
           released (tasks w t) (sees w t \<union> (if acquires (order_at (tasks w t)) then carries (latest (words w)) else {}))\<rparr> (words w)"
        using w' acc' new(2,3) by (auto simp: read_count_def Let_def)
      from up(3) obtain m :: "u32 message" where m: "content m = cval cell" "words w' = append_to (fst (newest (words w))) m (words w)"
        by (metis message.select_convs(1))
      have wf: "wf_chains (words w)" using pl by (simp add: placed_def)
      have L: "fst (newest (words w)) = length (words w) - 1" by (simp add: newest_def)
      have "placed w'"
        using pl new(2,4) latest_append(2) [OF wf]
        by (auto simp: placed_def up(2) m(2) readable_def append_to_def not_before_def at_end_def nth_list_update less_SucI)
      with latest_append(1) [OF wf] up(1) m L v v' show ?thesis by (simp add: strong_glue_def)
    qed
    with w' False at v(1) new(1) show ?thesis
      by (intro exI [of _ "newest (words w)"] exI [of _ w']) (simp add: relaxed_task_def)
  qed
qed

theorem strong_runs_are_relaxed:
  assumes "reachable fresh (step pr N M) v"
  shows "\<exists>w. reachable relaxed_init (relaxed_step pr N M) w \<and>
    tasks w = points v \<and> content (latest (words w)) = count_word v"
proof -
  have "\<exists>w. reachable relaxed_init (relaxed_step pr N M) w \<and> strong_glue v w"
    using assms
  proof (induction rule: reachable.induct)
    case (start v)
    have "strong_glue v relaxed_start"
      using start by (auto simp: strong_glue_def fresh_def all_idle_def relaxed_start_def placed_def wf_chains_def readable_def
          not_before_def latest_def)
    then show ?case by (auto simp: relaxed_init_def intro: reachable.start)
  next
    case (further v v')
    then obtain w where w: "reachable relaxed_init (relaxed_step pr N M) w" "strong_glue v w"
      by blast
    obtain t c where t: "t < M" "task_step pr N (t, c) v = Some v'" using further.hyps(2) by (auto elim: step.cases)
    have "\<exists>ch w'. relaxed_task pr N (t, ch) w = Some w' \<and> strong_glue v' w'"
    proof (cases "\<exists>sp. c = Go sp \<and> at_count (points v t)")
      case True
      then obtain sp where sp: "c = Go sp" "at_count (points v t)" by blast
      with t(2) go_count [of pr N sp t v v'] have "v' = count_step pr sp t v" by (simp add: task_step_def)
      with strong_count_step [OF w(2) sp(2), of pr N sp] show ?thesis by blast
    next
      case False
      have same: "v\<lparr>points := tasks w\<rparr> = v" using w(2) by (cases v) (simp add: strong_glue_def)
      have "count_word v' = count_word v"
        using t(2) False by (cases c; cases "points v t") (auto simp: task_step_def go_def split: option.splits list.splits if_splits)
      then have "strong_glue v' (w\<lparr>tasks := points v'\<rparr>)" using w(2) by (simp add: strong_glue_def placed_def)
      moreover have "relaxed_task pr N (t, Other v c) w = Some (w\<lparr>tasks := points v'\<rparr>)"
        using t(2) False w(2) by (cases c) (auto simp: relaxed_task_def strong_glue_def same)
      ultimately show ?thesis by blast
    qed
    with w(1) t(1) show ?case by (blast intro: reachable.further relaxed_step.intros)
  qed
  then show ?thesis by (auto simp: strong_glue_def)
qed

end
