(* ===== verification/Count_Guard.thy ===== *)
theory Count_Guard
  imports Count_Orderings
begin

text \<open>
  The orderings of \<open>Count_Orderings\<close> guard the client's data in every execution of the waiting operations, by a simulation
  of the lock of \<open>Lock_Spec\<close>; they do not when \<open>try_get_exclusive_ref\<close> gives up.
\<close>

section \<open>The gluing relation\<close>

text \<open>The protocol's state at the end of the modification order.\<close>

definition now :: "relaxed \<Rightarrow> world" where
  "now w = all_idle\<lparr>count_word := content (latest (words w)), points := tasks w\<rparr>"

text \<open>
  Every chain but the last ends with a blocked word without references, so that only loads and nothing that matters
  can find it; the tasks with a reference or with the block are in the last chain, and after its own block a task finds no word
  without references but the last.
\<close>

definition chained :: "relaxed \<Rightarrow> bool" where
  "chained w \<longleftrightarrow> wf_chains (words w) \<and>
     (\<forall>c. Suc c < length (words w) \<longrightarrow> content (last (words w ! c)) = word_state 0 True) \<and>
     (\<forall>u. tasks w u = Has_Ref \<or> blocking (tasks w u) \<longrightarrow> Suc (fst (known w u)) = length (words w)) \<and>
     (\<forall>u j. blocking (tasks w u) \<longrightarrow> snd (known w u) \<le> j \<longrightarrow> j < length (last (words w)) \<longrightarrow>
        refs_of (content (last (words w) ! j)) = 0 \<longrightarrow> Suc j = length (last (words w)))"

text \<open>The last word carries every use but those of the references that are alive, and every write but those of the writer.\<close>

definition viewed :: "relaxed \<Rightarrow> bool" where
  "viewed w \<longleftrightarrow> (\<forall>t. \<not> races w t) \<and> (\<forall>i < length (uses w).
     (i \<in> carries (latest (words w)) \<or> (\<exists>u. tasks w u \<in> {Has_Ref, Has_Excl} \<and> i \<in> sees w u)) \<and>
     (snd (uses w ! i) \<longrightarrow> i \<in> carries (latest (words w)) \<or> (\<exists>u. tasks w u = Has_Excl)))"

definition relaxed_glue :: "profile \<Rightarrow> nat \<Rightarrow> relaxed \<Rightarrow> lock \<Rightarrow> bool" where
  "relaxed_glue pr M w l \<longleftrightarrow> glue pr M (now w) l \<and> (\<forall>u. clean (tasks w u)) \<and> chained w \<and> viewed w"

lemma now_fields [simp]: "points (now w) = tasks w" "count_word (now w) = content (latest (words w))"
  by (simp_all add: now_def)

lemma glue_same: "glue pr M w l \<Longrightarrow> points w' = points w \<Longrightarrow> count_word w' = count_word w \<Longrightarrow> glue pr M w' l"
  by (auto simp: glue_def)

lemma relaxed_excl:
  assumes "relaxed_glue pr M w l" "lock_ok l" "tasks w t = Has_Excl"
  shows "tasks w u \<noteq> Has_Ref" "blocking (tasks w u) \<Longrightarrow> u = t" "content (latest (words w)) = word_state 0 True"
proof -
  have g: "glue pr M (now w) l" using assms(1) by (simp add: relaxed_glue_def)
  note x = glue_exclusive [OF assms(2) g, of t, simplified, OF assms(3)]
  from x(1,2) show "tasks w u \<noteq> Has_Ref" "blocking (tasks w u) \<Longrightarrow> u = t" by simp_all
  from x(3,4) show "content (latest (words w)) = word_state 0 True"
    using word_state_pair [of "content (latest (words w))"] by simp
qed

lemma relaxed_blocked:
  assumes "relaxed_glue pr M w l" "lock_ok l" "blocking (tasks w t)"
  shows "is_blk (content (latest (words w)))"
  using assms by (auto simp: relaxed_glue_def glue_def lock_ok_def)

lemma viewed_role:
  assumes "viewed w" "uses w' = uses w" "words w' = words w" "tasks w' = (tasks w)(t := p)"
    "tasks w t \<notin> {Has_Ref, Has_Excl}" "p \<notin> {Has_Ref, Has_Excl}" "\<And>u. u \<noteq> t \<Longrightarrow> sees w' u = sees w u"
  shows "viewed w'"
proof -
  have t: "tasks w' u \<in> {Has_Ref, Has_Excl} \<longleftrightarrow> u \<noteq> t \<and> tasks w u \<in> {Has_Ref, Has_Excl}"
    "tasks w' u = Has_Excl \<longleftrightarrow> u \<noteq> t \<and> tasks w u = Has_Excl" for u
    using assms(4-6) by auto
  have e: "(\<exists>u. tasks w' u \<in> {Has_Ref, Has_Excl} \<and> i \<in> sees w' u) \<longleftrightarrow> (\<exists>u. tasks w u \<in> {Has_Ref, Has_Excl} \<and> i \<in> sees w u)"
    "(\<exists>u. tasks w' u = Has_Excl) \<longleftrightarrow> (\<exists>u. tasks w u = Has_Excl)" for i
    using t assms(5,7) by (metis, metis insert_iff)
  have "\<not> races w' u" for u
    using assms by (cases "u = t") (auto simp: viewed_def races_def)
  with e show ?thesis using assms(1) by (simp add: viewed_def assms(2,3))
qed

section \<open>The steps\<close>

text \<open>A step that does not change the count, and gives the task neither a reference nor the block.\<close>

lemma relaxed_role_step:
  assumes inv: "relaxed_glue pr M w l" and g: "glue pr M (now w') l'"
    and w': "uses w' = uses w" "words w' = words w" "tasks w' = (tasks w)(t := p)" "\<And>u. u \<noteq> t \<Longrightarrow> sees w' u = sees w u \<and> known w' u = known w u"
    and role: "tasks w t \<notin> {Has_Ref, Has_Excl}" "p \<notin> {Has_Ref, Has_Excl}" "blocking p \<Longrightarrow> blocking (tasks w t)" "clean p"
    and known: "known w' t = known w t \<or> readable (words w) (known w t) (known w' t)"
  shows "relaxed_glue pr M w' l'"
proof -
  have "viewed w'" using inv w' role by (intro viewed_role [of w w' t p]) (auto simp: relaxed_glue_def)
  moreover have "\<forall>u. clean (tasks w' u)" using inv w'(3) role(4) by (simp add: relaxed_glue_def)
  moreover have ch: "chained w" using inv by (simp add: relaxed_glue_def)
  have "Suc (fst (known w' u)) = length (words w)" if "tasks w' u = Has_Ref \<or> blocking (tasks w' u)" for u
    using ch that w'(3,4) role known
    by (cases "u = t") (auto simp: chained_def readable_def not_before_def)
  moreover have "snd (known w u) \<le> snd (known w' u)" if "blocking (tasks w' u)" for u
    using ch that w'(3,4) role known
    by (cases "u = t") (auto simp: chained_def readable_def not_before_def)
  moreover have "blocking (tasks w u)" if "blocking (tasks w' u)" for u
    using that w'(3) role(3) by (cases "u = t") auto
  ultimately show ?thesis
    using ch g unfolding relaxed_glue_def chained_def w'(2) by (meson order_trans)
qed

lemma relaxed_grant_step:
  assumes inv: "relaxed_glue pr M w l" and ok: "lock_ok l" and t: "t < M" and size: "pr = Debug \<or> M \<le> MAX_REFS"
    and q: "readable (words w) (known w t) q" and v: "v = content (message_at (words w) q)"
    and e: "has_effect pr Grants v v (tasks w t) p" "wf_point pr p" and p: "tasks w t \<noteq> Has_Excl" "at_count (tasks w t)"
    and w': "uses w' = uses w" "words w' = words w" "tasks w' = (tasks w)(t := p)" "known w' = (known w)(t := q)"
      "sees w' = (sees w)(t := sees w t \<union> carries (message_at (words w) q))"
  shows "\<exists>l'. lock_step\<^sup>*\<^sup>* l l' \<and> relaxed_glue pr M w' l'"
proof -
  have ch: "chained w" and vw: "viewed w" and g: "glue pr M (now w) l" and cl: "\<forall>u. clean (tasks w u)"
    using inv by (auto simp: relaxed_glue_def)
  have blk: "blocking (tasks w t)" and zero: "refs_of v = 0" and exc: "p = Has_Excl" using e(1) by auto
  have wf: "wf_chains (words w)" using ch by (simp add: chained_def)
  have last: "Suc (fst q) = length (words w)" "snd (known w t) \<le> snd q"
    using q ch blk by (auto simp: chained_def readable_def not_before_def)
  then have chain: "words w ! fst q = last (words w)" using wf by (intro last_chain)
  have at: "at_end (words w) q"
    using ch blk last q zero by (auto simp: chained_def at_end_def readable_def v message_at_def chain)
  have m: "message_at (words w) q = latest (words w)"
    using wf last(1) at by (rule message_latest)
  have eff: "has_effect pr Grants (count_word (now w)) v (points (now w) t) p" using e(1) v m by simp
  obtain l' where l': "lock_step\<^sup>*\<^sup>* l l'" "glue pr M (now w') l'"
    using glue_effect [OF g ok t size eff e(2), of "now w'"] w'(2,3) v m by auto
  have none: "tasks w u \<noteq> Has_Ref" "tasks w u \<noteq> Has_Excl" for u
  proof -
    have "readers l = {}" using glue_readers(1,3) [OF g] zero v m by simp
    then show "tasks w u \<noteq> Has_Ref" using g by (auto simp: glue_def)
    show "tasks w u \<noteq> Has_Excl" using relaxed_excl(2) [OF inv ok, of u t] blk p(1) by auto
  qed
  have all: "i \<in> carries (latest (words w))" if "i < length (uses w)" for i
    using vw that none by (auto simp: viewed_def)
  have "\<not> races w' u" for u
    using all none by (cases "u = t") (auto simp: races_def w' m)
  then have "viewed w'" using all by (auto simp: viewed_def w')
  moreover have "chained w'"
    unfolding chained_def
  proof (intro conjI allI impI)
    show "wf_chains (words w')" using wf by (simp add: w'(2))
    show "\<And>c. Suc c < length (words w') \<Longrightarrow> content (last (words w' ! c)) = word_state 0 True"
      using ch by (simp add: chained_def w'(2))
    fix u
    show "Suc (fst (known w' u)) = length (words w')" if "tasks w' u = Has_Ref \<or> blocking (tasks w' u)"
      using that ch last(1) by (cases "u = t") (auto simp: chained_def w')
    fix j assume j: "blocking (tasks w' u)" "snd (known w' u) \<le> j" "j < length (last (words w'))"
      "refs_of (content (last (words w') ! j)) = 0"
    with ch blk last(2) show "Suc j = length (last (words w'))"
      by (cases "u = t") (auto simp: chained_def w')
  qed
  moreover have "\<forall>u. clean (tasks w' u)" using cl exc by (simp add: w'(3))
  ultimately show ?thesis using l' by (auto simp: relaxed_glue_def)
qed

text \<open>An exchange that succeeds, and the \<open>fetch_sub\<close>, are at the end of the last chain.\<close>

lemma update_latest:
  assumes ch: "chained w" and q: "readable (words w) (known w t) q" "at_end (words w) q"
    and e: "e \<in> {Enters, Leaves, Blocks}" "has_effect pr e (content (message_at (words w) q)) v (tasks w t) p"
  shows "Suc (fst q) = length (words w)" "message_at (words w) q = latest (words w)"
proof -
  have wf: "wf_chains (words w)" using ch by (simp add: chained_def)
  show L: "Suc (fst q) = length (words w)"
  proof (rule ccontr)
    assume "Suc (fst q) \<noteq> length (words w)"
    with q(1) have c: "Suc (fst q) < length (words w)" by (simp add: readable_def)
    then have "words w ! fst q \<noteq> []" using wf by (auto simp: wf_chains_def)
    from message_last [OF this q(2)] ch c have "content (message_at (words w) q) = word_state 0 True"
      by (simp add: chained_def)
    then have "is_blk (content (message_at (words w) q))" by (simp add: is_blk_word_state MAX_REFS_def)
    with e block_write_parts have "e = Leaves" by (auto simp: incr_write_def is_blk_word_state)
    with e(2) ch q(1) c show False by (auto simp: chained_def readable_def not_before_def)
  qed
  show "message_at (words w) q = latest (words w)" by (rule message_latest [OF wf L q(2)])
qed

text \<open>What the end of the modification order looks like after it.\<close>

lemma update_words:
  assumes "chained w" "Suc (fst q) = length (words w)" "words w' = append_to (fst q) m (words w)"
  shows "latest (words w') = m" "last (words w') = last (words w) @ [m]" "length (words w') = length (words w)"
    "wf_chains (words w')" "Suc c < length (words w) \<Longrightarrow> words w' ! c = words w ! c"
proof -
  have wf: "wf_chains (words w)" using assms(1) by (simp add: chained_def)
  have "fst q = length (words w) - 1" using assms(2) by simp
  with latest_append [OF wf] last_chain_append [OF wf] assms(3) show "latest (words w') = m"
    "last (words w') = last (words w) @ [m]" "length (words w') = length (words w)" "wf_chains (words w')"
    "Suc c < length (words w) \<Longrightarrow> words w' ! c = words w ! c"
    by (simp_all add: append_to_def)
qed

lemma update_chained:
  assumes ch: "chained w" and L: "Suc (fst q) = length (words w)" and q: "at_end (words w) q"
    and w': "words w' = append_to (fst q) m (words w)" "tasks w' = (tasks w)(t := p)" "known w' = (known w)(t := (fst q, Suc (snd q)))"
    and busy: "\<And>u. blocking (tasks w u) \<Longrightarrow> u \<noteq> t \<Longrightarrow> refs_of (content (latest (words w))) \<noteq> 0"
  shows "chained w'"
proof -
  note now' = update_words [OF ch L w'(1)]
  have wf: "wf_chains (words w)" using ch by (simp add: chained_def)
  have end_q: "Suc (snd q) = length (last (words w))" using q last_chain [OF wf L] by (simp add: at_end_def)
  have "Suc j = length (last (words w'))"
    if j: "blocking (tasks w' u)" "snd (known w' u) \<le> j" "j < length (last (words w'))"
      "refs_of (content (last (words w') ! j)) = 0" for u j
  proof (rule ccontr)
    assume "Suc j \<noteq> length (last (words w'))"
    with j(3) have jl: "j < length (last (words w))" by (simp add: now'(2))
    with j(4) have zero: "refs_of (content (last (words w) ! j)) = 0" by (simp add: now'(2) nth_append)
    have u: "u \<noteq> t" using j(2) jl end_q by (auto simp: w'(3))
    with j(1,2) have blk: "blocking (tasks w u)" "snd (known w u) \<le> j" by (simp_all add: w'(2,3))
    with ch jl zero have "Suc j = length (last (words w))" by (auto simp: chained_def)
    with end_q have "last (words w) ! j = latest (words w)"
      using wf by (metis diff_Suc_1 last_conv_nth latest_def list.size(3) nat.distinct(1))
    with busy [OF blk(1) u] zero show False by simp
  qed
  moreover have "Suc (fst (known w' u)) = length (words w)" if "tasks w' u = Has_Ref \<or> blocking (tasks w' u)" for u
    using that ch L by (cases "u = t") (auto simp: chained_def w'(2,3))
  ultimately show ?thesis using ch now'(3-5) by (simp add: chained_def)
qed

lemma update_viewed:
  assumes vw: "viewed w" and no_excl: "\<And>u. tasks w u \<noteq> Has_Excl" and e: "p \<noteq> Has_Excl"
    "p = Has_Ref \<Longrightarrow> carries (latest (words w)) \<subseteq> seen"
    "tasks w t = Has_Ref \<Longrightarrow> sees w t \<subseteq> carries m"
    and w': "uses w' = uses w" "latest (words w') = m" "carries (latest (words w)) \<subseteq> carries m"
      "tasks w' = (tasks w)(t := p)" "sees w' = (sees w)(t := seen)"
  shows "viewed w'"
proof -
  have written: "i \<in> carries (latest (words w))" if "i < length (uses w)" "snd (uses w ! i)" for i
    using vw that no_excl by (auto simp: viewed_def)
  have race: "\<not> races w' u" for u
    using vw written e(1,2) no_excl by (cases "u = t") (auto simp: viewed_def races_def w')
  have known: "i \<in> carries m \<or> (\<exists>u. tasks w' u \<in> {Has_Ref, Has_Excl} \<and> i \<in> sees w' u)" if i: "i < length (uses w)" for i
  proof -
    from vw no_excl i consider "i \<in> carries (latest (words w))" | u where "tasks w u = Has_Ref" "i \<in> sees w u"
      by (auto simp: viewed_def)
    then show ?thesis
    proof cases
      case (2 u)
      with e(3) show ?thesis by (cases "u = t") (auto simp: w'(4,5))
    qed (use w'(3) in blast)
  qed
  show ?thesis
    using race known written w'(3) by (auto simp: viewed_def w'(1,2))
qed

lemma relaxed_update_step:
  assumes inv: "relaxed_glue pr M w l" and ok: "lock_ok l" and t: "t < M" and size: "pr = Debug \<or> M \<le> MAX_REFS"
    and q: "readable (words w) (known w t) q" "at_end (words w) q" and m: "m = message_at (words w) q"
    and e: "e \<in> {Enters, Leaves, Blocks}" "has_effect pr e (content m) v (tasks w t) p" "wf_point pr p" "clean p"
    and seen: "sees w t \<subseteq> seen" "e = Enters \<Longrightarrow> carries m \<subseteq> seen" and rel: "e = Leaves \<Longrightarrow> seen \<subseteq> rel"
    and w': "uses w' = uses w" "words w' = append_to (fst q) \<lparr>content = v, carries = carries m \<union> rel\<rparr> (words w)"
      "tasks w' = (tasks w)(t := p)" "known w' = (known w)(t := (fst q, Suc (snd q)))" "sees w' = (sees w)(t := seen)"
  shows "\<exists>l'. lock_step\<^sup>*\<^sup>* l l' \<and> relaxed_glue pr M w' l'"
proof -
  have ch: "chained w" and vw: "viewed w" and g: "glue pr M (now w) l" and cl: "\<forall>u. clean (tasks w u)"
    using inv by (auto simp: relaxed_glue_def)
  note L = update_latest [OF ch q e(1) e(2) [unfolded m]]
  note now' = update_words [OF ch L(1) w'(2)]
  have eff: "has_effect pr e (count_word (now w)) v (points (now w) t) p" using e(2) L(2) m by simp
  obtain l' where l': "lock_step\<^sup>*\<^sup>* l l'" "glue pr M (now w') l'"
    using glue_effect [OF g ok t size eff e(3), of "now w'"] w'(3) now'(1) e(1) by auto
  have open_word: "\<not> is_blk (content (latest (words w)))" if "e \<noteq> Leaves"
    using e(1,2) that block_write_parts L(2) m by (auto simp: incr_write_def is_blk_word_state)
  have leaver: "refs_of (content (latest (words w))) \<noteq> 0" "tasks w t = Has_Ref" if "e = Leaves"
  proof -
    show "tasks w t = Has_Ref" using e(2) that by simp
    with glue_readers(2) [OF g, of t] glue_readers(1,3) [OF g] show "refs_of (content (latest (words w))) \<noteq> 0" by auto
  qed
  have no_excl: "tasks w u \<noteq> Has_Excl" for u
  proof
    assume u: "tasks w u = Has_Excl"
    note x = relaxed_excl [OF inv ok u]
    with open_word leaver show False by (cases "e = Leaves") (auto simp: is_blk_word_state MAX_REFS_def)
  qed
  have "chained w'"
    by (rule update_chained [OF ch L(1) q(2) w'(2-4)]) (use relaxed_blocked [OF inv ok] open_word leaver(1) in blast)
  moreover have "viewed w'"
    by (rule update_viewed [OF vw no_excl _ _ _ w'(1) now'(1) _ w'(3,5)]) (use e(1,2) seen rel L(2) m in auto)
  moreover have "\<forall>u. clean (tasks w' u)" using cl e(4) by (simp add: w'(3))
  ultimately show ?thesis using l' by (auto simp: relaxed_glue_def)
qed

text \<open>The store of \<open>unblock_refs\<close>, in a waiting run that of an exclusive reference, starts a new last chain.\<close>

lemma relaxed_store_step:
  assumes inv: "relaxed_glue pr M w l" and ok: "lock_ok l" and t: "t < M" and size: "pr = Debug \<or> M \<le> MAX_REFS"
    and x: "tasks w t = Has_Excl" and c: "fst (known w t) < c" "c \<le> length (words w)"
  shows "\<exists>l'. lock_step\<^sup>*\<^sup>* l l' \<and> relaxed_glue pr M (store_count pr c t w) l'"
proof -
  have ch: "chained w" and vw: "viewed w" and g: "glue pr M (now w) l" and cl: "\<forall>u. clean (tasks w u)"
    using inv by (auto simp: relaxed_glue_def)
  note alone = relaxed_excl [OF inv ok x]
  have wf: "wf_chains (words w)" using ch by (simp add: chained_def)
  have "Suc (fst (known w t)) = length (words w)" using ch x by (auto simp: chained_def)
  with c have c: "c = length (words w)" by simp
  let ?w = "store_count pr c t w" and ?m = "\<lparr>content = REF_ALLOWED, carries = sees w t\<rparr>"
  have w': "words ?w = words w @ [[?m]]" "tasks ?w = (tasks w)(t := First_Pop)" "uses ?w = uses w" "sees ?w = sees w"
    by (simp_all add: store_count_def x at_word released_def code_orders c insert_at_end split: prod.split)
  have now': "latest (words ?w) = ?m" by (simp add: w'(1) latest_def)
  have eff: "has_effect pr Unblocks (count_word (now w)) REF_ALLOWED (points (now w) t) First_Pop" using x by simp
  have "refs_of (count_word (now w)) = 0" by (simp add: alone(3) refs_of_word_state MAX_REFS_def)
  then obtain l' where l': "lock_step\<^sup>*\<^sup>* l l'" "glue pr M (now ?w) l'"
    using glue_effect [OF g ok t size eff, of "now ?w"] w'(2) now' by auto
  have rest: "tasks ?w u \<noteq> Has_Ref" "\<not> blocking (tasks ?w u)" "tasks ?w u \<noteq> Has_Excl" for u
  proof -
    show "tasks ?w u \<noteq> Has_Ref" "\<not> blocking (tasks ?w u)" using alone(1,2) [of u] by (auto simp: w'(2))
    then show "tasks ?w u \<noteq> Has_Excl" by auto
  qed
  have all: "i \<in> sees w t" if "i < length (uses w)" for i
    using vw that x by (auto simp: viewed_def races_def)
  have "content (last (words w ! j)) = word_state 0 True" if j: "j < length (words w)" for j
  proof (cases "Suc j = length (words w)")
    case True
    with last_chain [OF wf, of "(j, 0)"] alone(3) show ?thesis by (simp add: latest_def)
  qed (use ch j in \<open>simp add: chained_def\<close>)
  then have "chained ?w"
    using wf rest by (simp add: chained_def w'(1) wf_chains_def nth_append)
  moreover have "viewed ?w" using rest all by (auto simp: viewed_def races_def w'(3) now')
  moreover have "\<forall>u. clean (tasks ?w u)" using cl by (simp add: w'(2))
  ultimately show ?thesis using l' by (auto simp: relaxed_glue_def)
qed

lemma relaxed_use_step:
  assumes inv: "relaxed_glue pr M w l" and ok: "lock_ok l" and use: "tasks w t \<in> {Has_Ref, Has_Excl}"
    and w': "w' = w\<lparr>uses := uses w @ [(t, tasks w t = Has_Excl)], sees := (sees w)(t := insert (length (uses w)) (sees w t))\<rparr>"
  shows "relaxed_glue pr M w' l"
proof -
  have vw: "viewed w" using inv by (simp add: relaxed_glue_def)
  have alone: "u = t" if "tasks w u = Has_Excl \<or> tasks w t = Has_Excl \<and> tasks w u = Has_Ref" for u
    using relaxed_excl(1,2) [OF inv ok, of u t] relaxed_excl(1,2) [OF inv ok, of t u] use that by auto
  have "\<not> races w' u" for u
    using vw alone [of u] by (auto simp: viewed_def races_def w' nth_append less_Suc_eq split: if_splits)
  moreover have "i \<in> carries (latest (words w)) \<or> (\<exists>u. tasks w u \<in> {Has_Ref, Has_Excl} \<and> i \<in> sees w' u)" if "i < length (uses w')" for i
  proof (cases "i < length (uses w)")
    case True
    then have "i \<in> carries (latest (words w)) \<or> (\<exists>u. tasks w u \<in> {Has_Ref, Has_Excl} \<and> i \<in> sees w u)"
      using vw by (auto simp: viewed_def)
    moreover have "sees w u \<subseteq> sees w' u" for u by (auto simp: w')
    ultimately show ?thesis by blast
  next
    case False
    with that use show ?thesis by (auto simp: w' less_Suc_eq intro!: exI [of _ t])
  qed
  moreover have "snd (uses w' ! i) \<longrightarrow> i \<in> carries (latest (words w)) \<or> (\<exists>u. tasks w u = Has_Excl)" if "i < length (uses w')" for i
    using that vw by (cases "i < length (uses w)") (auto simp: w' viewed_def nth_append less_Suc_eq)
  ultimately have "viewed w'" unfolding viewed_def by (simp add: w')
  with inv show ?thesis by (auto simp: relaxed_glue_def w' chained_def now_def)
qed

text \<open>A step that is no access to the count, in whatever surroundings.\<close>

lemma other_role:
  assumes step: "task_step pr N (t, c) v = Some v'" and no: "\<not> (at_count (points v t) \<and> (case c of Go _ \<Rightarrow> True | _ \<Rightarrow> False))"
    and wf: "wf_point pr (points v t)"
  obtains p where "points v' = (points v)(t := p)" "wf_point pr p" "points v t \<notin> {Has_Ref, Has_Excl}" "p \<notin> {Has_Ref, Has_Excl}"
    "same_role (points v t) p \<or> (\<exists>a. points v t = Parked a) \<and> p = Idle"
proof (cases c)
  case (Go sp)
  with step no have "go pr N sp t v = Some v'" "\<not> at_count (points v t)" by (auto simp: task_step_def)
  from go_frame [OF this wf] that show thesis by (auto simp: same_role_def)
next
  case (Call opn)
  with step that [of "start_call opn"] start_call_role [where opn = opn] show thesis
    by (auto simp: task_step_def same_role_def split: if_splits)
next
  case Poll
  then obtain a where "points v t = Parked a" "points v' = (points v)(t := start_poll a)"
    using step by (auto simp: task_step_def split: point.splits if_splits)
  with that start_poll_role [where a = a] show thesis by (auto simp: same_role_def)
next
  case Poll_Anyway
  then obtain a where "points v t = Parked a" "points v' = (points v)(t := start_poll a)"
    using step by (auto simp: task_step_def split: point.splits)
  with that start_poll_role [where a = a] show thesis by (auto simp: same_role_def)
next
  case Cancel
  with step that [of Idle] show thesis by (auto simp: task_step_def split: point.splits)
qed

lemma relaxed_other_step:
  assumes inv: "relaxed_glue pr M w l" and t: "t < M"
    and step: "task_step pr N (t, c) (v\<lparr>points := tasks w\<rparr>) = Some v'" and calls: "\<And>opn. c = Call opn \<Longrightarrow> \<not> wiping_call opn"
    and no: "\<not> (at_count (tasks w t) \<and> (case c of Go _ \<Rightarrow> True | _ \<Rightarrow> False))"
  shows "\<exists>l'. lock_step\<^sup>*\<^sup>* l l' \<and> relaxed_glue pr M (w\<lparr>tasks := points v'\<rparr>) l'"
proof -
  have g: "glue pr M (now w) l" and cl: "\<forall>u. clean (tasks w u)" using inv by (auto simp: relaxed_glue_def)
  then have wf: "wf_point pr (tasks w t)" by (simp add: glue_def)
  obtain p where p: "points v' = (tasks w)(t := p)" "wf_point pr p" "tasks w t \<notin> {Has_Ref, Has_Excl}" "p \<notin> {Has_Ref, Has_Excl}"
    "same_role (tasks w t) p \<or> (\<exists>a. tasks w t = Parked a) \<and> p = Idle"
    by (rule other_role [OF step]) (use no wf in auto)
  have "waiting_step pr N M (v\<lparr>points := tasks w\<rparr>) v'" using t step calls by (rule waiting_step.waits)
  from clean_step [OF _ this] cl p(1) have "clean p" by (auto dest!: spec [of _ t])
  have "\<exists>l'. lock_step\<^sup>*\<^sup>* l l' \<and> glue pr M (now (w\<lparr>tasks := points v'\<rparr>)) l'"
    using p(5)
  proof (elim disjE exE conjE)
    assume "same_role (tasks w t) p"
    with glue_frame [OF g, of "now (w\<lparr>tasks := points v'\<rparr>)" t p] p(1,2) show ?thesis by auto
  next
    fix a assume a: "tasks w t = Parked a" "p = Idle"
    from glue_cancel [OF g, of t a] a(1) obtain l' where "lock_step\<^sup>*\<^sup>* l l'" "glue pr M (moved t Idle (set_flag t None (now w))) l'"
      by auto
    with glue_same [OF this(2), of "now (w\<lparr>tasks := points v'\<rparr>)"] p(1) a(2) show ?thesis by auto
  qed
  then obtain l' where l': "lock_step\<^sup>*\<^sup>* l l'" "glue pr M (now (w\<lparr>tasks := points v'\<rparr>)) l'" by blast
  have "relaxed_glue pr M (w\<lparr>tasks := points v'\<rparr>) l'"
    by (rule relaxed_role_step [OF inv l'(2), of t p]) (use p \<open>clean p\<close> in \<open>auto simp: same_role_def\<close>)
  with l'(1) show ?thesis by blast
qed

section \<open>The simulation\<close>

lemma enters_by_exchange:
  assumes "access pr p (at_word v s) = (p', c)" "has_effect pr Enters v (cval c) p p'" "at_count p"
  shows "acquires (order_at p)"
  using assms
  by (cases p) (auto simp: code_orders quiesced_def block_done_def block_failed_def Let_def
      split: if_splits sum.splits prod.splits attempt.splits nat.splits caller.splits operation.splits)

lemma relaxed_glue_step:
  assumes inv: "relaxed_glue pr M w l" and ok: "lock_ok l" and cnt: "countable pr M" and step: "relaxed_waiting pr N M w w'"
  shows "\<exists>l'. lock_step\<^sup>*\<^sup>* l l' \<and> relaxed_glue pr M w' l'"
proof -
  obtain t ch where t: "t < M" "relaxed_waits ch" and task: "relaxed_task pr N (t, ch) w = Some w'"
    using step by (auto elim: relaxed_waiting.cases)
  have size: "pr = Debug \<or> M \<le> MAX_REFS" using cnt by (simp add: countable_def)
  have wf: "wf_point pr (tasks w t)" and cl: "clean (tasks w t)" using inv by (auto simp: relaxed_glue_def glue_def)
  show ?thesis
  proof (cases ch)
    case Use
    with task relaxed_use_step [OF inv ok, of t w'] show ?thesis
      by (auto simp: relaxed_task_def split: if_splits)
  next
    case (Other v c)
    with task obtain v' where "task_step pr N (t, c) (v\<lparr>points := tasks w\<rparr>) = Some v'" "w' = w\<lparr>tasks := points v'\<rparr>"
      "\<not> (at_count (tasks w t) \<and> (case c of Go _ \<Rightarrow> True | _ \<Rightarrow> False))"
      by (auto simp: relaxed_task_def split: if_splits)
    moreover have "c = Call opn \<Longrightarrow> \<not> wiping_call opn" for opn using t(2) Other by (simp add: relaxed_waits_def)
    ultimately show ?thesis using relaxed_other_step [OF inv t(1)] by blast
  next
    case (Count q sp)
    then have at: "at_count (tasks w t)" using task by (auto simp: relaxed_task_def split: if_splits)
    show ?thesis
    proof (cases "storing (tasks w t)")
      case True
      with cl have "tasks w t = Has_Excl" by (auto simp: storing_def)
      with relaxed_store_step [OF inv ok t(1) size this] task Count True show ?thesis
        by (auto simp: relaxed_task_def split: if_splits)
    next
      case False
      with task Count have read: "readable (words w) (known w t) q" "read_count pr q sp t w = Some w'"
        by (auto simp: relaxed_task_def split: if_splits)
      let ?m = "message_at (words w) q"
      obtain p c where acc: "access pr (tasks w t) (at_word (content ?m) sp) = (p, c)" by fastforce
      have clp: "clean p" by (rule clean_access [OF acc cl])
      have silent: "words w' = words w" "uses w' = uses w" "tasks w' = (tasks w)(t := p)" "known w' = (known w)(t := q)"
        "sees w' = (sees w)(t := sees w t \<union> (if acquires (order_at (tasks w t)) then carries ?m else {}))" if "cown c = []"
        using read(2) acc that by (auto simp: read_count_def Let_def)
      from acc at wf show ?thesis
      proof (cases rule: access_writes)
        case 1
        note w' = silent [OF 1(1)]
        have role: "same_role (tasks w t) p" using 1(3) by simp
        have "glue pr M (now w') l"
          by (rule glue_frame [of pr M "now w" l _ t p]) (use inv role 1(4) in \<open>simp_all add: relaxed_glue_def w'\<close>)
        then have "relaxed_glue pr M w' l"
          by (rule relaxed_role_step [OF inv, of _ _ t p]) (use role clp read(1) in \<open>auto simp: w' same_role_def\<close>)
        then show ?thesis by blast
      next
        case 2
        have "tasks w t \<notin> {Has_Ref, Has_Excl}" using 2(3) False by (auto simp: storing_def)
        moreover have "acquires (order_at (tasks w t))"
          using 2(3) at False by (cases "tasks w t") (auto simp: code_orders storing_def)
        ultimately show ?thesis
          using relaxed_grant_step [OF inv ok t(1) size read(1) refl 2(3,4) _ at] silent [OF 2(1)] by simp
      next
        case (3 e)
        let ?seen = "sees w t \<union> (if acquires (order_at (tasks w t)) then carries ?m else {})"
        let ?rel = "released (tasks w t) ?seen"
        have w': "at_end (words w) q" "uses w' = uses w" "tasks w' = (tasks w)(t := p)"
          "words w' = append_to (fst q) \<lparr>content = cval c, carries = carries ?m \<union> ?rel\<rparr> (words w)"
          "known w' = (known w)(t := (fst q, Suc (snd q)))" "sees w' = (sees w)(t := ?seen)"
          using read(2) acc 3(1) by (auto simp: read_count_def Let_def split: if_splits)
        have e: "e \<in> {Enters, Leaves, Blocks}" using 3(2,3) False by (auto simp: storing_def)
        have "?seen \<subseteq> ?rel" if "e = Leaves" using 3(3) that by (auto simp: released_def code_orders)
        moreover have "carries ?m \<subseteq> ?seen" if "e = Enters"
          using enters_by_exchange [OF acc _ at] 3(3) that by simp
        ultimately show ?thesis
          using relaxed_update_step [OF inv ok t(1) size read(1) w'(1) refl e 3(3,4) clp _ _ _ w'(2,4,3,5,6)] by blast
      qed
    qed
  qed
qed

definition relaxed_counted :: "profile \<Rightarrow> nat \<Rightarrow> nat \<Rightarrow> relaxed \<Rightarrow> relaxed \<Rightarrow> bool" where
  "relaxed_counted pr N M w w' \<longleftrightarrow> relaxed_waiting pr N M w w' \<and> countable pr M"

interpretation relaxed_count: safe_simulation lock_init lock_step lock_ok relaxed_init "relaxed_counted pr N M" "relaxed_glue pr M"
proof unfold_locales
  fix w assume w: "relaxed_init w"
  then obtain l where l: "lock_init l" "glue pr M (now w) l"
    using glue_fresh [of "now w" pr M]
    by (auto simp: relaxed_init_def relaxed_start_def now_def fresh_def all_idle_def latest_def)
  with w show "\<exists>l. lock_init l \<and> relaxed_glue pr M w l"
    by (auto simp: relaxed_glue_def relaxed_init_def relaxed_start_def chained_def wf_chains_def viewed_def races_def)
next
  fix w l w' assume "relaxed_glue pr M w l" "lock_ok l" "relaxed_counted pr N M w w'"
  then show "\<exists>l'. lock_step\<^sup>*\<^sup>* l l' \<and> relaxed_glue pr M w' l'"
    using relaxed_glue_step by (auto simp: relaxed_counted_def)
qed

section \<open>Properties\<close>

text \<open>C8: with the memory orderings of the code the count is enough to guard data: in every execution of the waiting
  operations by any number of tasks, loads of old words and weak exchanges that fail included, an exclusive reference
  excludes every other reference, and no use of the data by who has a reference, or writing use by who has the exclusive one, is a data
  race: every conflicting use happens before it by the release and acquire accesses to the count alone.\<close>

theorem guarded_data_never_races:
  assumes "reachable relaxed_init (relaxed_waiting pr N M) w" "countable pr M"
  shows "{t. races w t} = {} \<and> (\<forall>t u. tasks w t = Has_Excl \<and> tasks w u \<in> {Has_Ref, Has_Excl} \<longrightarrow> u = t)"
proof -
  have "reachable relaxed_init (relaxed_counted pr N M) w"
    using reachable_mono [OF assms(1)] assms(2) by (auto simp: relaxed_counted_def)
  then obtain l where l: "lock_ok l" "relaxed_glue pr M w l" using relaxed_count.safe_reachable by blast
  have "\<not> races w t" for t using l(2) by (simp add: relaxed_glue_def viewed_def)
  moreover have "u = t" if "tasks w t = Has_Excl" "tasks w u \<in> {Has_Ref, Has_Excl}" for t u
    using relaxed_excl(1,2) [OF l(2,1) that(1), of u] that(2) by auto
  ultimately show ?thesis by blast
qed

section \<open>Executions\<close>

lemma relaxed_schedule:
  assumes "map_option f (schedule task ds relaxed_start) = Some x"
    and "\<And>d w w'. d \<in> set ds \<Longrightarrow> task d w = Some w' \<Longrightarrow> stp w w'"
  obtains w where "reachable relaxed_init stp w" "f w = x"
proof -
  from assms(1) obtain w where w: "schedule task ds relaxed_start = Some w" "f w = x" by auto
  have "stp\<^sup>*\<^sup>* relaxed_start w" by (rule schedule_steps [OF w(1)]) (rule assms(2))
  moreover have "reachable relaxed_init stp relaxed_start" by (rule reachable.start) (simp add: relaxed_init_def)
  ultimately show ?thesis using that w(2) reachable_steps by metis
qed

definition relaxed_careful_task :: "profile \<Rightarrow> nat \<Rightarrow> nat \<times> relaxed_choice \<Rightarrow> relaxed \<Rightarrow> relaxed option" where
  "relaxed_careful_task pr N d w = (if relaxed_wipes (fst d) (snd d) w then None else relaxed_task pr N d w)"

definition reads_of :: "nat \<Rightarrow> Memory_Order.place list \<Rightarrow> (nat \<times> relaxed_choice) list" where
  "reads_of t = map (\<lambda>q. (t, Count q False))"

definition calls :: "nat \<Rightarrow> operation \<Rightarrow> nat \<times> relaxed_choice" where
  "calls t opn = (t, Other all_idle (Call opn))"

text \<open>
  Task 0 reads the data and drops its reference while task 1, which has set the block, still finds the old count five
  times and gives up; then task 2 gets the exclusive reference.
\<close>

definition gives_up :: "(nat \<times> relaxed_choice) list" where
  "gives_up =
     calls 0 Op_try_get_ref # reads_of 0 [(0, 0), (0, 0)] @ [(0, Use)] @
     calls 1 Op_try_get_exclusive_ref # reads_of 1 [(0, 1), (0, 1), (0, 2), (0, 2), (0, 2), (0, 2), (0, 2)] @
     reads_of 0 [(0, 2)] @ reads_of 1 [(1, 0)] @
     calls 2 Op_try_get_exclusive_ref # reads_of 2 [(1, 0), (1, 0), (1, 1)]"

text \<open>The waiting writer finds the old count, too, and gets the exclusive reference when it finds the last one.\<close>

definition waits_for_it :: "(nat \<times> relaxed_choice) list" where
  "waits_for_it =
     calls 0 Op_try_get_ref # reads_of 0 [(0, 0), (0, 0)] @ [(0, Use)] @
     calls 1 Op_blocking_get_exclusive_ref # reads_of 1 [(0, 0)] @ [(1, Count (0, 1) True)] @ reads_of 1 [(0, 1), (0, 2)] @
     reads_of 0 [(0, 2)] @ reads_of 1 [(0, 2), (0, 3)] @ [(1, Use)]"

theorem guarded_data_never_races_witness:
  "\<exists>w. tasks w 1 = Has_Excl \<and> uses w = [(0, False), (1, True)] \<and> {t. races w t} = {}"
proof -
  have run: "map_option (\<lambda>w. (tasks w 1, uses w)) (schedule (relaxed_task Debug 1) waits_for_it relaxed_start) =
      Some (Has_Excl, [(0, False), (1, True)])"
    by code_simp
  have few: "\<forall>d \<in> set waits_for_it. fst d < 2 \<and> relaxed_waits (snd d)" by code_simp
  obtain w where w: "reachable relaxed_init (relaxed_waiting Debug 1 2) w" "(tasks w 1, uses w) = (Has_Excl, [(0, False), (1, True)])"
    by (rule relaxed_schedule [OF run, where stp = "relaxed_waiting Debug 1 2"]) (use few in \<open>force intro: relaxed_waiting.waits\<close>)
  from guarded_data_never_races [OF w(1)] w(2) show ?thesis by (auto simp: countable_def)
qed

text \<open>C15: when try_get_exclusive_ref gives up, its store of the unblocked word takes what the references that were dropped
  in the meantime have released out of reach, although it wipes none of them: the next exclusive reference, granted rightly,
  races with their reads (a bug of the code, and undefined behaviour of a client that only calls safe functions).\<close>

theorem give_up_hides_reads:
  "\<exists>w. reachable relaxed_init (relaxed_careful Debug 1 3) w \<and> map (tasks w) [0, 1, 2] = [Idle, First_Pop, Has_Excl] \<and>
     uses w = [(0, False)] \<and> races w 2"
proof -
  have run: "map_option (\<lambda>w. (map (tasks w) [0, 1, 2], uses w, races w 2))
      (schedule (relaxed_careful_task Debug 1) gives_up relaxed_start) = Some ([Idle, First_Pop, Has_Excl], [(0, False)], True)"
    by code_simp
  have few: "\<forall>d \<in> set gives_up. fst d < 3" by code_simp
  obtain w where "reachable relaxed_init (relaxed_careful Debug 1 3) w"
    "(map (tasks w) [0, 1, 2], uses w, races w 2) = ([Idle, First_Pop, Has_Excl], [(0, False)], True)"
    by (rule relaxed_schedule [OF run, where stp = "relaxed_careful Debug 1 3"])
      (use few in \<open>force intro: relaxed_careful.careful simp: relaxed_careful_task_def split: if_splits\<close>)
  then show ?thesis by (intro exI [of _ w]) simp
qed

end
