(* ===== verification/Queue_Orderings.thy ===== *)
theory Queue_Orderings
  imports Queue_Linearizable Memory_Order
begin

text \<open>
  The interleaved queue of \<open>Queue_Threads\<close> with the memory orderings that the code gives its accesses. The
  head, the tail and the stamps have modification orders of messages (\<open>Memory_Order\<close>): a load may find an old word, an exchange
  is at the end of a chain, a store may go before others that its thread does not know of. The only accesses that make anything
  happen before anything else are the loads and the stores of the stamps; that the exchanges on the ends are sequentially consistent
  is used for the fences alone, after which a thread knows every write to the ends so far. The values are plain memory,
  and it is a data race if an access to one does not happen after every earlier one to it.
\<close>

section \<open>The orderings of the code\<close>

definition stamp_load_order :: ordering where "stamp_load_order = Acquire"

definition stamp_store_order :: ordering where "stamp_store_order = Release_Order"

definition end_write_order :: ordering where "end_write_order = SeqCst"

definition fence_order :: ordering where "fence_order = SeqCst"

lemmas queue_orders = stamp_load_order_def stamp_store_order_def end_write_order_def fence_order_def acquires_def releases_def

section \<open>The state\<close>

record 'a weak_queue =
  memory :: "'a array_queue"   \<comment> \<open>the values, and every variable as at the end of its modification order\<close>
  tails :: "usize chains"
  heads :: "usize chains"
  stamps :: "nat \<Rightarrow> usize chains"
  tail_known :: "nat \<Rightarrow> place"
  head_known :: "nat \<Rightarrow> place"
  stamp_known :: "nat \<Rightarrow> nat \<Rightarrow> place"
  touched :: "nat list"        \<comment> \<open>the accesses to values so far: the slots\<close>
  heard :: "nat \<Rightarrow> nat set"    \<comment> \<open>the accesses that happen before the next step of a thread\<close>
  doing :: "nat \<Rightarrow> 'a q_point"
  called :: "'a queue_event list"

definition first_message :: "'v \<Rightarrow> 'v chains" where
  "first_message v = [[\<lparr>content = v, carries = {}\<rparr>]]"

definition weak_start :: "'a array_queue \<Rightarrow> 'a weak_queue" where
  "weak_start q = \<lparr>memory = q, tails = first_message (cval (tail q)), heads = first_message (cval (head q)),
     stamps = (\<lambda>i. first_message (cval (stamp (buffer q ! i)))), tail_known = (\<lambda>_. (0, 0)), head_known = (\<lambda>_. (0, 0)),
     stamp_known = (\<lambda>_ _. (0, 0)), touched = [], heard = (\<lambda>_. {}), doing = (\<lambda>_. Q_Idle), called = []\<rparr>"

definition weak_fresh :: "profile \<Rightarrow> usize \<Rightarrow> 'a weak_queue \<Rightarrow> bool" where
  "weak_fresh pr C w \<longleftrightarrow> (\<exists>q. new_queue pr C = Inr q \<and> w = weak_start q)"

section \<open>The accesses\<close>

datatype variable = The_Tail | The_Head | The_Stamp nat | The_Value nat

fun variable_of :: "'a array_queue \<Rightarrow> 'a q_point \<Rightarrow> variable option" where
  "variable_of q (Push_Load _ _) = Some The_Tail"
| "variable_of q (Push_Stamp _ _ tv _) = Some (The_Stamp (unat (tv AND (one_lap q - 1))))"
| "variable_of q (Push_Cas _ _ _ _ _ _) = Some The_Tail"
| "variable_of q (Push_Write _ _ _ i) = Some (The_Value i)"
| "variable_of q (Push_Publish _ _ i) = Some (The_Stamp i)"
| "variable_of q (Push_Full _ _ _ _ _ _) = Some The_Head"
| "variable_of q (Push_Reload _ _ _) = Some The_Tail"
| "variable_of q (Force_Tail _ _ _ _) = Some The_Tail"
| "variable_of q (Force_Swap _ _ i) = Some (The_Value i)"
| "variable_of q (Force_Publish _ _ i) = Some (The_Stamp i)"
| "variable_of q Pop_Load = Some The_Head"
| "variable_of q (Pop_Stamp h _) = Some (The_Stamp (unat (h AND (one_lap q - 1))))"
| "variable_of q (Pop_Cas _ _ _ _) = Some The_Head"
| "variable_of q (Pop_Read _ i) = Some (The_Value i)"
| "variable_of q (Pop_Publish _ _ i) = Some (The_Stamp i)"
| "variable_of q (Pop_Tail _ _) = Some The_Tail"
| "variable_of q (Pop_Reload _) = Some The_Head"
| "variable_of q _ = None"

text \<open>The points whose access is a plain store; and those that a fence has come before.\<close>

fun plain_store :: "'a q_point \<Rightarrow> bool" where
  "plain_store (Push_Publish _ _ _) = True"
| "plain_store (Force_Tail _ _ _ _) = True"
| "plain_store (Force_Publish _ _ _) = True"
| "plain_store (Pop_Publish _ _ _) = True"
| "plain_store _ = False"

fun after_fence :: "'a q_point \<Rightarrow> bool" where
  "after_fence (Push_Full _ _ _ _ _ _) = True"
| "after_fence (Pop_Tail _ _) = True"
| "after_fence _ = False"

text \<open>A variable as an access finds it; the flag makes a weak exchange fail spuriously.\<close>

definition met :: "'v \<Rightarrow> bool \<Rightarrow> 'v acell" where
  "met v sp = \<lparr>cval = v, cenv = [(None, sp)], cown = []\<rparr>"

definition set_stamp :: "nat \<Rightarrow> usize \<Rightarrow> 'a array_queue \<Rightarrow> 'a array_queue" where
  "set_stamp i v = upd_slot i (\<lambda>s. s\<lparr>stamp := new_cell v\<rparr>)"

text \<open>A load of an end, an exchange that fails, or one that succeeds.\<close>

definition read_tail :: "profile \<Rightarrow> place \<Rightarrow> bool \<Rightarrow> nat \<Rightarrow> 'a weak_queue \<Rightarrow> 'a weak_queue option" where
  "read_tail pr q sp t w =
     (case q_access pr (doing w t) ((memory w)\<lparr>tail := met (content (message_at (tails w) q)) sp\<rparr>) of (p, mem) \<Rightarrow>
        if cown (tail mem) = [] then Some (w\<lparr>tail_known := (tail_known w)(t := q), doing := (doing w)(t := p)\<rparr>)
        else if at_end (tails w) q then
          (let ch = append_to (fst q) \<lparr>content = cval (tail mem), carries = {}\<rparr> (tails w) in
           Some (w\<lparr>memory := (memory w)\<lparr>tail := new_cell (content (latest ch))\<rparr>, tails := ch,
             tail_known := (tail_known w)(t := (fst q, Suc (snd q))), doing := (doing w)(t := p)\<rparr>))
        else None)"

definition read_head :: "profile \<Rightarrow> place \<Rightarrow> bool \<Rightarrow> nat \<Rightarrow> 'a weak_queue \<Rightarrow> 'a weak_queue option" where
  "read_head pr q sp t w =
     (case q_access pr (doing w t) ((memory w)\<lparr>head := met (content (message_at (heads w) q)) sp\<rparr>) of (p, mem) \<Rightarrow>
        if cown (head mem) = [] then Some (w\<lparr>head_known := (head_known w)(t := q), doing := (doing w)(t := p)\<rparr>)
        else if at_end (heads w) q then
          (let ch = append_to (fst q) \<lparr>content = cval (head mem), carries = {}\<rparr> (heads w) in
           Some (w\<lparr>memory := (memory w)\<lparr>head := new_cell (content (latest ch))\<rparr>, heads := ch,
             head_known := (head_known w)(t := (fst q, Suc (snd q))), doing := (doing w)(t := p)\<rparr>))
        else None)"

definition store_tail :: "profile \<Rightarrow> nat \<Rightarrow> nat \<Rightarrow> 'a weak_queue \<Rightarrow> 'a weak_queue" where
  "store_tail pr c t w =
     (case q_access pr (doing w t) (memory w) of (p, mem) \<Rightarrow>
      let ch = insert_chain c \<lparr>content = cval (tail mem), carries = {}\<rparr> (tails w) in
      w\<lparr>memory := (memory w)\<lparr>tail := new_cell (content (latest ch))\<rparr>, tails := ch,
        tail_known := (\<lambda>u. if u = t then (c, 0) else shifted c (tail_known w u)), doing := (doing w)(t := p)\<rparr>)"

text \<open>The load of a stamp, and the fence where the code has one after it.\<close>

definition fence :: "nat \<Rightarrow> 'a weak_queue \<Rightarrow> 'a weak_queue" where
  "fence t w = (if fence_order = SeqCst \<and> end_write_order = SeqCst then
     w\<lparr>tail_known := (tail_known w)(t := newest (tails w)), head_known := (head_known w)(t := newest (heads w))\<rparr> else w)"

definition read_stamp :: "profile \<Rightarrow> nat \<Rightarrow> place \<Rightarrow> nat \<Rightarrow> 'a weak_queue \<Rightarrow> 'a weak_queue" where
  "read_stamp pr i q t w =
     (let m = message_at (stamps w i) q;
          p = fst (q_access pr (doing w t) (set_stamp i (content m) (memory w)));
          w = w\<lparr>stamp_known := (stamp_known w)(t := (stamp_known w t)(i := q)),
                heard := (heard w)(t := heard w t \<union> (if acquires stamp_load_order then carries m else {})),
                doing := (doing w)(t := p)\<rparr> in
      if after_fence p then fence t w else w)"

definition publish_stamp :: "profile \<Rightarrow> nat \<Rightarrow> nat \<Rightarrow> nat \<Rightarrow> 'a weak_queue \<Rightarrow> 'a weak_queue" where
  "publish_stamp pr i c t w =
     (case q_access pr (doing w t) (memory w) of (p, mem) \<Rightarrow>
      let m = \<lparr>content = cval (stamp (buffer mem ! i)), carries = (if releases stamp_store_order then heard w t else {})\<rparr>;
          ch = insert_chain c m (stamps w i) in
      w\<lparr>memory := set_stamp i (content (latest ch)) (memory w), stamps := (stamps w)(i := ch),
        stamp_known := (\<lambda>u. (stamp_known w u)(i := (if u = t then (c, 0) else shifted c (stamp_known w u i)))),
        doing := (doing w)(t := p)\<rparr>)"

definition use_value :: "profile \<Rightarrow> nat \<Rightarrow> nat \<Rightarrow> 'a weak_queue \<Rightarrow> 'a weak_queue" where
  "use_value pr i t w =
     (case q_access pr (doing w t) (memory w) of (p, mem) \<Rightarrow>
      w\<lparr>memory := mem, touched := touched w @ [i], heard := (heard w)(t := insert (length (touched w)) (heard w t)),
        doing := (doing w)(t := p)\<rparr>)"

section \<open>Steps\<close>

datatype 'a weak_choice =
    Calls "'a fifo_op"
  | Gives
  | At place bool   \<comment> \<open>the next access to an atomic variable, what it finds, or where its store goes\<close>
  | On_Value

definition store_place :: "'v chains \<Rightarrow> place \<Rightarrow> place \<Rightarrow> bool" where
  "store_place ch p q \<longleftrightarrow> fst p < fst q \<and> fst q \<le> length ch"

definition weak_atomic :: "profile \<Rightarrow> place \<Rightarrow> bool \<Rightarrow> nat \<Rightarrow> 'a weak_queue \<Rightarrow> 'a weak_queue option" where
  "weak_atomic pr q sp t w = (case variable_of (memory w) (doing w t) of
     Some The_Tail \<Rightarrow>
       (if plain_store (doing w t) then
          (if store_place (tails w) (tail_known w t) q then Some (store_tail pr (fst q) t w) else None)
        else if readable (tails w) (tail_known w t) q then read_tail pr q sp t w else None)
   | Some The_Head \<Rightarrow> (if readable (heads w) (head_known w t) q then read_head pr q sp t w else None)
   | Some (The_Stamp i) \<Rightarrow>
       (if plain_store (doing w t) then
          (if store_place (stamps w i) (stamp_known w t i) q then Some (publish_stamp pr i (fst q) t w) else None)
        else if readable (stamps w i) (stamp_known w t i) q then Some (read_stamp pr i q t w) else None)
   | _ \<Rightarrow> None)"

definition weak_task :: "profile \<Rightarrow> nat \<times> 'a weak_choice \<Rightarrow> 'a weak_queue \<Rightarrow> 'a weak_queue option" where
  "weak_task pr d w = (case d of (t, ch) \<Rightarrow> (case ch of
     Calls opn \<Rightarrow>
       (case doing w t of
          Q_Idle \<Rightarrow> Some (w\<lparr>doing := (doing w)(t := begins opn), called := called w @ [Asks t opn]\<rparr>)
        | _ \<Rightarrow> None)
   | Gives \<Rightarrow>
       (case doing w t of
          Returns a \<Rightarrow> Some (w\<lparr>doing := (doing w)(t := Q_Idle), called := called w @ [Gets t a]\<rparr>)
        | _ \<Rightarrow> None)
   | At q sp \<Rightarrow> weak_atomic pr q sp t w
   | On_Value \<Rightarrow>
       (case variable_of (memory w) (doing w t) of Some (The_Value i) \<Rightarrow> Some (use_value pr i t w) | _ \<Rightarrow> None)))"

inductive weak_step :: "profile \<Rightarrow> 'a weak_queue \<Rightarrow> 'a weak_queue \<Rightarrow> bool" for pr where
  weak_step: "weak_task pr d w = Some w' \<Longrightarrow> weak_step pr w w'"

text \<open>The next access of a thread to a value is a data race.\<close>

definition value_race :: "'a weak_queue \<Rightarrow> nat \<Rightarrow> bool" where
  "value_race w t \<longleftrightarrow> (\<exists>i x. touches (doing w t) = Some i \<and> x < length (touched w) \<and> touched w ! x = i \<and> x \<notin> heard w t)"

definition few_pushes :: "nat \<Rightarrow> 'a weak_queue \<Rightarrow> bool" where
  "few_pushes n w \<longleftrightarrow> messages_in (tails w) + 2 * n < 2 ^ 63"

lemma messages_append: "messages_in (append_to c m ch) = (if c < length ch then Suc (messages_in ch) else messages_in ch)"
proof (cases "c < length ch")
  case True
  then have "append_to c m ch = take c ch @ (ch ! c @ [m]) # drop (Suc c) ch"
    by (simp add: append_to_def upd_conv_take_nth_drop)
  moreover have "messages_in ch = messages_in (take c ch @ ch ! c # drop (Suc c) ch)" using True by (simp flip: id_take_nth_drop)
  ultimately show ?thesis using True by (simp add: messages_in_def)
qed (simp add: append_to_def list_update_beyond not_less)

lemma messages_insert: "messages_in (insert_chain c m ch) = Suc (messages_in ch)"
proof -
  have "messages_in ch = messages_in (take c ch @ drop c ch)" by simp
  then show ?thesis by (simp only: insert_chain_def messages_in_def map_append sum_list.append) simp
qed

lemma messages_on:
  assumes "weak_step pr w w'"
  shows "messages_in (tails w) \<le> messages_in (tails w')"
  using assms
proof cases
  case (weak_step d)
  then show ?thesis
    by (cases d) (auto simp: weak_task_def weak_atomic_def read_tail_def read_head_def store_tail_def read_stamp_def
        publish_stamp_def use_value_def fence_def Let_def messages_append messages_insert
        split: weak_choice.splits q_point.splits option.splits variable.splits if_splits prod.splits)
qed

end
