(* ===== verification/Late_Queue.thy ===== *)
theory Late_Queue
  imports Atomic_Queue
begin

text \<open>
  A queue in which a refusal is judged in hindsight: a \<open>push\<close> may be told that the queue is full, and a \<open>pop\<close> that it is
  empty, if it was so at some moment since the call began. Such a queue is no weaker than the atomic one: a
  refusal changes nothing, so it can take effect at that earlier moment. The proof gives the atomic queue that has
  refused in advance, for every finite set of calls that may be refused.
\<close>

section \<open>The machine\<close>

text \<open>The number of elements at which a call is refused, and its answer.\<close>

fun refusal :: "nat \<Rightarrow> 'a fifo_op \<Rightarrow> (nat \<times> 'a fifo_answer) option" where
  "refusal n (Push v) = Some (n, Pushed (Inl v))"
| "refusal n Pop = Some (0, Popped None)"
| "refusal n (Force_Push v) = None"

record 'a late_queue =
  queue :: "'a atomic_queue"
  lengths :: "nat \<Rightarrow> nat set"   \<comment> \<open>the numbers of elements that a thread's call has been there at\<close>

definition late_init :: "nat \<Rightarrow> 'a late_queue \<Rightarrow> bool" where
  "late_init n l \<longleftrightarrow> idle_queue n (queue l)"

definition with_length :: "nat \<Rightarrow> (nat \<Rightarrow> nat set) \<Rightarrow> nat \<Rightarrow> nat set" where
  "with_length x s = (\<lambda>u. insert x (s u))"

inductive late_step :: "nat \<Rightarrow> 'a late_queue \<Rightarrow> 'a late_queue \<Rightarrow> bool" for n where
  asks: "phases s t = Free \<Longrightarrow>
    late_step n \<lparr>queue = s, lengths = ls\<rparr>
      \<lparr>queue = s\<lparr>phases := (phases s)(t := Asked opn), events := events s @ [Asks t opn]\<rparr>, lengths = ls(t := {length (items s)})\<rparr>"
| takes_effect: "phases s t = Asked opn \<Longrightarrow> fifo_step n opn (items s) = (a, xs) \<Longrightarrow>
    late_step n \<lparr>queue = s, lengths = ls\<rparr>
      \<lparr>queue = s\<lparr>items := xs, phases := (phases s)(t := Answered a), log := l\<rparr>, lengths = with_length (length xs) ls\<rparr>"
| is_refused: "phases s t = Asked opn \<Longrightarrow> refusal n opn = Some (x, a) \<Longrightarrow> x \<in> ls t \<Longrightarrow>
    late_step n \<lparr>queue = s, lengths = ls\<rparr> \<lparr>queue = s\<lparr>phases := (phases s)(t := Answered a)\<rparr>, lengths = ls\<rparr>"
| answers: "phases s t = Answered a \<Longrightarrow>
    late_step n \<lparr>queue = s, lengths = ls\<rparr>
      \<lparr>queue = s\<lparr>phases := (phases s)(t := Free), events := events s @ [Gets t a]\<rparr>, lengths = ls\<rparr>"

lemma refusal_step:
  assumes "refusal n opn = Some (length xs, a)" "0 < n"
  shows "fifo_step n opn xs = (a, xs)"
  using assms by (cases opn) auto

text \<open>The present is always among the moments a call has been there at.\<close>

definition witnessed :: "nat \<Rightarrow> 'a late_queue \<Rightarrow> bool" where
  "witnessed n l \<longleftrightarrow> 0 < n \<and> (\<forall>t opn. phases (queue l) t = Asked opn \<longrightarrow> length (items (queue l)) \<in> lengths l t)"

interpretation late: invariant_system "late_init n" "late_step n" "witnessed n" for n
proof
  show "witnessed n l" if "late_init n l" for l :: "'a late_queue"
    using that by (simp add: witnessed_def late_init_def idle_queue_def)
  show "witnessed n l'" if "witnessed n l" "late_step n l l'" for l l' :: "'a late_queue"
    using that(2,1) by cases (auto simp: witnessed_def with_length_def)
qed

section \<open>Refusing in advance\<close>

definition refusable :: "nat \<Rightarrow> 'a late_queue \<Rightarrow> nat \<Rightarrow> bool" where
  "refusable n l t \<longleftrightarrow> (\<exists>opn x a. phases (queue l) t = Asked opn \<and> refusal n opn = Some (x, a) \<and> x \<in> lengths l t)"

fun refused :: "nat \<Rightarrow> 'a phase \<Rightarrow> 'a phase" where
  "refused n (Asked opn) = (case refusal n opn of Some (x, a) \<Rightarrow> Answered a | None \<Rightarrow> Asked opn)"
| "refused n ph = ph"

definition in_advance :: "nat \<Rightarrow> nat set \<Rightarrow> 'a atomic_queue \<Rightarrow> 'a atomic_queue \<Rightarrow> bool" where
  "in_advance n P s s' \<longleftrightarrow> items s' = items s \<and> events s' = events s \<and>
     phases s' = (\<lambda>t. if t \<in> P then refused n (phases s t) else phases s t)"

text \<open>Calls that may be refused now, because of what the queue holds now, can be.\<close>

lemma refuse_now:
  assumes "finite Q" "0 < n" "reachable (idle_queue n) (atomic_step n) s'" "in_advance n P s s'" "Q \<inter> P = {}"
    and "\<And>t. t \<in> Q \<Longrightarrow> \<exists>opn a. phases s t = Asked opn \<and> refusal n opn = Some (length (items s), a)"
  shows "\<exists>s'. reachable (idle_queue n) (atomic_step n) s' \<and> in_advance n (P \<union> Q) s s'"
  using assms(1,5,6)
proof (induction Q)
  case empty
  with assms(3,4) show ?case by auto
next
  case (insert t Q)
  then obtain s1 where s1: "reachable (idle_queue n) (atomic_step n) s1" "in_advance n (P \<union> Q) s s1" by auto
  obtain opn a where t: "phases s t = Asked opn" "refusal n opn = Some (length (items s), a)"
    using insert.prems(2) [of t] by auto
  have "t \<notin> P \<union> Q" using insert.hyps insert.prems(1) by auto
  with s1(2) t have now: "phases s1 t = Asked opn" "items s1 = items s" by (simp_all add: in_advance_def)
  let ?s = "s1\<lparr>items := items s, phases := (phases s1)(t := Answered a), log := log s1 @ [(t, opn, a)]\<rparr>"
  have "atomic_step n s1 ?s"
    using atomic_step.effect [OF now(1), of n a "items s"] refusal_step [OF t(2) assms(2)] now(2) by simp
  with s1(1) have "reachable (idle_queue n) (atomic_step n) ?s" by (rule reachable.further)
  moreover have "in_advance n (P \<union> insert t Q) s ?s"
    using s1(2) t by (auto simp: in_advance_def fun_eq_iff)
  ultimately show ?case by blast
qed

lemma late_advance_step:
  assumes step: "late_step n l l'" and wit: "witnessed n l" and fin: "finite P" and P: "\<And>t. t \<in> P \<Longrightarrow> refusable n l' t"
    and IH: "\<And>P. finite P \<Longrightarrow> (\<And>t. t \<in> P \<Longrightarrow> refusable n l t) \<Longrightarrow>
      \<exists>s'. reachable (idle_queue n) (atomic_step n) s' \<and> in_advance n P (queue l) s'"
  shows "\<exists>s'. reachable (idle_queue n) (atomic_step n) s' \<and> in_advance n P (queue l') s'"
proof -
  have n: "0 < n" using wit by (simp add: witnessed_def)
  note more = reachable.further [where init = "idle_queue n" and step = "atomic_step n"]
  from step show ?thesis
  proof cases
    case (asks s t ls opn)
    have old: "refusable n l u" if "u \<in> P - {t}" for u
      using P [of u] that by (simp add: refusable_def asks)
    obtain s1 where s1: "reachable (idle_queue n) (atomic_step n) s1" "in_advance n (P - {t}) s s1"
      using IH [of "P - {t}"] fin old asks(1) by auto
    let ?s = "s1\<lparr>phases := (phases s1)(t := Asked opn), events := events s1 @ [Asks t opn]\<rparr>"
    have "phases s1 t = Free" using s1(2) asks(3) by (simp add: in_advance_def)
    with s1(1) have r: "reachable (idle_queue n) (atomic_step n) ?s" by (blast intro: more atomic_step.ask)
    have adv: "in_advance n (P - {t}) (queue l') ?s" using s1(2) by (auto simp: in_advance_def asks(2))
    have "\<exists>s'. reachable (idle_queue n) (atomic_step n) s' \<and> in_advance n ((P - {t}) \<union> (P \<inter> {t})) (queue l') s'"
      by (rule refuse_now [OF _ n r adv]) (use P [of t] in \<open>auto simp: refusable_def asks(2)\<close>)
    moreover have "(P - {t}) \<union> (P \<inter> {t}) = P" by blast
    ultimately show ?thesis by simp
  next
    case (takes_effect s t opn a xs ls lg)
    define Q where "Q = {u \<in> P. refusable n l u}"
    have tP: "t \<notin> P" using P [of t] by (auto simp: refusable_def takes_effect(2))
    obtain s1 where s1: "reachable (idle_queue n) (atomic_step n) s1" "in_advance n Q s s1"
      using IH [of Q] fin by (auto simp: Q_def takes_effect(1))
    have now: "phases s1 t = Asked opn" "items s1 = items s"
      using s1(2) tP takes_effect(3) by (auto simp: in_advance_def Q_def)
    let ?s = "s1\<lparr>items := xs, phases := (phases s1)(t := Answered a), log := log s1 @ [(t, opn, a)]\<rparr>"
    have "atomic_step n s1 ?s" using atomic_step.effect [OF now(1)] takes_effect(4) now(2) by simp
    with s1(1) have r: "reachable (idle_queue n) (atomic_step n) ?s" by (rule more)
    have adv: "in_advance n Q (queue l') ?s" using s1(2) tP by (auto simp: in_advance_def takes_effect(2) Q_def fun_eq_iff)
    have "\<exists>opn b. phases (queue l') u = Asked opn \<and> refusal n opn = Some (length (items (queue l')), b)" if "u \<in> P - Q" for u
      using P [of u] that tP by (fastforce simp: refusable_def Q_def takes_effect(1,2) with_length_def split: if_splits)
    then have "\<exists>s'. reachable (idle_queue n) (atomic_step n) s' \<and> in_advance n (Q \<union> (P - Q)) (queue l') s'"
      by (intro refuse_now [OF _ n r adv]) (use fin in auto)
    moreover have "Q \<union> (P - Q) = P" by (auto simp: Q_def)
    ultimately show ?thesis by simp
  next
    case (is_refused s t opn x a ls)
    have tP: "t \<notin> P" using P [of t] by (auto simp: refusable_def is_refused(2))
    have "refusable n l u" if "u \<in> insert t P" for u
      using P [of u] that is_refused(3-5) by (auto simp: refusable_def is_refused(1,2) split: if_splits)
    then obtain s1 where s1: "reachable (idle_queue n) (atomic_step n) s1" "in_advance n (insert t P) s s1"
      using IH [of "insert t P"] fin is_refused(1) by auto
    then have "in_advance n P (queue l') s1"
      using tP is_refused(3,4) by (auto simp: in_advance_def is_refused(2) fun_eq_iff)
    with s1(1) show ?thesis by blast
  next
    case (answers s t a ls)
    have tP: "t \<notin> P" using P [of t] by (auto simp: refusable_def answers(2))
    have "refusable n l u" if "u \<in> P" for u
      using P [OF that] tP that by (auto simp: refusable_def answers(1,2) split: if_splits)
    then obtain s1 where s1: "reachable (idle_queue n) (atomic_step n) s1" "in_advance n P s s1"
      using IH [of P] fin answers(1) by auto
    let ?s = "s1\<lparr>phases := (phases s1)(t := Free), events := events s1 @ [Gets t a]\<rparr>"
    have "phases s1 t = Answered a" using s1(2) tP answers(3) by (simp add: in_advance_def)
    with s1(1) have "reachable (idle_queue n) (atomic_step n) ?s" by (blast intro: more atomic_step.answer)
    moreover have "in_advance n P (queue l') ?s" using s1(2) tP by (auto simp: in_advance_def answers(2) fun_eq_iff)
    ultimately show ?thesis by blast
  qed
qed

lemma late_in_advance:
  assumes "reachable (late_init n) (late_step n) l" "finite P" "\<And>t. t \<in> P \<Longrightarrow> refusable n l t"
  shows "\<exists>s'. reachable (idle_queue n) (atomic_step n) s' \<and> in_advance n P (queue l) s'"
  using assms
proof (induction arbitrary: P rule: reachable.induct)
  case (start l)
  have "t \<notin> P" for t using start by (auto simp: refusable_def late_init_def idle_queue_def)
  then have "P = {}" by blast
  with start(1) show ?case
    by (intro exI [of _ "queue l"]) (auto simp: late_init_def in_advance_def intro: reachable.start)
next
  case (further l l')
  show ?case
    by (rule late_advance_step [OF further.hyps(2) late.inv_reachable [OF further.hyps(1)] further.prems(1)])
      (use further.prems(2) further.IH in auto)
qed

text \<open>The events of a queue that refuses in hindsight are those of an atomic queue.\<close>

theorem hindsight:
  assumes "reachable (late_init n) (late_step n) l"
  shows "\<exists>s. reachable (idle_queue n) (atomic_step n) s \<and> events s = events (queue l) \<and> items s = items (queue l)"
  using late_in_advance [OF assms, of "{}"] by (auto simp: in_advance_def)

end
