(* ===== verification/Queue_Messages.thy ===== *)
theory Queue_Messages
  imports Queue_Orderings Late_Queue
begin

text \<open>
  The invariant of \<open>Queue_Orderings\<close>. At the ends of their modification orders the variables are a coherent
  queue (\<open>Queue_Threads\<close>); an end has had the stamps of all its positions, in order; an old stamp belongs to
  a position that has been handed out; and who may change a slot, or is about to be given it, knows its last stamp and all accesses to its
  value.
\<close>

section \<open>The invariant\<close>

definition published :: "'v chains \<Rightarrow> 'v \<Rightarrow> bool" where
  "published ch v \<longleftrightarrow> (\<exists>p. valid_place ch p \<and> content (message_at ch p) = v)"

definition outdated :: "nat \<Rightarrow> nat \<Rightarrow> 'a ghost \<Rightarrow> nat \<Rightarrow> usize \<Rightarrow> bool" where
  "outdated k n g j v \<longleftrightarrow> (\<exists>b. b mod n = j \<and> (v = enc k n b \<and> b < tl_pos g \<or> v = enc k n b + 1 \<and> b < hd_pos g))"

definition stamps_ok :: "nat \<Rightarrow> nat \<Rightarrow> 'a ghost \<Rightarrow> 'a weak_queue \<Rightarrow> nat \<Rightarrow> bool" where
  "stamps_ok k n g w j \<longleftrightarrow> wf_chains (stamps w j) \<and> content (latest (stamps w j)) = cval (stamp (buffer (memory w) ! j)) \<and>
     (\<forall>p. valid_place (stamps w j) p \<longrightarrow> p \<noteq> newest (stamps w j) \<longrightarrow> outdated k n g j (content (message_at (stamps w j) p)))"

text \<open>A chain of the tail ends where a \<open>force_push\<close> has stored, at a position that has had no free slot.\<close>

definition chain_ends :: "nat \<Rightarrow> nat \<Rightarrow> 'a weak_queue \<Rightarrow> bool" where
  "chain_ends k n w \<longleftrightarrow> (\<forall>p. valid_place (tails w) p \<longrightarrow> at_end (tails w) p \<longrightarrow> Suc (fst p) < length (tails w) \<longrightarrow>
     \<not> published (stamps w (rank (tails w) p mod n)) (enc k n (rank (tails w) p)))"

lemma chain_endsD:
  "chain_ends k n w \<Longrightarrow> valid_place (tails w) p \<Longrightarrow> at_end (tails w) p \<Longrightarrow> Suc (fst p) < length (tails w) \<Longrightarrow>
     \<not> published (stamps w (rank (tails w) p mod n)) (enc k n (rank (tails w) p))"
  unfolding chain_ends_def by blast

definition known_places :: "nat \<Rightarrow> 'a weak_queue \<Rightarrow> nat \<Rightarrow> bool" where
  "known_places n w t \<longleftrightarrow> valid_place (tails w) (tail_known w t) \<and> valid_place (heads w) (head_known w t) \<and>
     (\<forall>j<n. valid_place (stamps w j) (stamp_known w t j))"

definition messages_ok :: "nat \<Rightarrow> nat \<Rightarrow> 'a ghost \<Rightarrow> 'a weak_queue \<Rightarrow> bool" where
  "messages_ok k n g w \<longleftrightarrow> ranked (enc k n) (tails w) (tl_pos g) \<and> ranked (enc k n) (heads w) (hd_pos g) \<and>
     length (heads w) = 1 \<and> (\<forall>j<n. stamps_ok k n g w j) \<and> chain_ends k n w \<and> (\<forall>t. known_places n w t)"

text \<open>The accesses to a slot's value.\<close>

definition uses_of :: "'a weak_queue \<Rightarrow> nat \<Rightarrow> nat set" where
  "uses_of w j = {x. x < length (touched w) \<and> touched w ! x = j}"

definition cleared :: "'a weak_queue \<Rightarrow> nat \<Rightarrow> nat \<Rightarrow> bool" where
  "cleared w t j \<longleftrightarrow> stamp_known w t j = newest (stamps w j) \<and> uses_of w j \<subseteq> heard w t"

definition handed_over :: "nat \<Rightarrow> 'a ghost \<Rightarrow> 'a weak_queue \<Rightarrow> bool" where
  "handed_over n g w \<longleftrightarrow> (\<forall>j<n. (\<forall>u c. claims n g (doing w) u = Some c \<longrightarrow> c mod n \<noteq> j) \<longrightarrow>
     uses_of w j \<subseteq> carries (latest (stamps w j)))"

text \<open>The slot a thread has to itself, or gets if its next exchange succeeds.\<close>

fun relies :: "nat \<Rightarrow> 'a ghost \<Rightarrow> nat \<Rightarrow> 'a q_point \<Rightarrow> nat option" where
  "relies n g a (Push_Cas _ _ _ _ _ _) = (if a = tl_pos g then Some (a mod n) else None)"
| "relies n g a (Push_Full _ _ _ _ _ _) = (if a - n = hd_pos g then Some (a mod n) else None)"
| "relies n g a (Pop_Cas _ _ _ _) = (if a = hd_pos g then Some (a mod n) else None)"
| "relies n g a p = (case claim n p a of Some c \<Rightarrow> Some (c mod n) | None \<Rightarrow> None)"

fun knows :: "nat \<Rightarrow> nat \<Rightarrow> 'a weak_queue \<Rightarrow> nat set \<Rightarrow> nat \<Rightarrow> nat \<Rightarrow> 'a q_point \<Rightarrow> bool" where
  "knows k n w ls t a (Push_Stamp _ _ _ _) \<longleftrightarrow> a \<le> rank (tails w) (tail_known w t)"
| "knows k n w ls t a (Push_Cas _ _ _ _ _ _) \<longleftrightarrow> published (stamps w (a mod n)) (enc k n a)"
| "knows k n w ls t a (Push_Full _ _ _ _ _ _) \<longleftrightarrow> a \<le> rank (tails w) (tail_known w t) \<and>
     (rank (heads w) (head_known w t) \<le> a - n \<longrightarrow> n \<in> ls)"
| "knows k n w ls t a (Force_Tail _ _ _ _) \<longleftrightarrow> a \<le> rank (tails w) (tail_known w t)"
| "knows k n w ls t a (Pop_Tail _ _) \<longleftrightarrow> (rank (tails w) (tail_known w t) \<le> a \<longrightarrow> 0 \<in> ls)"
| "knows k n w ls t a p \<longleftrightarrow> True"

definition informed :: "nat \<Rightarrow> nat \<Rightarrow> 'a ghost \<Rightarrow> 'a weak_queue \<Rightarrow> nat set \<Rightarrow> nat \<Rightarrow> nat \<Rightarrow> 'a q_point \<Rightarrow> bool" where
  "informed k n g w ls t a p \<longleftrightarrow> knows k n w ls t a p \<and> (\<forall>j. relies n g a p = Some j \<longrightarrow> cleared w t j)"

definition weak_ok ::
  "profile \<Rightarrow> nat \<Rightarrow> nat \<Rightarrow> 'a ghost \<Rightarrow> 'a weak_queue \<Rightarrow> (nat \<Rightarrow> 'a phase) \<Rightarrow> (nat \<Rightarrow> nat set) \<Rightarrow> bool" where
  "weak_ok pr k n g w phs ls \<longleftrightarrow> coherent pr k n g (memory w) (doing w) phs \<and> messages_ok k n g w \<and> handed_over n g w \<and>
     (\<forall>t. informed k n g w (ls t) t (pos g t) (doing w t))"

lemma messages_okD:
  assumes "messages_ok k n g w"
  shows "ranked (enc k n) (tails w) (tl_pos g)" "ranked (enc k n) (heads w) (hd_pos g)" "length (heads w) = 1"
    "j < n \<Longrightarrow> stamps_ok k n g w j" "chain_ends k n w" "known_places n w t"
    "valid_place (tails w) (tail_known w t)" "valid_place (heads w) (head_known w t)"
    "j < n \<Longrightarrow> valid_place (stamps w j) (stamp_known w t j)" "j < n \<Longrightarrow> wf_chains (stamps w j)"
    "j < n \<Longrightarrow> content (latest (stamps w j)) = cval (stamp (buffer (memory w) ! j))"
    "j < n \<Longrightarrow> valid_place (stamps w j) p \<Longrightarrow> p \<noteq> newest (stamps w j) \<Longrightarrow> outdated k n g j (content (message_at (stamps w j) p))"
  using assms unfolding messages_ok_def known_places_def stamps_ok_def by blast+

lemma weak_okD:
  assumes "weak_ok pr k n g w phs ls"
  shows "coherent pr k n g (memory w) (doing w) phs" "mem_ok k n g (memory w)" "messages_ok k n g w" "handed_over n g w"
    "informed k n g w (ls t) t (pos g t) (doing w t)" "thread_ok pr k n g (memory w) (pos g t) (phs t) (doing w t)"
    "knows k n w (ls t) t (pos g t) (doing w t)" "relies n g (pos g t) (doing w t) = Some j \<Longrightarrow> cleared w t j"
  using assms coherentD(1,2) unfolding weak_ok_def informed_def by blast+

lemma newest_stamp:
  assumes "messages_ok k n g w" "0 < n"
  shows "content (message_at (stamps w (a mod n)) (newest (stamps w (a mod n)))) = st_at n (memory w) a"
  using messages_okD(11) [OF assms(1), of "a mod n"] newest_place(3) [OF messages_okD(10) [OF assms(1), of "a mod n"]] assms(2)
  by (simp add: st_at_def)

section \<open>Nobody has a slot that another relies on\<close>

lemma slot_of_claim: "claim n p a = Some c \<Longrightarrow> relies n g a p = Some (c mod n)"
  by (cases p) auto

lemma free_slot:
  assumes coh: "coherent pr k n g q pts phs" and st: "st_at n q (tl_pos g) = enc k n (tl_pos g)"
    and c: "claims n g pts u = Some c"
  shows "c mod n \<noteq> tl_pos g mod n"
proof
  assume eq: "c mod n = tl_pos g mod n"
  note f = tail_slot_free [OF coh st] and m = mem_okD [OF coherentD(1) [OF coh]]
  have "in_window n g (tl_pos g)" using f(2) m(8) by (simp add: in_window_def)
  from window_inj [OF claimed_window [OF coh c] this eq] f(3) c show False by auto
qed

lemma full_slot:
  assumes coh: "coherent pr k n g q pts phs" and st: "st_at n q (hd_pos g) = enc k n (hd_pos g) + 1"
    and c: "claims n g pts u = Some c"
  shows "c mod n \<noteq> hd_pos g mod n"
proof
  assume eq: "c mod n = hd_pos g mod n"
  note f = head_slot_full [OF coh st] and m = mem_okD [OF coherentD(1) [OF coh]]
  have "in_window n g (hd_pos g)" using m(3) by (simp add: in_window_def)
  from window_inj [OF claimed_window [OF coh c] this eq] f(3) c show False by auto
qed

lemma relies_sole:
  assumes coh: "coherent pr k n g q pts phs" and r: "relies n g (pos g t) (pts t) = Some j"
    and c: "claims n g pts u = Some c" "c mod n = j"
  shows "u = t"
proof (cases "claim n (pts t) (pos g t)")
  case (Some d)
  then have d: "claims n g pts t = Some d" by (simp add: claims_def)
  from slot_of_claim [OF Some] r have "d mod n = j" by simp
  with window_inj [OF claimed_window [OF coh d] claimed_window [OF coh c(1)]] c(2) have "d = c" by simp
  with coherentD(4) [OF coh d, of u] c(1) show ?thesis by simp
next
  case None
  note th = coherentD(2) [OF coh, of t]
  consider kd v tv nt i bo where "pts t = Push_Cas kd v tv nt i bo" "pos g t = tl_pos g" "j = tl_pos g mod n"
    | kd v tv nt i bo where "pts t = Push_Full kd v tv nt i bo" "pos g t - n = hd_pos g" "j = pos g t mod n"
    | h nh i bo where "pts t = Pop_Cas h nh i bo" "pos g t = hd_pos g" "j = hd_pos g mod n"
    using r None by (cases "pts t") (auto split: if_splits)
  then show ?thesis
  proof cases
    case 1
    with th have "st_at n q (tl_pos g) = enc k n (tl_pos g)" by (simp add: seen_free_def)
    from free_slot [OF coh this c(1)] c(2) 1(3) show ?thesis by simp
  next
    case 2
    with th have a: "n \<le> pos g t" "st_at n q (hd_pos g) = enc k n (hd_pos g) + 1" by (auto simp: seen_full_def)
    have "j = hd_pos g mod n" using 2(2,3) back_a_lap [OF a(1)] by simp
    with full_slot [OF coh a(2) c(1)] c(2) show ?thesis by simp
  next
    case 3
    with th have "st_at n q (hd_pos g) = enc k n (hd_pos g) + 1" by (simp add: seen_full_def)
    from full_slot [OF coh this c(1)] c(2) 3(3) show ?thesis by simp
  qed
qed

text \<open>Nobody comes to rely on a slot by what others do.\<close>

lemma relies_back:
  assumes th: "thread_ok pr k n g q a ph p" and mono: "tl_pos g \<le> tl_pos g'" "hd_pos g \<le> hd_pos g'"
    and r: "relies n g' a p = Some j"
  shows "relies n g a p = Some j"
  using assms by (cases p) (auto simp: seen_free_def seen_full_def split: if_splits)

section \<open>One thread moves\<close>

lemma weak_update:
  assumes ok: "weak_ok pr k n g w phs ls" and coh: "coherent pr k n g' (memory w') (doing w') phs'"
    and msg: "messages_ok k n g' w'" and over: "handed_over n g' w'"
    and t: "doing w' = (doing w)(t := p')" "pos g' = (pos g)(t := a')"
    and mono: "tl_pos g \<le> tl_pos g'" "hd_pos g \<le> hd_pos g'"
    and own: "informed k n g' w' (ls' t) t a' p'"
    and ranks: "\<And>u. u \<noteq> t \<Longrightarrow> rank (tails w') (tail_known w' u) = rank (tails w) (tail_known w u) \<and>
      rank (heads w') (head_known w' u) = rank (heads w) (head_known w u) \<and> ls u \<subseteq> ls' u"
    and pub: "\<And>j v. j < n \<Longrightarrow> published (stamps w j) v \<Longrightarrow> published (stamps w' j) v"
    and clear: "\<And>u j. u \<noteq> t \<Longrightarrow> relies n g (pos g u) (doing w u) = Some j \<Longrightarrow> cleared w u j \<Longrightarrow> cleared w' u j"
  shows "weak_ok pr k n g' w' phs' ls'"
proof -
  have n: "0 < n" using mem_okD(3) [OF weak_okD(2) [OF ok]] .
  have "informed k n g' w' (ls' u) u (pos g' u) (doing w' u)" for u
  proof (cases "u = t")
    case False
    note f = weak_okD(5-8) [OF ok, of u]
    have "knows k n w' (ls' u) u (pos g u) (doing w u)"
      using f(3) ranks [OF False] pub [of "pos g u mod n"] n by (cases "doing w u") (auto simp: subset_iff)
    moreover have "cleared w' u j" if "relies n g' (pos g u) (doing w u) = Some j" for j
    proof -
      have "relies n g (pos g u) (doing w u) = Some j" by (rule relies_back [OF f(2) mono that])
      with f(4) clear [OF False] show ?thesis by blast
    qed
    ultimately show ?thesis using False by (simp add: informed_def t)
  qed (use own t in simp)
  with coh msg over show ?thesis by (simp add: weak_ok_def)
qed

text \<open>A step that only reads.\<close>

lemma weak_read:
  assumes ok: "weak_ok pr k n g w phs ls" and before: "claims n g (doing w) t = None" and after: "claim n p' a' = None"
    and thr: "thread_ok pr k n g (memory w) a' ph' p'"
    and w': "memory w' = memory w" "tails w' = tails w" "heads w' = heads w" "stamps w' = stamps w" "touched w' = touched w"
      "doing w' = (doing w)(t := p')"
      "\<And>u. u \<noteq> t \<Longrightarrow> tail_known w' u = tail_known w u \<and> head_known w' u = head_known w u \<and> stamp_known w' u = stamp_known w u \<and> heard w' u = heard w u"
    and places: "known_places n w' t" and own: "informed k n g w' (ls t) t a' p'"
  shows "weak_ok pr k n (g\<lparr>pos := (pos g)(t := a')\<rparr>) w' (phs(t := ph')) ls"
proof (rule weak_update [OF ok])
  let ?g = "g\<lparr>pos := (pos g)(t := a')\<rparr>"
  note msg = weak_okD(3) [OF ok]
  show "coherent pr k n ?g (memory w') (doing w') (phs(t := ph'))"
    unfolding w'(1,6) by (rule coherent_local [OF weak_okD(1) [OF ok] before after thr])
  have "known_places n w' u" for u
    using messages_okD(6) [OF msg, of u] places w'(2-4) w'(7) [of u] by (cases "u = t") (auto simp: known_places_def)
  then show "messages_ok k n ?g w'"
    using msg w'(1-4) by (simp add: messages_ok_def stamps_ok_def chain_ends_def outdated_def)
  have "claims n ?g (doing w') u = claims n g (doing w) u" for u
    using before after by (cases "u = t") (auto simp: claims_def w'(6))
  then show "handed_over n ?g w'"
    using weak_okD(4) [OF ok] by (simp add: handed_over_def uses_of_def w'(4,5))
  show "doing w' = (doing w)(t := p')" "pos ?g = (pos g)(t := a')" using w' by simp_all
  have "relies n ?g a p = relies n g a p" for a p by (cases p) auto
  with own show "informed k n ?g w' (ls t) t a' p'" by (simp add: informed_def)
qed (use w' in \<open>auto simp: cleared_def uses_of_def\<close>)

end
