(* ===== verification/Queue_Reads.thy ===== *)
theory Queue_Reads
  imports Queue_Messages
begin

text \<open>The accesses of \<open>Queue_Orderings\<close> that only read keep the invariant, whatever message they find.\<close>

section \<open>What an access computes from what it finds\<close>

declare q_access.simps [simp del]

lemma met_accesses:
  "load (met c sp) = (c, new_cell c)"
  "compare_exchange_weak old nw (met c sp) =
     (if c = old \<and> \<not> sp then (Inr old, \<lparr>cval = nw, cenv = [], cown = [(old, nw)]\<rparr>) else (Inl c, new_cell c))"
  by (simp_all add: load_def arrive_def met_def compare_exchange_weak_def new_cell_def put_def)

lemma tail_found:
  fixes mem :: "'a array_queue"
  shows "q_access pr (Push_Load kd v) (mem\<lparr>tail := met c sp\<rparr>) = (Push_Stamp kd v c new_backoff, mem\<lparr>tail := new_cell c\<rparr>)"
    "q_access pr (Push_Reload kd v bo) (mem\<lparr>tail := met c sp\<rparr>) = (Push_Stamp kd v c bo, mem\<lparr>tail := new_cell c\<rparr>)"
    "q_access pr (Pop_Tail h bo) (mem\<lparr>tail := met c sp\<rparr>) = (if c = h then Returns (Popped None)
       else (case spun pr bo of Inl e \<Rightarrow> Halted e | Inr bo \<Rightarrow> Pop_Reload bo), mem\<lparr>tail := new_cell c\<rparr>)"
    "q_access pr (Push_Cas kd v tv nt i bo) (mem\<lparr>tail := met c sp\<rparr>) =
      (if c = tv \<and> \<not> sp then (Push_Write kd v tv i, mem\<lparr>tail := \<lparr>cval = nt, cenv = [], cown = [(tv, nt)]\<rparr>\<rparr>)
       else (case spun pr bo of Inl e \<Rightarrow> Halted e | Inr bo \<Rightarrow> Push_Stamp kd v c bo, mem\<lparr>tail := new_cell c\<rparr>))"
  by (simp_all add: q_access.simps load_tail_def met_accesses)

lemma head_found:
  fixes mem :: "'a array_queue"
  shows "q_access pr Pop_Load (mem\<lparr>head := met c sp\<rparr>) = (Pop_Stamp c new_backoff, mem\<lparr>head := new_cell c\<rparr>)"
    "q_access pr (Pop_Reload bo) (mem\<lparr>head := met c sp\<rparr>) = (Pop_Stamp c bo, mem\<lparr>head := new_cell c\<rparr>)"
    "q_access pr (Pop_Cas h nh i bo) (mem\<lparr>head := met c sp\<rparr>) =
      (if c = h \<and> \<not> sp then (Pop_Read h i, mem\<lparr>head := \<lparr>cval = nh, cenv = [], cown = [(h, nh)]\<rparr>\<rparr>)
       else (case spun pr bo of Inl e \<Rightarrow> Halted e | Inr bo \<Rightarrow> Pop_Stamp c bo, mem\<lparr>head := new_cell c\<rparr>))"
    "q_access pr (Push_Full Plain v tv nt i bo) (mem\<lparr>head := met c sp\<rparr>) =
      (if c + one_lap mem = tv then Returns (given_back Plain v)
       else (case spun pr bo of Inl e \<Rightarrow> Halted e | Inr bo \<Rightarrow> Push_Reload Plain v bo), mem\<lparr>head := new_cell c\<rparr>)"
    "q_access pr (Push_Full Forcing v tv nt i bo) (mem\<lparr>head := met c sp\<rparr>) =
      (if c = tv - one_lap mem \<and> \<not> sp
       then (Force_Tail v tv nt i, mem\<lparr>head := \<lparr>cval = nt - one_lap mem, cenv = [], cown = [(tv - one_lap mem, nt - one_lap mem)]\<rparr>\<rparr>)
       else (case spun pr bo of Inl e \<Rightarrow> Halted e | Inr bo \<Rightarrow> Push_Reload Forcing v bo, mem\<lparr>head := new_cell c\<rparr>))"
  by (simp_all add: q_access.simps load_head_def met_accesses)

lemma stamp_found:
  assumes "mem_ok k n g mem"
  shows "fst (q_access pr (Push_Stamp kd v (enc k n a) bo) (set_stamp (a mod n) c mem)) =
      (if enc k n a = c then Push_Cas kd v (enc k n a) (enc k n (Suc a)) (a mod n) bo
       else if c + 2 ^ k = enc k n a + 1 then Push_Full kd v (enc k n a) (enc k n (Suc a)) (a mod n) bo
       else (case snoozed pr bo of Inl e \<Rightarrow> Halted e | Inr bo \<Rightarrow> Push_Reload kd v bo))"
    "fst (q_access pr (Pop_Stamp (enc k n a) bo) (set_stamp (a mod n) c mem)) =
      (if enc k n a + 1 = c then Pop_Cas (enc k n a) (enc k n (Suc a)) (a mod n) bo
       else if c = enc k n a then Pop_Tail (enc k n a) bo
       else (case snoozed pr bo of Inl e \<Rightarrow> Halted e | Inr bo \<Rightarrow> Pop_Reload bo))"
    "variable_of mem (Push_Stamp kd v (enc k n a) bo) = Some (The_Stamp (a mod n))"
    "variable_of mem (Pop_Stamp (enc k n a) bo) = Some (The_Stamp (a mod n))"
proof -
  note m = mem_okD [OF assms]
  have lt: "a mod n < length (buffer mem)" using m(3,4) by simp
  have sh: "shape k n (set_stamp (a mod n) c mem)" "one_lap (set_stamp (a mod n) c mem) = 2 ^ k"
    using m(1,5) by (simp_all add: set_stamp_def upd_slot_def shape_def)
  have ld: "load_stamp (a mod n) (set_stamp (a mod n) c mem) = (c, set_stamp (a mod n) c mem)"
    using lt by (simp add: load_stamp_def set_stamp_def upd_slot_def new_cell_def load_def arrive_def)
  show "fst (q_access pr (Push_Stamp kd v (enc k n a) bo) (set_stamp (a mod n) c mem)) =
      (if enc k n a = c then Push_Cas kd v (enc k n a) (enc k n (Suc a)) (a mod n) bo
       else if c + 2 ^ k = enc k n a + 1 then Push_Full kd v (enc k n a) (enc k n (Suc a)) (a mod n) bo
       else (case snoozed pr bo of Inl e \<Rightarrow> Halted e | Inr bo \<Rightarrow> Push_Reload kd v bo))"
    "fst (q_access pr (Pop_Stamp (enc k n a) bo) (set_stamp (a mod n) c mem)) =
      (if enc k n a + 1 = c then Pop_Cas (enc k n a) (enc k n (Suc a)) (a mod n) bo
       else if c = enc k n a then Pop_Tail (enc k n a) bo
       else (case snoozed pr bo of Inl e \<Rightarrow> Halted e | Inr bo \<Rightarrow> Pop_Reload bo))"
    using sh by (simp_all add: q_access.simps ld stamp_arith checked_enc [OF m(2)])
  have "unat (enc k n a AND (one_lap mem - 1)) = a mod n"
    using unat_enc_index [OF m(2), of a] m(5) by (simp add: mask_eq_decr_exp)
  then show "variable_of mem (Push_Stamp kd v (enc k n a) bo) = Some (The_Stamp (a mod n))"
    "variable_of mem (Pop_Stamp (enc k n a) bo) = Some (The_Stamp (a mod n))" by simp_all
qed

section \<open>Steps of the queue with hindsight\<close>

definition late_moves ::
  "profile \<Rightarrow> nat \<Rightarrow> nat \<Rightarrow> 'a ghost \<Rightarrow> (nat \<Rightarrow> 'a phase) \<Rightarrow> (nat \<Rightarrow> nat set) \<Rightarrow> nat \<Rightarrow> 'a weak_queue \<Rightarrow> bool" where
  "late_moves pr k n g phs ls t w' \<longleftrightarrow> (\<exists>g' ph' ls'. weak_ok pr k n g' w' (phs(t := ph')) ls' \<and>
     (ph' = phs t \<and> contents g' = contents g \<and> ls' = ls \<or>
      (\<exists>opn a. phs t = Asked opn \<and> ph' = Answered a \<and> fifo_step n opn (contents g) = (a, contents g') \<and>
        ls' = with_length (length (contents g')) ls) \<or>
      (\<exists>opn a x. phs t = Asked opn \<and> ph' = Answered a \<and> refusal n opn = Some (x, a) \<and> x \<in> ls t \<and>
        contents g' = contents g \<and> ls' = ls)))"

definition settles :: "profile \<Rightarrow> nat \<Rightarrow> nat \<Rightarrow> 'a ghost \<Rightarrow> 'a weak_queue \<Rightarrow> nat set \<Rightarrow> nat \<Rightarrow> nat \<Rightarrow> 'a phase \<Rightarrow> 'a q_point \<Rightarrow> bool" where
  "settles pr k n g w ls t a ph p \<longleftrightarrow> claim n p a = None \<and> thread_ok pr k n g (memory w) a ph p \<and> informed k n g w ls t a p"

lemma settles_pause:
  assumes "\<And>bo. settles pr k n g w ls t a ph (P bo)"
  shows "settles pr k n g w ls t a ph (case spun pr bo of Inl e \<Rightarrow> Halted e | Inr bo \<Rightarrow> P bo)"
    "settles pr k n g w ls t a ph (case snoozed pr bo of Inl e \<Rightarrow> Halted e | Inr bo \<Rightarrow> P bo)"
  using assms by (auto simp: settles_def informed_def split: sum.split dest: pause_fault)

lemma late_moves_read:
  assumes ok: "weak_ok pr k n g w phs ls" and before: "claims n g (doing w) t = None"
    and s: "settles pr k n g w' (ls t) t a' ph' p'"
    and w': "memory w' = memory w" "tails w' = tails w" "heads w' = heads w" "stamps w' = stamps w" "touched w' = touched w"
      "doing w' = (doing w)(t := p')"
      "\<And>u. u \<noteq> t \<Longrightarrow> tail_known w' u = tail_known w u \<and> head_known w' u = head_known w u \<and> stamp_known w' u = stamp_known w u \<and> heard w' u = heard w u"
    and places: "known_places n w' t"
    and ph: "ph' = phs t \<or> (\<exists>opn a x. phs t = Asked opn \<and> ph' = Answered a \<and> refusal n opn = Some (x, a) \<and> x \<in> ls t)"
  shows "late_moves pr k n g phs ls t w'"
proof -
  have "weak_ok pr k n (g\<lparr>pos := (pos g)(t := a')\<rparr>) w' (phs(t := ph')) ls"
    using s by (intro weak_read [OF ok before _ _ w' places]) (auto simp: settles_def w'(1))
  moreover have "contents (g\<lparr>pos := (pos g)(t := a')\<rparr>) = contents g" by (simp add: contents_def)
  ultimately show ?thesis using ph unfolding late_moves_def by metis
qed

text \<open>At a load, or an exchange that fails, of an end.\<close>

lemma late_moves_tail:
  assumes "weak_ok pr k n g w phs ls" "claims n g (doing w) t = None" "valid_place (tails w) q"
    and w': "w' = w\<lparr>tail_known := (tail_known w)(t := q), doing := (doing w)(t := p')\<rparr>"
    and "settles pr k n g w' (ls t) t a' ph' p'"
    and "ph' = phs t \<or> (\<exists>opn a x. phs t = Asked opn \<and> ph' = Answered a \<and> refusal n opn = Some (x, a) \<and> x \<in> ls t)"
  shows "late_moves pr k n g phs ls t w'"
proof -
  have "known_places n w' t" using messages_okD(6) [OF weak_okD(3) [OF assms(1)], of t] assms(3) by (simp add: w' known_places_def)
  with late_moves_read [OF assms(1,2,5) _ _ _ _ _ _ _ _ assms(6)] show ?thesis by (simp add: w')
qed

lemma late_moves_head:
  assumes "weak_ok pr k n g w phs ls" "claims n g (doing w) t = None" "valid_place (heads w) q"
    and w': "w' = w\<lparr>head_known := (head_known w)(t := q), doing := (doing w)(t := p')\<rparr>"
    and "settles pr k n g w' (ls t) t a' ph' p'"
    and "ph' = phs t \<or> (\<exists>opn a x. phs t = Asked opn \<and> ph' = Answered a \<and> refusal n opn = Some (x, a) \<and> x \<in> ls t)"
  shows "late_moves pr k n g phs ls t w'"
proof -
  have "known_places n w' t" using messages_okD(6) [OF weak_okD(3) [OF assms(1)], of t] assms(3) by (simp add: w' known_places_def)
  with late_moves_read [OF assms(1,2,5) _ _ _ _ _ _ _ _ assms(6)] show ?thesis by (simp add: w')
qed

lemma read_tail_loads:
  assumes ok: "weak_ok pr k n g w phs ls" and q: "readable (tails w) (tail_known w t) q"
    and p: "doing w t = Push_Load kd v \<or> doing w t = Push_Reload kd v bo \<or> doing w t = Pop_Tail h bo"
    and r: "read_tail pr q sp t w = Some w'"
  shows "late_moves pr k n g phs ls t w'"
proof -
  let ?b = "rank (tails w) q" and ?c = "content (message_at (tails w) q)"
  note mem = weak_okD(2) [OF ok] and m = mem_okD [OF weak_okD(2) [OF ok]] and th = weak_okD(6) [OF ok, of t] and kn = weak_okD(7) [OF ok, of t]
  have v: "valid_place (tails w) q" and nb: "not_before (tail_known w t) q" using q by (auto simp: readable_valid)
  note rk = rankedD [OF messages_okD(1) [OF weak_okD(3) [OF ok]]]
  have c: "?c = enc k n ?b" "?b \<le> tl_pos g" using rk(3,4) [OF v] by auto
  have idle: "claims n g (doing w) t = None" using p by (auto simp: claims_def)
  note move = late_moves_tail [OF ok idle v]
  have w': "w' = w\<lparr>tail_known := (tail_known w)(t := q), doing := (doing w)(t := fst (q_access pr (doing w t) ((memory w)\<lparr>tail := met ?c sp\<rparr>)))\<rparr>"
    using r p by (auto simp: read_tail_def tail_found new_cell_def split: if_splits)
  have stamp: "late_moves pr k n g phs ls t w'" if "phs t = Asked (push_op kd v)" "fst (q_access pr (doing w t) ((memory w)\<lparr>tail := met ?c sp\<rparr>)) = Push_Stamp kd v ?c b" for b
    by (rule move [OF w', where a' = ?b and ph' = "phs t"])
      (use that c in \<open>auto simp: w' settles_def informed_def\<close>)
  show ?thesis
  proof (cases "doing w t = Pop_Tail h bo")
    case False
    with p th stamp show ?thesis by (auto simp: tail_found)
  next
    case True
    then have a: "phs t = Asked Pop" "h = enc k n (pos g t)" "pos g t \<le> hd_pos g" using th by auto
    show ?thesis
    proof (cases "?c = h")
      case empty: True
      then have "?b = pos g t" using c a(2,3) m(8) by (intro same_position [OF mem]) simp_all
      moreover have "rank (tails w) (tail_known w t) \<le> ?b"
        using rank_mono [OF messages_okD(7) [OF weak_okD(3) [OF ok]] v] nb by simp
      ultimately have "0 \<in> ls t" using kn True by simp
      then show ?thesis
        by (intro move [OF w', where a' = 0 and ph' = "Answered (Popped None)"])
          (use True empty a(1) in \<open>auto simp: settles_def informed_def tail_found\<close>)
    next
      case no: False
      have "settles pr k n g w' (ls t) t 0 (phs t) (Pop_Reload b)" for b using a(1) by (simp add: settles_def informed_def)
      from settles_pause(1) [OF this] show ?thesis
        by (intro move [OF w', where a' = 0 and ph' = "phs t"]) (use True no in \<open>simp_all add: tail_found\<close>)
    qed
  qed
qed

lemma read_tail_fails:
  assumes ok: "weak_ok pr k n g w phs ls" and q: "readable (tails w) (tail_known w t) q"
    and p: "doing w t = Push_Cas kd v tv nt i bo" and fail: "\<not> (content (message_at (tails w) q) = tv \<and> \<not> sp)"
    and r: "read_tail pr q sp t w = Some w'"
  shows "late_moves pr k n g phs ls t w'"
proof -
  let ?b = "rank (tails w) q" and ?c = "content (message_at (tails w) q)"
  note th = weak_okD(6) [OF ok, of t]
  have v: "valid_place (tails w) q" using q by (auto simp: readable_valid)
  note rk = rankedD [OF messages_okD(1) [OF weak_okD(3) [OF ok]]]
  have c: "?c = enc k n ?b" "?b \<le> tl_pos g" using rk(3,4) [OF v] by auto
  have idle: "claims n g (doing w) t = None" using p by (auto simp: claims_def)
  have w': "w' = w\<lparr>tail_known := (tail_known w)(t := q),
      doing := (doing w)(t := (case spun pr bo of Inl e \<Rightarrow> Halted e | Inr bo \<Rightarrow> Push_Stamp kd v ?c bo))\<rparr>"
    using r p fail by (auto simp: read_tail_def tail_found new_cell_def)
  have "settles pr k n g w' (ls t) t ?b (phs t) (Push_Stamp kd v ?c b)" for b
    using p th c by (simp add: settles_def informed_def w')
  from late_moves_tail [OF ok idle v w' settles_pause(1) [OF this]] show ?thesis by simp
qed

lemma read_head_loads:
  assumes ok: "weak_ok pr k n g w phs ls" and q: "readable (heads w) (head_known w t) q"
    and p: "doing w t = Pop_Load \<or> doing w t = Pop_Reload bo \<or>
      doing w t = Pop_Cas h nh i bo \<and> \<not> (content (message_at (heads w) q) = h \<and> \<not> sp)"
    and r: "read_head pr q sp t w = Some w'"
  shows "late_moves pr k n g phs ls t w'"
proof -
  let ?b = "rank (heads w) q" and ?c = "content (message_at (heads w) q)"
  note th = weak_okD(6) [OF ok, of t]
  have v: "valid_place (heads w) q" using q by (auto simp: readable_valid)
  note rk = rankedD [OF messages_okD(2) [OF weak_okD(3) [OF ok]]]
  have c: "?c = enc k n ?b" "?b \<le> hd_pos g" using rk(3,4) [OF v] by auto
  have idle: "claims n g (doing w) t = None" using p by (auto simp: claims_def)
  let ?p = "fst (q_access pr (doing w t) ((memory w)\<lparr>head := met ?c sp\<rparr>))"
  have w': "w' = w\<lparr>head_known := (head_known w)(t := q), doing := (doing w)(t := ?p)\<rparr>"
    using r p by (auto simp: read_head_def head_found new_cell_def split: if_splits)
  have "phs t = Asked Pop" using p th by auto
  then have "settles pr k n g w' (ls t) t ?b (phs t) (Pop_Stamp ?c b)" for b
    using c by (simp add: settles_def informed_def w')
  then have "settles pr k n g w' (ls t) t ?b (phs t) ?p"
    using p by (auto simp: head_found intro!: settles_pause(1))
  from late_moves_head [OF ok idle v w' this] show ?thesis by simp
qed

lemma read_head_full:
  assumes ok: "weak_ok pr k n g w phs ls" and q: "readable (heads w) (head_known w t) q"
    and p: "doing w t = Push_Full kd v tv nt i bo" and fail: "kd = Forcing \<Longrightarrow> \<not> (content (message_at (heads w) q) = tv - 2 ^ k \<and> \<not> sp)"
    and r: "read_head pr q sp t w = Some w'"
  shows "late_moves pr k n g phs ls t w'"
proof -
  let ?b = "rank (heads w) q" and ?c = "content (message_at (heads w) q)" and ?a = "pos g t"
  note mem = weak_okD(2) [OF ok] and m = mem_okD [OF weak_okD(2) [OF ok]] and kn = weak_okD(7) [OF ok, of t]
  have v: "valid_place (heads w) q" and nb: "not_before (head_known w t) q" using q by (auto simp: readable_valid)
  note rk = rankedD [OF messages_okD(2) [OF weak_okD(3) [OF ok]]]
  have c: "?c = enc k n ?b" "?b \<le> hd_pos g" using rk(3,4) [OF v] by auto
  have th: "phs t = Asked (push_op kd v)" "tv = enc k n ?a" "?a \<le> tl_pos g" "n \<le> ?a"
    using weak_okD(6) [OF ok, of t] by (simp_all add: p)
  have idle: "claims n g (doing w) t = None" by (auto simp: claims_def p)
  let ?p = "fst (q_access pr (doing w t) ((memory w)\<lparr>head := met ?c sp\<rparr>))"
  have w': "w' = w\<lparr>head_known := (head_known w)(t := q), doing := (doing w)(t := ?p)\<rparr>"
    using r p fail m(5) by (cases kd) (auto simp: read_head_def head_found new_cell_def split: if_splits)
  note move = late_moves_head [OF ok idle v w']
  show ?thesis
  proof (cases "kd = Plain \<and> ?c + 2 ^ k = tv")
    case True
    have "enc k n ?a = enc k n (?a - n) + 2 ^ k" using enc_add_lap [OF m(2), of "?a - n"] th(4) by simp
    with True c(1) th(2) have "enc k n ?b = enc k n (?a - n)" by simp
    then have "?b = ?a - n" using c(2) th(3) m(8) by (intro same_position [OF mem]) simp_all
    moreover have "rank (heads w) (head_known w t) \<le> ?b"
      using rank_mono [OF messages_okD(8) [OF weak_okD(3) [OF ok]] v] nb by simp
    ultimately have "n \<in> ls t" using kn by (simp add: p)
    with True m(5) show ?thesis
      by (intro move [where a' = 0 and ph' = "Answered (given_back Plain v)"])
        (auto simp: p settles_def informed_def head_found th(1) push_op_def given_back_def)
  next
    case False
    have "?p = (case spun pr bo of Inl e \<Rightarrow> Halted e | Inr bo \<Rightarrow> Push_Reload kd v bo)"
      using False fail m(5) by (cases kd) (auto simp: p head_found)
    moreover have "settles pr k n g w' (ls t) t ?a (phs t) (Push_Reload kd v b)" for b
      by (simp add: settles_def informed_def th(1))
    ultimately have "settles pr k n g w' (ls t) t ?a (phs t) ?p" using settles_pause(1) by metis
    from move [OF this] show ?thesis by simp
  qed
qed

section \<open>Stamps\<close>

text \<open>What an old stamp can be taken for.\<close>

lemma outdated_stamp:
  assumes mem: "mem_ok k n g q" and out: "outdated k n g (a mod n) c" and a: "a \<le> tl_pos g"
  shows "c = enc k n a \<Longrightarrow> a < tl_pos g" "c = enc k n a + 1 \<Longrightarrow> a < hd_pos g"
    "c + 2 ^ k = enc k n a + 1 \<Longrightarrow> n \<le> a \<and> a - n < hd_pos g"
proof -
  note m = mem_okD [OF mem]
  obtain b where b: "b mod n = a mod n" "c = enc k n b \<and> b < tl_pos g \<or> c = enc k n b + 1 \<and> b < hd_pos g"
    using out by (auto simp: outdated_def)
  have ne: "enc k n b + 1 \<noteq> enc k n a" "enc k n a + 1 \<noteq> enc k n b" "enc k n a + 1 \<noteq> enc k n (b + n)"
    using enc_plus_1_ne [OF m(2), of b a] enc_plus_1_ne [OF m(2), of a b] enc_plus_1_ne [OF m(2), of a "b + n"] b(1) by simp_all
  have same: "b = a" if "enc k n b = enc k n a"
    using b(2) m(8) a by (intro same_position [OF mem that]) auto
  show "a < tl_pos g" if "c = enc k n a" using that b(2) ne(1) same by metis
  show "a < hd_pos g" if "c = enc k n a + 1" using that b(2) ne(2) same by (metis add_right_cancel)
  show "n \<le> a \<and> a - n < hd_pos g" if c: "c + 2 ^ k = enc k n a + 1"
  proof -
    from b(2) show ?thesis
    proof (elim disjE conjE)
      assume "c = enc k n b"
      with c ne(3) enc_add_lap [OF m(2), of b] show ?thesis by simp
    next
      assume l: "c = enc k n b + 1" "b < hd_pos g"
      with c enc_add_lap [OF m(2), of b] have "enc k n (b + n) = enc k n a" by (simp add: algebra_simps)
      then have "b + n = a" using l(2) m(8) a by (intro same_position [OF mem]) auto
      with l(2) show ?thesis by auto
    qed
  qed
qed

text \<open>Whoever reads the last stamp of a slot that nobody has is given it.\<close>

lemma clears:
  assumes ok: "weak_ok pr k n g w phs ls" and j: "j < n" and free: "\<And>u c. claims n g (doing w) u = Some c \<Longrightarrow> c mod n \<noteq> j"
    and w': "stamp_known w' t j = newest (stamps w j)" "stamps w' = stamps w" "touched w' = touched w"
      "carries (message_at (stamps w j) (newest (stamps w j))) \<subseteq> heard w' t"
  shows "cleared w' t j"
proof -
  have "uses_of w j \<subseteq> carries (latest (stamps w j))"
    using weak_okD(4) [OF ok] j free by (auto simp: handed_over_def)
  also have "\<dots> = carries (message_at (stamps w j) (newest (stamps w j)))"
    using newest_place(3) [OF messages_okD(10) [OF weak_okD(3) [OF ok] j]] by simp
  finally have "uses_of w j \<subseteq> heard w' t" using w'(4) by blast
  then show ?thesis by (simp add: cleared_def uses_of_def w'(1-3))
qed

lemma read_stamp_frame:
  fixes w :: "'a weak_queue"
  assumes "mem_ok k n g (memory w)" "p = fst (q_access pr (doing w t) (set_stamp i (content (message_at (stamps w i) q)) (memory w)))"
  shows "memory (read_stamp pr i q t w) = memory w" "tails (read_stamp pr i q t w) = tails w" "heads (read_stamp pr i q t w) = heads w"
    "stamps (read_stamp pr i q t w) = stamps w" "touched (read_stamp pr i q t w) = touched w"
    "doing (read_stamp pr i q t w) = (doing w)(t := p)" "stamp_known (read_stamp pr i q t w) t = (stamp_known w t)(i := q)"
    "heard w t \<union> carries (message_at (stamps w i) q) \<subseteq> heard (read_stamp pr i q t w) t"
    "u \<noteq> t \<Longrightarrow> tail_known (read_stamp pr i q t w) u = tail_known w u \<and> head_known (read_stamp pr i q t w) u = head_known w u \<and>
      stamp_known (read_stamp pr i q t w) u = stamp_known w u \<and> heard (read_stamp pr i q t w) u = heard w u"
    "tail_known (read_stamp pr i q t w) t = (if after_fence p then newest (tails w) else tail_known w t)"
    "head_known (read_stamp pr i q t w) t = (if after_fence p then newest (heads w) else head_known w t)"
  by (auto simp: read_stamp_def Let_def fence_def queue_orders assms(2) [symmetric])

lemma read_stamp_places:
  assumes ok: "weak_ok pr k n g w phs ls" and q: "valid_place (stamps w i) q"
  shows "known_places n (read_stamp pr i q t w) t"
proof -
  note msg = weak_okD(3) [OF ok] and fr = read_stamp_frame [OF weak_okD(2) [OF ok] refl, where pr = pr and t = t and q = q]
  have "valid_place (tails w) (newest (tails w))" "valid_place (heads w) (newest (heads w))"
    using rankedD(7) messages_okD(1,2) [OF msg] by blast+
  with messages_okD(7-9) [OF msg, of t] messages_okD(9) [OF msg, where t = t] q show ?thesis
    by (simp add: known_places_def fr)
qed

text \<open>A fence that finds the queue full, or empty, is the moment at which it is.\<close>

lemma full_at_fence:
  assumes mem: "mem_ok k n g q" and a: "a \<le> tl_pos g" "n \<le> a" "a - n \<le> hd_pos g" "hd_pos g \<le> a - n"
  shows "length (contents g) = n"
  using mem_okD(9,11) [OF mem] a by simp

lemma push_stamp_step:
  assumes ok: "weak_ok pr k n g w phs ls" and q: "valid_place (stamps w i) q"
    and p: "doing w t = Push_Stamp kd v tv bo" and i: "i = pos g t mod n"
    and now: "\<And>opn. phs t = Asked opn \<Longrightarrow> length (contents g) \<in> ls t"
  shows "late_moves pr k n g phs ls t (read_stamp pr i q t w)"
proof -
  let ?a = "pos g t" and ?c = "content (message_at (stamps w i) q)" and ?w = "read_stamp pr i q t w"
  note coh = weak_okD(1) [OF ok] and mem = weak_okD(2) [OF ok] and msg = weak_okD(3) [OF ok]
  note m = mem_okD [OF mem] and rt = rankedD [OF messages_okD(1) [OF msg]] and rh = rankedD [OF messages_okD(2) [OF msg]]
  have th: "phs t = Asked (push_op kd v)" "tv = enc k n ?a" "?a \<le> tl_pos g" using weak_okD(6) [OF ok, of t] by (simp_all add: p)
  have kn: "?a \<le> rank (tails w) (tail_known w t)" using weak_okD(7) [OF ok, of t] by (simp add: p)
  have idle: "claims n g (doing w) t = None" by (simp add: claims_def p)
  have j: "i < n" using m(3) by (simp add: i)
  let ?p = "fst (q_access pr (doing w t) (set_stamp i ?c (memory w)))"
  note fr = read_stamp_frame [OF mem refl, where pr = pr and t = t and q = q]
  have new: "?c = st_at n (memory w) ?a" if "q = newest (stamps w i)"
    using newest_stamp [OF msg m(3), of ?a] that i by simp
  have old: "outdated k n g i ?c" if "q \<noteq> newest (stamps w i)" using messages_okD(12) [OF msg j q that] .
  have clear: "cleared ?w t i" if "q = newest (stamps w i)" "\<And>u c. claims n g (doing w) u = Some c \<Longrightarrow> c mod n \<noteq> i"
    by (rule clears [OF ok j that(2)]) (use that(1) fr in auto)
  have "settles pr k n g ?w (ls t) t ?a (phs t) ?p"
  proof -
    consider "enc k n ?a = ?c" | "enc k n ?a \<noteq> ?c" "?c + 2 ^ k = enc k n ?a + 1"
      | "enc k n ?a \<noteq> ?c" "?c + 2 ^ k \<noteq> enc k n ?a + 1" by blast
    then show ?thesis
    proof cases
      case 1
      have q_new: "q = newest (stamps w i)" if "?a = tl_pos g"
        using outdated_stamp(1) [OF mem old [unfolded i] th(3)] 1 that i by force
      have st: "st_at n (memory w) ?a = enc k n ?a" if "?a = tl_pos g" using new q_new that 1 by simp
      then have free: "seen_free k n g (memory w) ?a" using th(3) by (simp add: seen_free_def)
      have "cleared ?w t i" if a: "?a = tl_pos g"
        by (rule clear) (use q_new free_slot [OF coh] st a i in auto)
      moreover have "published (stamps w i) (enc k n ?a)" unfolding published_def using q 1 by metis
      moreover have "?p = Push_Cas kd v tv (enc k n (Suc ?a)) i bo"
        unfolding p i th(2) stamp_found(1) [OF mem] using 1 i by simp
      ultimately show ?thesis using free th by (simp add: settles_def informed_def fr i)
    next
      case 2
      have full: "n \<le> ?a" "seen_full k n g (memory w) (?a - n)"
        using lap_behind [OF coh th(3)] outdated_stamp(3) [OF mem old [unfolded i] th(3)] 2(2) new i
        by (cases "q = newest (stamps w i)"; force simp: seen_full_def)+
      have q_new: "q = newest (stamps w i)" if "?a - n = hd_pos g"
        using outdated_stamp(3) [OF mem old [unfolded i] th(3)] 2(2) that i by force
      have "cleared ?w t i" if a: "?a - n = hd_pos g"
      proof (rule clear)
        have "st_at n (memory w) (hd_pos g) = enc k n (hd_pos g) + 1" using full(2) a by (simp add: seen_full_def)
        moreover have "i = hd_pos g mod n" using back_a_lap [OF full(1)] a i by simp
        ultimately show "c mod n \<noteq> i" if "claims n g (doing w) u = Some c" for u c using full_slot [OF coh _ that] by simp
      qed (use q_new a in simp)
      moreover have "n \<in> ls t" if "hd_pos g \<le> ?a - n"
        using now [OF th(1)] full_at_fence [OF mem th(3) full(1) _ that] full(2) by (simp add: seen_full_def)
      moreover have "?p = Push_Full kd v tv (enc k n (Suc ?a)) i bo"
        unfolding p i th(2) stamp_found(1) [OF mem] using 2 i by simp
      ultimately show ?thesis using full th rt(6) rh(6) by (simp add: settles_def informed_def fr i)
    next
      case 3
      have "settles pr k n g ?w (ls t) t ?a (phs t) (Push_Reload kd v b)" for b
        using th by (simp add: settles_def informed_def)
      moreover have "?p = (case snoozed pr bo of Inl e \<Rightarrow> Halted e | Inr bo \<Rightarrow> Push_Reload kd v bo)"
        unfolding p i th(2) stamp_found(1) [OF mem] using 3 i by simp
      ultimately show ?thesis using settles_pause(2) by metis
    qed
  qed
  from late_moves_read [OF ok idle this] fr read_stamp_places [OF ok q] show ?thesis by simp
qed

lemma pop_stamp_step:
  assumes ok: "weak_ok pr k n g w phs ls" and q: "valid_place (stamps w i) q"
    and p: "doing w t = Pop_Stamp h bo" and i: "i = pos g t mod n"
    and now: "\<And>opn. phs t = Asked opn \<Longrightarrow> length (contents g) \<in> ls t"
  shows "late_moves pr k n g phs ls t (read_stamp pr i q t w)"
proof -
  let ?a = "pos g t" and ?c = "content (message_at (stamps w i) q)" and ?w = "read_stamp pr i q t w"
  note coh = weak_okD(1) [OF ok] and mem = weak_okD(2) [OF ok] and msg = weak_okD(3) [OF ok]
  note m = mem_okD [OF mem] and rt = rankedD [OF messages_okD(1) [OF msg]]
  have th: "phs t = Asked Pop" "h = enc k n ?a" "?a \<le> hd_pos g" using weak_okD(6) [OF ok, of t] by (simp_all add: p)
  then have le: "?a \<le> tl_pos g" using m(8) by simp
  have idle: "claims n g (doing w) t = None" by (simp add: claims_def p)
  have j: "i < n" using m(3) by (simp add: i)
  let ?p = "fst (q_access pr (doing w t) (set_stamp i ?c (memory w)))"
  note fr = read_stamp_frame [OF mem refl, where pr = pr and t = t and q = q]
  have new: "?c = st_at n (memory w) ?a" if "q = newest (stamps w i)"
    using newest_stamp [OF msg m(3), of ?a] that i by simp
  have old: "outdated k n g i ?c" if "q \<noteq> newest (stamps w i)" using messages_okD(12) [OF msg j q that] .
  have "settles pr k n g ?w (ls t) t ?a (phs t) ?p"
  proof -
    consider "enc k n ?a + 1 = ?c" | "enc k n ?a + 1 \<noteq> ?c" "?c = enc k n ?a"
      | "enc k n ?a + 1 \<noteq> ?c" "?c \<noteq> enc k n ?a" by blast
    then show ?thesis
    proof cases
      case 1
      have q_new: "q = newest (stamps w i)" if "?a = hd_pos g"
        using outdated_stamp(2) [OF mem old [unfolded i] le] 1 that i by force
      have st: "st_at n (memory w) ?a = enc k n ?a + 1" if "?a = hd_pos g" using new q_new that 1 by simp
      have "cleared ?w t i" if a: "?a = hd_pos g"
        by (rule clears [OF ok j]) (use q_new full_slot [OF coh] st a i fr in auto)
      moreover have "?p = Pop_Cas h (enc k n (Suc ?a)) i bo"
        unfolding p i th(2) stamp_found(2) [OF mem] using 1 i by simp
      ultimately show ?thesis using th st by (simp add: settles_def informed_def seen_full_def fr i)
    next
      case 2
      have st: "st_at n (memory w) ?a = enc k n ?a" if "?a = tl_pos g"
        using new outdated_stamp(1) [OF mem old [unfolded i] le] 2(2) that i by (cases "q = newest (stamps w i)") force+
      have "0 \<in> ls t" if "tl_pos g \<le> ?a"
      proof -
        have "?a = tl_pos g" using le that by simp
        with st th(3) m(8) have "end_pos g = hd_pos g" using tail_slot_free(1) [OF coh] by simp
        then have "contents g = []" by (simp add: contents_Nil)
        with now [OF th(1)] show ?thesis by simp
      qed
      moreover have "?p = Pop_Tail h bo"
        unfolding p i th(2) stamp_found(2) [OF mem] using 2 i by simp
      ultimately show ?thesis using th st le rt(6) by (simp add: settles_def informed_def fr seen_free_def)
    next
      case 3
      have "settles pr k n g ?w (ls t) t ?a (phs t) (Pop_Reload b)" for b
        using th by (simp add: settles_def informed_def)
      moreover have "?p = (case snoozed pr bo of Inl e \<Rightarrow> Halted e | Inr bo \<Rightarrow> Pop_Reload bo)"
        unfolding p i th(2) stamp_found(2) [OF mem] using 3 i by simp
      ultimately show ?thesis using settles_pause(2) by metis
    qed
  qed
  from late_moves_read [OF ok idle this] fr read_stamp_places [OF ok q] show ?thesis by simp
qed

end
