(* ===== verification/Queue_Writes.thy ===== *)
theory Queue_Writes
  imports Queue_Reads
begin

text \<open>The accesses of \<open>Queue_Orderings\<close> that write keep the invariant: each writes at the end of a modification order.\<close>

section \<open>One more word of an end\<close>

lemma outdated_mono: "outdated k n g j v \<Longrightarrow> tl_pos g \<le> tl_pos g' \<Longrightarrow> hd_pos g \<le> hd_pos g' \<Longrightarrow> outdated k n g' j v"
  by (force simp: outdated_def)

lemma tail_grows:
  assumes msg: "messages_ok k n g w" and grows: "grows (tails w) m (tails w')" "content m = enc k n (Suc (tl_pos g))"
    and w': "heads w' = heads w" "stamps w' = stamps w" "buffer (memory w') = buffer (memory w)" "head_known w' = head_known w"
      "stamp_known w' = stamp_known w" "tail_known w' = (tail_known w)(t := newest (tails w'))"
    and g': "tl_pos g' = Suc (tl_pos g)" "hd_pos g' = hd_pos g" and ends: "chain_ends k n w'"
  shows "messages_ok k n g' w'"
    "u \<noteq> t \<Longrightarrow> rank (tails w') (tail_known w' u) = rank (tails w) (tail_known w u)"
proof -
  note G = growsD [OF grows(1)]
  have "ranked (enc k n) (tails w') (tl_pos g')"
    using ranked_grows [OF messages_okD(1) [OF msg] grows] by (simp add: g')
  moreover have "stamps_ok k n g' w' j" if "j < n" for j
    using messages_okD(10-12) [OF msg that] w'(2,3) outdated_mono [of k n g j _ g'] by (auto simp: stamps_ok_def g')
  moreover have "known_places n w' u" for u
    using messages_okD(7-9) [OF msg, of u] messages_okD(9) [OF msg, where t = u] G(1,4) w' newest_place(1) [OF G(1)]
    by (simp add: known_places_def)
  ultimately show "messages_ok k n g' w'"
    using messages_okD(2,3) [OF msg] ends w'(1) g'(2) by (simp add: messages_ok_def)
  show "rank (tails w') (tail_known w' u) = rank (tails w) (tail_known w u)" if "u \<noteq> t"
    using G(7) [OF messages_okD(7) [OF msg, of u]] that w'(6) by simp
qed

lemma head_grows:
  assumes msg: "messages_ok k n g w" and grows: "grows (heads w) m (heads w')" "content m = enc k n (Suc (hd_pos g))" "length (heads w') = 1"
    and w': "tails w' = tails w" "stamps w' = stamps w" "buffer (memory w') = buffer (memory w)" "tail_known w' = tail_known w"
      "stamp_known w' = stamp_known w" "head_known w' = (head_known w)(t := newest (heads w'))"
    and g': "hd_pos g' = Suc (hd_pos g)" "tl_pos g' = tl_pos g"
  shows "messages_ok k n g' w'"
    "u \<noteq> t \<Longrightarrow> rank (heads w') (head_known w' u) = rank (heads w) (head_known w u)"
proof -
  note G = growsD [OF grows(1)]
  have "ranked (enc k n) (heads w') (hd_pos g')"
    using ranked_grows [OF messages_okD(2) [OF msg] grows(1,2)] by (simp add: g')
  moreover have "stamps_ok k n g' w' j" if "j < n" for j
    using messages_okD(10-12) [OF msg that] w'(2,3) outdated_mono [of k n g j _ g'] by (auto simp: stamps_ok_def g')
  moreover have "known_places n w' u" for u
    using messages_okD(7-9) [OF msg, of u] messages_okD(9) [OF msg, where t = u] G(1,4) w' newest_place(1) [OF G(1)]
    by (simp add: known_places_def)
  ultimately show "messages_ok k n g' w'"
    using messages_okD(1,5) [OF msg] grows(3) w'(1,2) g'(2) by (simp add: messages_ok_def chain_ends_def)
  show "rank (heads w') (head_known w' u) = rank (heads w) (head_known w u)" if "u \<noteq> t"
    using G(7) [OF messages_okD(8) [OF msg, of u]] that w'(6) by simp
qed

lemma handed_over_same:
  assumes "handed_over n g w" "stamps w' = stamps w" "touched w' = touched w"
    "\<And>u c. claims n g (doing w) u = Some c \<Longrightarrow> \<exists>v d. claims n g' (doing w') v = Some d \<and> d mod n = c mod n"
  shows "handed_over n g' w'"
  using assms by (fastforce simp: handed_over_def uses_of_def)

text \<open>An exchange can only be at the end of the order.\<close>

lemma append_ends:
  assumes "wf_chains ch" "valid_place (append_to (length ch - 1) m ch) p" "at_end (append_to (length ch - 1) m ch) p"
    "Suc (fst p) < length (append_to (length ch - 1) m ch)"
  shows "valid_place ch p" "at_end ch p" "Suc (fst p) < length ch"
  using assms by (auto simp: append_to_def valid_place_def at_end_def)

lemma tail_exchange_newest:
  assumes ok: "weak_ok pr k n g w phs ls" and q: "valid_place (tails w) q" "at_end (tails w) q"
    and p: "doing w t = Push_Cas kd v tv nt i bo" and found: "content (message_at (tails w) q) = tv"
  shows "q = newest (tails w)" "fst q = length (tails w) - 1" "pos g t = tl_pos g"
proof -
  note msg = weak_okD(3) [OF ok] and rk = rankedD [OF messages_okD(1) [OF weak_okD(3) [OF ok]]]
  have th: "tv = enc k n (pos g t)" "pos g t \<le> tl_pos g" using weak_okD(6) [OF ok, of t] by (simp_all add: p seen_free_def)
  have "enc k n (rank (tails w) q) = enc k n (pos g t)" using rk(3) [OF q(1)] found th(1) by simp
  then have a: "rank (tails w) q = pos g t"
    using rk(4) [OF q(1)] th(2) by (intro same_position [OF weak_okD(2) [OF ok]]) simp_all
  have "published (stamps w (pos g t mod n)) (enc k n (pos g t))" using weak_okD(7) [OF ok, of t] by (simp add: p)
  with a have "published (stamps w (rank (tails w) q mod n)) (enc k n (rank (tails w) q))" by simp
  with chain_endsD [OF messages_okD(5) [OF msg] q] have L: "\<not> Suc (fst q) < length (tails w)" by blast
  then have L: "Suc (fst q) = length (tails w)" using q(1) by (simp add: valid_place_def)
  have "snd q = length (last (tails w)) - 1" using q(2) last_chain [OF rk(1) L] by (simp add: at_end_def)
  with L show new: "q = newest (tails w)" "fst q = length (tails w) - 1" by (cases q; simp add: newest_def)+
  show "pos g t = tl_pos g" using a rk(6) new by simp
qed

section \<open>The exchanges\<close>

lemma push_cas_step:
  assumes ok: "weak_ok pr k n g w phs ls" and q: "readable (tails w) (tail_known w t) q"
    and p: "doing w t = Push_Cas kd v tv nt i bo" and found: "content (message_at (tails w) q) = tv" "\<not> sp"
    and r: "read_tail pr q sp t w = Some w'" and few: "few_pushes n w'" "2 ^ 63 \<le> turns k n"
  shows "late_moves pr k n g phs ls t w'"
proof -
  let ?T = "tl_pos g"
  note coh = weak_okD(1) [OF ok] and mem = weak_okD(2) [OF ok] and msg = weak_okD(3) [OF ok] and m = mem_okD [OF weak_okD(2) [OF ok]]
  note rk = rankedD [OF messages_okD(1) [OF msg]]
  have end_q: "at_end (tails w) q" using r found by (auto simp: read_tail_def p tail_found split: if_splits)
  have v: "valid_place (tails w) q" using q by (simp add: readable_valid)
  note new = tail_exchange_newest [OF ok v end_q p found(1)]
  have th: "phs t = Asked (push_op kd v)" "tv = enc k n ?T" "nt = enc k n (Suc ?T)" "i = ?T mod n" "seen_free k n g (memory w) ?T"
    using weak_okD(6) [OF ok, of t] by (simp_all add: p new(3))
  have clear: "cleared w t (?T mod n)" using weak_okD(8) [OF ok, of t] by (simp add: p new(3))
  let ?m = "\<lparr>content = enc k n (Suc ?T), carries = {}\<rparr> :: usize message"
  let ?ch = "append_to (length (tails w) - 1) ?m (tails w)"
  note G = grows_append [OF rk(1), of ?m]
  have snd: "Suc (snd q) = length (last (tails w))"
    using end_q new(2) last_chain [OF rk(1), of q] v by (simp add: at_end_def valid_place_def)
  have w': "w' = w\<lparr>memory := (memory w)\<lparr>tail := new_cell (enc k n (Suc ?T))\<rparr>, tails := ?ch,
      tail_known := (tail_known w)(t := newest ?ch), doing := (doing w)(t := Push_Write kd v (enc k n ?T) (?T mod n))\<rparr>"
    using r found end_q snd by (simp add: read_tail_def p tail_found Let_def new(2) growsD(3) [OF G(1), simplified] G(2) [simplified] th)
  have st: "st_at n (memory w) ?T = enc k n ?T" using th(5) by (simp add: seen_free_def)
  note f = tail_slot_free [OF coh st]
  let ?g = "g\<lparr>tl_pos := Suc ?T, end_pos := Suc ?T, val_at := (val_at g)(?T := v)\<rparr>"
  have idle: "claims n g (doing w) t = None" by (simp add: claims_def p)
  have bound: "?T + 2 * n + 2 < turns k n"
    using few growsD(2) [OF G(1)] rk(2) by (simp add: few_pushes_def w')
  have coh': "coherent pr k n ?g (memory w') (doing w') (phs(t := Answered (pushed kd)))"
    using coherent_push [OF coh idle st new(3) bound] by (simp add: w')
  have ends: "chain_ends k n w'"
    unfolding chain_ends_def
  proof (intro allI impI)
    fix p assume "valid_place (tails w') p" "at_end (tails w') p" "Suc (fst p) < length (tails w')"
    then have "valid_place ?ch p" "at_end ?ch p" "Suc (fst p) < length ?ch" by (simp_all add: w')
    note old = append_ends [OF rk(1) this]
    from chain_endsD [OF messages_okD(5) [OF msg] old] growsD(7) [OF G(1) old(1)]
    show "\<not> published (stamps w' (rank (tails w') p mod n)) (enc k n (rank (tails w') p))" by (simp add: w')
  qed
  note grown = tail_grows [OF msg, of ?m w' t ?g]
  have over: "handed_over n ?g w'"
  proof (rule handed_over_same [OF weak_okD(4) [OF ok]])
    show "\<exists>v d. claims n ?g (doing w') v = Some d \<and> d mod n = c mod n" if "claims n g (doing w) u = Some c" for u c
      using that idle by (intro exI [of _ u] exI [of _ c]) (auto simp: claims_def w')
  qed (simp_all add: w')
  have len: "length (contents g) < n" using f(1,2) m(8) by simp
  have c: "contents ?g = contents g @ [v]" by (rule contents_push) (use m(8) f in simp_all)
  have "weak_ok pr k n ?g w' (phs(t := Answered (pushed kd))) (with_length (length (contents ?g)) ls)"
  proof (rule weak_update [OF ok coh' _ over])
    show "messages_ok k n ?g w'" by (rule grown(1)) (use G ends th(3) in \<open>simp_all add: w'\<close>)
    show "doing w' = (doing w)(t := Push_Write kd v (enc k n ?T) (?T mod n))" by (simp add: w')
    show "pos ?g = (pos g)(t := ?T)" using new(3) by auto
    show "informed k n ?g w' (with_length (length (contents ?g)) ls t) t ?T (Push_Write kd v (enc k n ?T) (?T mod n))"
      using clear by (simp add: informed_def cleared_def uses_of_def w')
    show "rank (tails w') (tail_known w' u) = rank (tails w) (tail_known w u) \<and>
      rank (heads w') (head_known w' u) = rank (heads w) (head_known w u) \<and> ls u \<subseteq> with_length (length (contents ?g)) ls u" if "u \<noteq> t" for u
      using growsD(7) [OF G(1) messages_okD(7) [OF msg, of u]] that by (auto simp: w' with_length_def)
  qed (auto simp: w' cleared_def uses_of_def)
  moreover have "fifo_step n (push_op kd v) (contents g) = (pushed kd, contents ?g)" using fifo_push(1) [OF len] c by simp
  ultimately show ?thesis using th(1) unfolding late_moves_def by blast
qed

text \<open>The head has one chain.\<close>

lemma head_exchange_newest:
  assumes msg: "messages_ok k n g w" and q: "valid_place (heads w) q" "at_end (heads w) q"
  shows "q = newest (heads w)" "fst q = length (heads w) - 1" "Suc (snd q) = length (last (heads w))"
    "content (message_at (heads w) q) = enc k n (hd_pos g)"
proof -
  note rk = rankedD [OF messages_okD(2) [OF msg]] and one = messages_okD(3) [OF msg]
  have f: "fst q = 0" using q(1) one by (simp add: valid_place_def)
  then show "fst q = length (heads w) - 1" using one by simp
  have L: "Suc (fst q) = length (heads w)" using f one by simp
  show snd: "Suc (snd q) = length (last (heads w))" using q(2) last_chain [OF rk(1) L] by (simp add: at_end_def)
  then show new: "q = newest (heads w)" using f one by (cases q) (simp add: newest_def)
  show "content (message_at (heads w) q) = enc k n (hd_pos g)" using rk(3) [OF q(1)] rk(6) by (simp add: new)
qed

lemma head_append_length: "length (append_to c m ch) = length ch"
  by (simp add: append_to_def)

lemma pop_cas_step:
  assumes ok: "weak_ok pr k n g w phs ls" and q: "readable (heads w) (head_known w t) q"
    and p: "doing w t = Pop_Cas h nh i bo" and found: "content (message_at (heads w) q) = h" "\<not> sp"
    and r: "read_head pr q sp t w = Some w'"
  shows "late_moves pr k n g phs ls t w'"
proof -
  let ?H = "hd_pos g"
  note coh = weak_okD(1) [OF ok] and mem = weak_okD(2) [OF ok] and msg = weak_okD(3) [OF ok] and m = mem_okD [OF weak_okD(2) [OF ok]]
  note rk = rankedD [OF messages_okD(2) [OF msg]]
  have end_q: "at_end (heads w) q" using r found by (auto simp: read_head_def p head_found split: if_splits)
  have v: "valid_place (heads w) q" using q by (simp add: readable_valid)
  note new = head_exchange_newest [OF msg v end_q]
  have th0: "phs t = Asked Pop" "h = enc k n (pos g t)" "nh = enc k n (Suc (pos g t))" "i = pos g t mod n" "seen_full k n g (memory w) (pos g t)"
    using weak_okD(6) [OF ok, of t] by (simp_all add: p)
  have "enc k n (pos g t) = enc k n ?H" using th0(2) found(1) new(4) by simp
  then have a: "pos g t = ?H" using th0(5) m(8) by (intro same_position [OF mem]) (simp_all add: seen_full_def)
  note th = th0 [unfolded a]
  have clear: "cleared w t (?H mod n)" using weak_okD(8) [OF ok, of t] by (simp add: p a)
  let ?m = "\<lparr>content = enc k n (Suc ?H), carries = {}\<rparr> :: usize message"
  let ?ch = "append_to (length (heads w) - 1) ?m (heads w)"
  note G = grows_append [OF rk(1), of ?m]
  have w': "w' = w\<lparr>memory := (memory w)\<lparr>head := new_cell (enc k n (Suc ?H))\<rparr>, heads := ?ch,
      head_known := (head_known w)(t := newest ?ch), doing := (doing w)(t := Pop_Read (enc k n ?H) (?H mod n))\<rparr>"
    using r found end_q new(3) by (simp add: read_head_def p head_found Let_def new(2) growsD(3) [OF G(1), simplified] G(2) [simplified] th)
  have st: "st_at n (memory w) ?H = enc k n ?H + 1" using th(5) by (simp add: seen_full_def)
  note f = head_slot_full [OF coh st]
  let ?g = "g\<lparr>hd_pos := Suc ?H\<rparr>" and ?a = "Answered (Popped (Some (val_at g ?H)))"
  have idle: "claims n g (doing w) t = None" by (simp add: claims_def p)
  have coh': "coherent pr k n ?g (memory w') (doing w') (phs(t := ?a))"
    using coherent_pop [OF coh idle st a] by (simp add: w')
  note grown = head_grows [OF msg, of ?m w' t ?g]
  have over: "handed_over n ?g w'"
  proof (rule handed_over_same [OF weak_okD(4) [OF ok]])
    show "\<exists>v d. claims n ?g (doing w') v = Some d \<and> d mod n = c mod n" if "claims n g (doing w) u = Some c" for u c
      using that idle by (intro exI [of _ u] exI [of _ c]) (auto simp: claims_def w')
  qed (simp_all add: w')
  have c: "contents g = val_at g ?H # contents ?g" by (rule contents_pop) (use f(1) m(9) in simp)
  have "weak_ok pr k n ?g w' (phs(t := ?a)) (with_length (length (contents ?g)) ls)"
  proof (rule weak_update [OF ok coh' _ over])
    show "messages_ok k n ?g w'"
      by (rule grown(1)) (use G th(3) messages_okD(3) [OF msg] in \<open>simp_all add: w' head_append_length\<close>)
    show "doing w' = (doing w)(t := Pop_Read (enc k n ?H) (?H mod n))" by (simp add: w')
    show "pos ?g = (pos g)(t := ?H)" using a by auto
    show "informed k n ?g w' (with_length (length (contents ?g)) ls t) t ?H (Pop_Read (enc k n ?H) (?H mod n))"
      using clear by (simp add: informed_def cleared_def uses_of_def w')
    show "rank (tails w') (tail_known w' u) = rank (tails w) (tail_known w u) \<and>
      rank (heads w') (head_known w' u) = rank (heads w) (head_known w u) \<and> ls u \<subseteq> with_length (length (contents ?g)) ls u" if "u \<noteq> t" for u
      using growsD(7) [OF G(1) messages_okD(8) [OF msg, of u]] that by (auto simp: w' with_length_def)
  qed (auto simp: w' cleared_def uses_of_def)
  moreover have "fifo_step n Pop (contents g) = (Popped (Some (val_at g ?H)), contents ?g)" using c by simp
  ultimately show ?thesis using th(1) unfolding late_moves_def by blast
qed

section \<open>The replacement of an element\<close>

lemma force_cas_step:
  assumes ok: "weak_ok pr k n g w phs ls" and q: "readable (heads w) (head_known w t) q"
    and p: "doing w t = Push_Full Forcing v tv nt i bo" and found: "content (message_at (heads w) q) = tv - 2 ^ k" "\<not> sp"
    and r: "read_head pr q sp t w = Some w'"
  shows "late_moves pr k n g phs ls t w'"
proof -
  let ?H = "hd_pos g" and ?T = "tl_pos g"
  note coh = weak_okD(1) [OF ok] and mem = weak_okD(2) [OF ok] and msg = weak_okD(3) [OF ok] and m = mem_okD [OF weak_okD(2) [OF ok]]
  note rk = rankedD [OF messages_okD(2) [OF msg]]
  have end_q: "at_end (heads w) q" using r found m(5) by (auto simp: read_head_def p head_found split: if_splits)
  have v: "valid_place (heads w) q" using q by (simp add: readable_valid)
  note new = head_exchange_newest [OF msg v end_q]
  have th0: "phs t = Asked (Force_Push v)" "tv = enc k n (pos g t)" "nt = enc k n (Suc (pos g t))" "i = pos g t mod n"
    "pos g t \<le> ?T" "n \<le> pos g t" "seen_full k n g (memory w) (pos g t - n)"
    using weak_okD(6) [OF ok, of t] by (simp_all add: p push_op_def)
  have lap: "enc k n (pos g t) = enc k n (pos g t - n) + 2 ^ k" using enc_add_lap [OF m(2), of "pos g t - n"] th0(6) by simp
  then have "enc k n (pos g t - n) = enc k n ?H" using th0(2) found(1) new(4) by simp
  then have b: "pos g t - n = ?H" using th0(5) m(8) by (intro same_position [OF mem]) simp_all
  then have a: "pos g t = ?H + n" "?T = ?H + n" "end_pos g = ?T" using th0(5,6) m(9,11) by linarith+
  have aT: "pos g t = ?T" using a by simp
  have nt: "nt - 2 ^ k = enc k n (Suc ?H)" "tv - 2 ^ k = enc k n ?H"
    using enc_add_lap [OF m(2), of "Suc ?H"] enc_add_lap [OF m(2), of ?H] th0(2,3) a(1) by (simp_all add: algebra_simps)
  have clear: "cleared w t (?T mod n)" using weak_okD(8) [OF ok, of t] b aT by (simp add: p)
  have kn: "?T \<le> rank (tails w) (tail_known w t)" using weak_okD(7) [OF ok, of t] by (simp add: p aT)
  let ?m = "\<lparr>content = enc k n (Suc ?H), carries = {}\<rparr> :: usize message"
  let ?ch = "append_to (length (heads w) - 1) ?m (heads w)" and ?p = "Force_Tail v (enc k n ?T) (enc k n (Suc ?T)) (?T mod n)"
  note G = grows_append [OF rk(1), of ?m]
  have w': "w' = w\<lparr>memory := (memory w)\<lparr>head := new_cell (enc k n (Suc ?H))\<rparr>, heads := ?ch,
      head_known := (head_known w)(t := newest ?ch), doing := (doing w)(t := ?p)\<rparr>"
    using r found end_q new(3) nt
    by (simp add: read_head_def p head_found Let_def new(2) growsD(3) [OF G(1), simplified] G(2) [simplified] m(5) th0(2-4) aT)
  have st: "st_at n (memory w) ?H = enc k n ?H + 1" using th0(7) b by (simp add: seen_full_def)
  note f = head_slot_full [OF coh st]
  let ?g = "g\<lparr>hd_pos := Suc ?H, end_pos := Suc ?T, val_at := (val_at g)(?T := v)\<rparr>"
  let ?a = "Answered (given_back Forcing (val_at g ?H))"
  have idle: "claims n g (doing w) t = None" by (simp add: claims_def p)
  have coh': "coherent pr k n ?g (memory w') (doing w') (phs(t := ?a))"
    using coherent_force [OF coh idle st a(1,2)] by (simp add: w')
  note grown = head_grows [OF msg, of ?m w' t ?g]
  have over: "handed_over n ?g w'"
  proof (rule handed_over_same [OF weak_okD(4) [OF ok]])
    show "\<exists>v d. claims n ?g (doing w') v = Some d \<and> d mod n = c mod n" if "claims n g (doing w) u = Some c" for u c
      using that idle by (intro exI [of _ u] exI [of _ c]) (auto simp: claims_def w')
  qed (simp_all add: w')
  have len: "length (contents g) = n" using a by simp
  have c: "contents ?g = tl (contents g) @ [v]" by (rule contents_force) (use f(1) a(3) in simp_all)
  have hd: "hd (contents g) = val_at g ?H" using contents_pop [of g] f(1) m(9) by simp
  have "weak_ok pr k n ?g w' (phs(t := ?a)) (with_length (length (contents ?g)) ls)"
  proof (rule weak_update [OF ok coh' _ over])
    show "messages_ok k n ?g w'"
      by (rule grown(1)) (use G messages_okD(3) [OF msg] in \<open>simp_all add: w' head_append_length\<close>)
    show "doing w' = (doing w)(t := ?p)" by (simp add: w')
    show "pos ?g = (pos g)(t := ?T)" using aT by auto
    show "informed k n ?g w' (with_length (length (contents ?g)) ls t) t ?T ?p"
      using clear kn by (simp add: informed_def cleared_def uses_of_def w')
    show "rank (tails w') (tail_known w' u) = rank (tails w) (tail_known w u) \<and>
      rank (heads w') (head_known w' u) = rank (heads w) (head_known w u) \<and> ls u \<subseteq> with_length (length (contents ?g)) ls u" if "u \<noteq> t" for u
      using growsD(7) [OF G(1) messages_okD(8) [OF msg, of u]] that by (auto simp: w' with_length_def)
  qed (auto simp: w' cleared_def uses_of_def)
  moreover have "fifo_step n (Force_Push v) (contents g) = (given_back Forcing (val_at g ?H), contents ?g)"
    using fifo_push(3) [OF len, of v] c hd by (simp add: push_op_def)
  ultimately show ?thesis using th0(1) unfolding late_moves_def by blast
qed

text \<open>The store to the tail comes after all that is there, as its thread has seen the tail that it replaces.\<close>

lemma stored_tail:
  assumes mem: "mem_ok k n g q"
  shows "cval (tail (snd (q_access pr (Force_Tail v tv nt i) q))) = nt" "fst (q_access pr (Force_Tail v tv nt i) q) = Force_Swap v tv i"
  using mem_okD(7) [OF mem] by (simp_all add: q_access.simps store_def arrive_def put_def new_cell_def)

lemma force_tail_step:
  assumes ok: "weak_ok pr k n g w phs ls" and c: "fst (tail_known w t) < c" "c \<le> length (tails w)"
    and p: "doing w t = Force_Tail v tv nt i" and few: "few_pushes n (store_tail pr c t w)" "2 ^ 63 \<le> turns k n"
  shows "late_moves pr k n g phs ls t (store_tail pr c t w)"
proof -
  let ?T = "tl_pos g" and ?w = "store_tail pr c t w"
  note coh = weak_okD(1) [OF ok] and mem = weak_okD(2) [OF ok] and msg = weak_okD(3) [OF ok] and m = mem_okD [OF weak_okD(2) [OF ok]]
  note rk = rankedD [OF messages_okD(1) [OF msg]]
  have th0: "tv = enc k n (pos g t)" "nt = enc k n (Suc (pos g t))" "i = pos g t mod n" "writing g (pos g t)" "\<not> pos g t < ?T"
    "n \<le> pos g t" "st_at n (memory w) (pos g t) = enc k n (pos g t - n) + 1"
    using weak_okD(6) [OF ok, of t] by (simp_all add: p)
  have a: "pos g t = ?T" "end_pos g = Suc ?T" using th0(4,5) m(10) by (auto simp: writing_def)
  note th = th0 [unfolded a(1)]
  have clear: "cleared w t (?T mod n)" using weak_okD(8) [OF ok, of t] by (simp add: p a)
  have "?T \<le> rank (tails w) (tail_known w t)" using weak_okD(7) [OF ok, of t] by (simp add: p a(1))
  then have "tail_known w t = newest (tails w)"
    using rk(4,5) [OF messages_okD(7) [OF msg, of t]] by simp
  then have cl: "c = length (tails w)" using c newest_place(4) [OF rk(1)] by simp
  let ?m = "\<lparr>content = enc k n (Suc ?T), carries = {}\<rparr> :: usize message" and ?p = "Force_Swap v (enc k n ?T) (?T mod n)"
  let ?ch = "insert_chain (length (tails w)) ?m (tails w)"
  note G = grows_insert [OF rk(1), of ?m]
  have "shifted (length (tails w)) (tail_known w u) = tail_known w u" for u
    using messages_okD(7) [OF msg, of u] by (simp add: shifted_def valid_place_def not_le [symmetric])
  then have old: "(\<lambda>u. if u = t then (length (tails w), 0) else shifted (length (tails w)) (tail_known w u)) =
      (tail_known w)(t := (length (tails w), 0))" by auto
  obtain mem1 where acc: "q_access pr (Force_Tail v tv nt i) (memory w) = (Force_Swap v tv i, mem1)" "cval (tail mem1) = nt"
    using stored_tail [OF mem, where pr = pr and v = v and tv = tv and nt = nt and i = i] by (metis prod.collapse)
  have w': "?w = w\<lparr>memory := (memory w)\<lparr>tail := new_cell (enc k n (Suc ?T))\<rparr>, tails := ?ch,
      tail_known := (tail_known w)(t := newest ?ch), doing := (doing w)(t := ?p)\<rparr>"
    by (simp add: store_tail_def p acc [unfolded th(1-3)] Let_def cl growsD(3) [OF G(1)] G(2) th(1-3) old)
  let ?g = "g\<lparr>tl_pos := Suc ?T\<rparr>"
  have cl_t: "claims n g (doing w) t = Some ?T" by (simp add: claims_def p a)
  have bound: "?T + 2 * n + 2 < turns k n"
    using few growsD(2) [OF G(1)] rk(2) by (simp add: few_pushes_def w')
  have coh': "coherent pr k n ?g (memory ?w) (doing ?w) phs"
    using coherent_force_tail [OF coh p bound] by (simp add: w' th)
  have unpublished: "\<not> published (stamps w (?T mod n)) (enc k n ?T)"
  proof
    assume "published (stamps w (?T mod n)) (enc k n ?T)"
    then obtain x where x: "valid_place (stamps w (?T mod n)) x" "content (message_at (stamps w (?T mod n)) x) = enc k n ?T"
      by (auto simp: published_def)
    have j: "?T mod n < n" using m(3) by simp
    show False
    proof (cases "x = newest (stamps w (?T mod n))")
      case True
      with x(2) newest_stamp [OF msg m(3), of ?T] th(7) enc_back_ne [OF m(2) th(6)] show False by simp
    next
      case False
      with outdated_stamp(1) [OF mem messages_okD(12) [OF msg j x(1) False]] x(2) show False by simp
    qed
  qed
  have ends: "chain_ends k n ?w"
    unfolding chain_ends_def
  proof (intro allI impI)
    fix x assume x: "valid_place (tails ?w) x" "at_end (tails ?w) x" "Suc (fst x) < length (tails ?w)"
    then have x': "fst x < length (tails w)" "valid_place (tails w) x" "at_end (tails w) x"
      by (auto simp: w' insert_at_end valid_place_def at_end_def nth_append)
    have r: "rank (tails ?w) x = rank (tails w) x" using growsD(7) [OF G(1) x'(2)] by (simp add: w')
    show "\<not> published (stamps ?w (rank (tails ?w) x mod n)) (enc k n (rank (tails ?w) x))"
    proof (cases "Suc (fst x) < length (tails w)")
      case True
      with chain_endsD [OF messages_okD(5) [OF msg] x'(2,3)] r show ?thesis by (simp add: w')
    next
      case False
      then have L: "Suc (fst x) = length (tails w)" using x'(1) by simp
      have "snd x = length (last (tails w)) - 1" using x'(3) last_chain [OF rk(1) L] by (simp add: at_end_def)
      then have "x = newest (tails w)" using L by (cases x) (simp add: newest_def)
      with r rk(6) have "rank (tails ?w) x = ?T" by simp
      with unpublished show ?thesis by (simp add: w')
    qed
  qed
  note grown = tail_grows [OF msg, of ?m ?w t ?g]
  have over: "handed_over n ?g ?w"
  proof (rule handed_over_same [OF weak_okD(4) [OF ok]])
    show "\<exists>v d. claims n ?g (doing ?w) v = Some d \<and> d mod n = c mod n" if "claims n g (doing w) u = Some c" for u c
      using that cl_t a(1) by (intro exI [of _ u] exI [of _ c]) (auto simp: claims_def w')
  qed (simp_all add: w')
  have "weak_ok pr k n ?g ?w phs ls"
  proof (rule weak_update [OF ok coh' _ over])
    show "messages_ok k n ?g ?w" by (rule grown(1)) (use G ends in \<open>simp_all add: w'\<close>)
    show "doing ?w = (doing w)(t := ?p)" by (simp add: w')
    show "pos ?g = (pos g)(t := ?T)" using a by auto
    show "informed k n ?g ?w (ls t) t ?T ?p" using clear by (simp add: informed_def cleared_def uses_of_def w')
    show "rank (tails ?w) (tail_known ?w u) = rank (tails w) (tail_known w u) \<and>
      rank (heads ?w) (head_known ?w u) = rank (heads w) (head_known w u) \<and> ls u \<subseteq> ls u" if "u \<noteq> t" for u
      using growsD(7) [OF G(1) messages_okD(7) [OF msg, of u]] that by (auto simp: w')
  qed (auto simp: w' cleared_def uses_of_def)
  moreover have "contents ?g = contents g" by (simp add: contents_def)
  ultimately show ?thesis unfolding late_moves_def by (intro exI [of _ ?g] exI [of _ "phs t"] exI [of _ ls]) simp
qed

section \<open>A thread's own slot\<close>

lemma value_step:
  assumes ok: "weak_ok pr k n g w phs ls" and cl: "claims n g (doing w) t = Some c" "claim n p' (pos g t) = Some c"
    and coh: "coherent pr k n g mem ((doing w)(t := p')) phs"
    and mem: "\<And>j. stamp (buffer mem ! j) = stamp (buffer (memory w) ! j)" and kn: "\<And>w'. knows k n w' (ls t) t (pos g t) p'"
  shows "late_moves pr k n g phs ls t (w\<lparr>memory := mem, touched := touched w @ [c mod n],
    heard := (heard w)(t := insert (length (touched w)) (heard w t)), doing := (doing w)(t := p')\<rparr>)"
    (is "late_moves _ _ _ _ _ _ _ ?w")
proof -
  note coh0 = weak_okD(1) [OF ok] and msg = weak_okD(3) [OF ok]
  have uses: "uses_of ?w j = (if j = c mod n then insert (length (touched w)) (uses_of w j) else uses_of w j)" for j
    by (auto simp: uses_of_def nth_append less_Suc_eq)
  have "claim n (doing w t) (pos g t) = Some c" using cl(1) by (simp add: claims_def)
  then have clear: "cleared w t (c mod n)" by (intro weak_okD(8) [OF ok] slot_of_claim)
  have "messages_ok k n g ?w"
    using msg mem by (simp add: messages_ok_def stamps_ok_def chain_ends_def known_places_def)
  moreover have "handed_over n g ?w"
    unfolding handed_over_def
  proof (intro allI impI)
    fix j assume j: "j < n" "\<forall>u d. claims n g (doing ?w) u = Some d \<longrightarrow> d mod n \<noteq> j"
    have ne: "j \<noteq> c mod n" using j(2) [rule_format, of t c] cl(2) by (simp add: claims_def)
    have "d mod n \<noteq> j" if "claims n g (doing w) u = Some d" for u d
      using j(2) [rule_format, of u d] that cl ne by (cases "u = t") (auto simp: claims_def)
    with weak_okD(4) [OF ok] j(1) uses ne show "uses_of ?w j \<subseteq> carries (latest (stamps ?w j))"
      by (simp add: handed_over_def)
  qed
  moreover have "informed k n g ?w (ls t) t (pos g t) p'"
    using clear kn cl(2) slot_of_claim [OF cl(2), of g] by (auto simp: informed_def cleared_def uses)
  moreover have "cleared ?w u j" if "u \<noteq> t" "relies n g (pos g u) (doing w u) = Some j" "cleared w u j" for u j
  proof -
    have "j \<noteq> c mod n" using relies_sole [OF coh0 that(2) cl(1)] that(1) by auto
    with that show ?thesis by (simp add: cleared_def uses)
  qed
  ultimately have "weak_ok pr k n g ?w phs ls"
    using coh by (intro weak_update [OF ok, where t = t and a' = "pos g t" and p' = p']) auto
  then show ?thesis unfolding late_moves_def by (intro exI [of _ g] exI [of _ "phs t"] exI [of _ ls]) simp
qed

lemma use_value_step:
  assumes ok: "weak_ok pr k n g w phs ls" and v: "variable_of (memory w) (doing w t) = Some (The_Value i)"
  shows "late_moves pr k n g phs ls t (use_value pr i t w)"
proof -
  let ?a = "pos g t"
  note coh = weak_okD(1) [OF ok] and mem = weak_okD(2) [OF ok] and m = mem_okD [OF weak_okD(2) [OF ok]]
  note th = weak_okD(6) [OF ok, of t] and frame = slot_frame [OF weak_okD(2) [OF ok]]
  have st: "stamp (buffer (write_value j x (memory w)) ! l) = stamp (buffer (memory w) ! l)" for j x l
    by (cases "j < length (buffer (memory w))"; cases "l = j") (auto simp: write_value_def upd_slot_def list_update_beyond not_less)
  from v consider kd x tv where "doing w t = Push_Write kd x tv i" | x tv where "doing w t = Force_Swap x tv i"
    | h where "doing w t = Pop_Read h i"
    by (cases "doing w t") auto
  then show ?thesis
  proof cases
    case (1 kd x tv)
    have a: "tv = enc k n ?a" "i = ?a mod n" using th by (simp_all add: 1)
    have cl: "claims n g (doing w) t = Some ?a" by (simp add: claims_def 1)
    have "coherent pr k n g (write_value i x (memory w)) ((doing w)(t := Push_Publish kd (enc k n ?a + 1) i)) phs"
      by (rule coherent_value [OF coh cl, where v = x]) (use th in \<open>simp_all add: 1 frame\<close>)
    from value_step [OF ok cl _ this st] show ?thesis
      by (simp add: use_value_def 1 a q_access.simps checked_enc [OF m(2)])
  next
    case (2 x tv)
    obtain old where a: "tv = enc k n ?a" "i = ?a mod n" "vl_at n (memory w) ?a = Some old" using th by (auto simp: 2)
    have cl: "claims n g (doing w) t = Some ?a" by (simp add: claims_def 2)
    have "coherent pr k n g (write_value i x (memory w)) ((doing w)(t := Force_Publish old (enc k n ?a + 1) i)) phs"
      by (rule coherent_value [OF coh cl, where v = x]) (use th a(3) in \<open>simp_all add: 2 frame\<close>)
    from value_step [OF ok cl _ this st] a(3) show ?thesis
      by (simp add: use_value_def 2 a(1,2) q_access.simps checked_enc [OF m(2)] read_value_def vl_at_def)
  next
    case (3 h)
    obtain x where a: "h = enc k n ?a" "i = ?a mod n" "vl_at n (memory w) ?a = Some x" using th by (auto simp: 3)
    have cl: "claims n g (doing w) t = Some (?a + n)" by (simp add: claims_def 3)
    have "coherent pr k n g (memory w) ((doing w)(t := Pop_Publish x h i)) phs"
      by (rule coherent_value [OF coh cl]) (use th a(3) in \<open>auto simp: 3\<close>)
    from value_step [OF ok cl _ this refl] a(3) show ?thesis
      by (simp add: use_value_def 3 a(2) q_access.simps read_value_def vl_at_def)
  qed
qed

text \<open>The store of a stamp.\<close>

lemma coherent_same:
  assumes "coherent pr k n g q pts phs" "mem_ok k n g q'" "st_at n q' = st_at n q" "vl_at n q' = vl_at n q"
  shows "coherent pr k n g q' pts phs"
proof -
  have "thread_ok pr k n g q' a ph p = thread_ok pr k n g q a ph p" for a ph p
    using assms(3,4) by (cases p) (simp_all add: seen_free_def seen_full_def)
  moreover have "slot_fits k n g q' c = slot_fits k n g q c" for c using assms(3,4) by (simp add: slot_fits_def)
  ultimately show ?thesis using assms(1,2) unfolding coherent_def by simp
qed

lemma stamp_cells:
  fixes q :: "'a array_queue"
  assumes "mem_ok k n g q" "j < n"
  shows "mem_ok k n g (set_stamp j v q)" "st_at n (set_stamp j v q) = st_at n (store_stamp j v q)"
    "vl_at n (set_stamp j v q) = vl_at n (store_stamp j v q)" "cval (stamp (buffer (store_stamp j v q) ! j)) = v"
    "cval (stamp (buffer (set_stamp j v q) ! l)) = (if l = j then v else cval (stamp (buffer q ! l)))"
proof -
  note m = mem_okD [OF assms(1)]
  show "mem_ok k n g (set_stamp j v q)"
    using assms m(3,4) by (auto simp: mem_ok_def shape_def set_stamp_def upd_slot_def nth_list_update new_cell_def)
  have lt: "d mod n < length (buffer q)" for d using m(3,4) by simp
  show "st_at n (set_stamp j v q) = st_at n (store_stamp j v q)" "vl_at n (set_stamp j v q) = vl_at n (store_stamp j v q)"
    using lt assms(2) m(13) [of j] m(4)
    by (auto simp: fun_eq_iff st_at_def vl_at_def set_stamp_def store_stamp_def upd_slot_def nth_list_update accesses_empty_env new_cell_def)
  show "cval (stamp (buffer (store_stamp j v q) ! j)) = v"
    "cval (stamp (buffer (set_stamp j v q) ! l)) = (if l = j then v else cval (stamp (buffer q ! l)))"
    using assms(2) m(4) m(13) [of j] by (auto simp: set_stamp_def store_stamp_def upd_slot_def accesses_empty_env new_cell_def)
qed

lemma publish_step:
  fixes w :: "'a weak_queue"
  assumes ok: "weak_ok pr k n g w phs ls" and cl: "claims n g (doing w) t = Some c" "c mod n = j" "claim n p' (pos g t) = None"
    and acc: "q_access pr (doing w t) (memory w) = (p', store_stamp j v (memory w))"
    and coh: "coherent pr k n g (store_stamp j v (memory w)) ((doing w)(t := p')) phs"
    and place: "fst (stamp_known w t j) < x" "x \<le> length (stamps w j)"
    and out: "outdated k n g j (st_at n (memory w) c)" and fresh: "\<And>r. r < tl_pos g \<Longrightarrow> r mod n = j \<Longrightarrow> v \<noteq> enc k n r"
    and kn: "\<And>w'. knows k n w' (ls t) t (pos g t) p'" "relies n g (pos g t) p' = None"
  shows "late_moves pr k n g phs ls t (publish_stamp pr j x t w)" (is "late_moves _ _ _ _ _ _ _ ?w")
proof -
  note coh0 = weak_okD(1) [OF ok] and mem = weak_okD(2) [OF ok] and msg = weak_okD(3) [OF ok] and m = mem_okD [OF weak_okD(2) [OF ok]]
  have j: "j < n" using cl(2) m(3) by auto
  note wf = messages_okD(10) [OF msg j] and cells = stamp_cells [OF mem j, of v]
  have "claim n (doing w t) (pos g t) = Some c" using cl(1) by (simp add: claims_def)
  then have clear: "cleared w t j" using weak_okD(8) [OF ok slot_of_claim] cl(2) by blast
  then have x: "x = length (stamps w j)" using place newest_place(4) [OF wf] by (simp add: cleared_def)
  let ?m = "\<lparr>content = v, carries = heard w t\<rparr> :: usize message"
  let ?ch = "insert_chain (length (stamps w j)) ?m (stamps w j)"
  note G = grows_insert [OF wf, of ?m]
  have old: "shifted (length (stamps w j)) (stamp_known w u j) = stamp_known w u j" for u
    using messages_okD(9) [OF msg j, of u] by (simp add: shifted_def valid_place_def not_le [symmetric])
  have known: "(\<lambda>u. (stamp_known w u)(j := (if u = t then (x, 0) else shifted x (stamp_known w u j)))) =
      (\<lambda>u. if u = t then (stamp_known w t)(j := newest ?ch) else stamp_known w u)"
    using old by (auto simp: G(2) fun_eq_iff x)
  have w': "?w = w\<lparr>memory := set_stamp j v (memory w), stamps := (stamps w)(j := ?ch),
      stamp_known := (\<lambda>u. if u = t then (stamp_known w t)(j := newest ?ch) else stamp_known w u), doing := (doing w)(t := p')\<rparr>"
    unfolding publish_stamp_def acc prod.case known Let_def
    by (simp add: cells(4) queue_orders x growsD(3) [OF G(1)])
  have coh': "coherent pr k n g (memory ?w) (doing ?w) phs"
    using coherent_same [OF coh cells(1-3)] by (simp add: w')
  have pub: "published (stamps ?w l) y \<longleftrightarrow> published (stamps w l) y \<or> l = j \<and> y = v" for l y
  proof (cases "l = j")
    case True
    have "published ?ch y \<longleftrightarrow> published (stamps w j) y \<or> y = v"
      using growsD(4,6,8) [OF G(1)] newest_place(1,3) [OF growsD(1) [OF G(1)]] growsD(3) [OF G(1)]
      unfolding published_def by (metis message.select_convs(1))
    with True show ?thesis by (simp add: w')
  qed (simp add: w')
  have "stamps_ok k n g ?w l" if l: "l < n" for l
  proof (cases "l = j")
    case True
    have "outdated k n g j (content (message_at ?ch p))" if p: "valid_place ?ch p" "p \<noteq> newest ?ch" for p
    proof -
      have p': "valid_place (stamps w j) p" "message_at ?ch p = message_at (stamps w j) p"
        using growsD(6,8) [OF G(1)] p by blast+
      show ?thesis
      proof (cases "p = newest (stamps w j)")
        case True
        have "content (message_at (stamps w j) p) = st_at n (memory w) c"
          using newest_stamp [OF msg m(3), of c] cl(2) True by simp
        with out p'(2) show ?thesis by simp
      qed (use messages_okD(12) [OF msg j p'(1)] p'(2) in simp)
    qed
    with True growsD(1,3) [OF G(1)] show ?thesis by (simp add: stamps_ok_def w' cells(5))
  next
    case False
    with messages_okD(10-12) [OF msg l] show ?thesis by (simp add: stamps_ok_def w' cells(5))
  qed
  moreover have "chain_ends k n ?w"
    unfolding chain_ends_def
  proof (intro allI impI)
    fix p assume p: "valid_place (tails ?w) p" "at_end (tails ?w) p" "Suc (fst p) < length (tails ?w)"
    then have p': "valid_place (tails w) p" "at_end (tails w) p" "Suc (fst p) < length (tails w)" by (simp_all add: w')
    note rk = rankedD [OF messages_okD(1) [OF msg]]
    have "p \<noteq> newest (tails w)" using newest_place(4) [OF rk(1)] p'(3) by auto
    then have "rank (tails w) p < tl_pos g" using rk(4,5) [OF p'(1)] by simp
    with fresh chain_endsD [OF messages_okD(5) [OF msg] p']
    show "\<not> published (stamps ?w (rank (tails ?w) p mod n)) (enc k n (rank (tails ?w) p))"
      unfolding pub by (auto simp: w')
  qed
  moreover have "known_places n ?w u" for u
    using messages_okD(7-9) [OF msg, of u] messages_okD(9) [OF msg, where t = u] growsD(1,4) [OF G(1)] newest_place(1) [OF growsD(1) [OF G(1)]]
    by (auto simp: known_places_def w')
  ultimately have msg': "messages_ok k n g ?w" using msg by (simp add: messages_ok_def w')
  have "handed_over n g ?w"
    unfolding handed_over_def
  proof (intro allI impI)
    fix l assume l: "l < n" "\<forall>u d. claims n g (doing ?w) u = Some d \<longrightarrow> d mod n \<noteq> l"
    show "uses_of ?w l \<subseteq> carries (latest (stamps ?w l))"
    proof (cases "l = j")
      case True
      with clear growsD(3) [OF G(1)] show ?thesis by (simp add: w' cleared_def uses_of_def)
    next
      case False
      have "d mod n \<noteq> l" if "claims n g (doing w) u = Some d" for u d
        using l(2) [rule_format, of u d] that cl(1,2) False by (cases "u = t") (auto simp: claims_def w')
      with weak_okD(4) [OF ok] l(1) False show ?thesis by (simp add: handed_over_def uses_of_def w')
    qed
  qed
  moreover have "cleared ?w u l" if "u \<noteq> t" "relies n g (pos g u) (doing w u) = Some l" "cleared w u l" for u l
  proof -
    have "l \<noteq> j" using relies_sole [OF coh0 that(2) cl(1)] that(1) cl(2) by auto
    with that show ?thesis by (simp add: cleared_def uses_of_def w')
  qed
  ultimately have "weak_ok pr k n g ?w phs ls"
    using kn pub by (intro weak_update [OF ok coh' msg', where t = t and a' = "pos g t" and p' = p']) (auto simp: w' informed_def)
  then show ?thesis unfolding late_moves_def by (intro exI [of _ g] exI [of _ "phs t"] exI [of _ ls]) simp
qed

lemma publish_stamp_step:
  assumes ok: "weak_ok pr k n g w phs ls" and s: "plain_store (doing w t)" and v: "variable_of (memory w) (doing w t) = Some (The_Stamp i)"
    and place: "fst (stamp_known w t i) < x" "x \<le> length (stamps w i)"
  shows "late_moves pr k n g phs ls t (publish_stamp pr i x t w)"
proof -
  let ?a = "pos g t"
  note coh = weak_okD(1) [OF ok] and mem = weak_okD(2) [OF ok] and m = mem_okD [OF weak_okD(2) [OF ok]]
  note th = weak_okD(6) [OF ok, of t] and frame = slot_frame [OF weak_okD(2) [OF ok]]
  have no: "enc k n ?a + 1 \<noteq> enc k n r" if "r mod n = ?a mod n" for r using enc_plus_1_ne [OF m(2)] that by metis
  from s v consider kd st where "doing w t = Push_Publish kd st i" | old st where "doing w t = Force_Publish old st i"
    | y h where "doing w t = Pop_Publish y h i"
    by (cases "doing w t") auto
  then show ?thesis
  proof cases
    case (1 kd st)
    have a: "st = enc k n ?a + 1" "i = ?a mod n" "st_at n (memory w) ?a = enc k n ?a" "?a < tl_pos g" using th by (simp_all add: 1)
    have cl: "claims n g (doing w) t = Some ?a" by (simp add: claims_def 1)
    have "coherent pr k n g (store_stamp (?a mod n) st (memory w)) ((doing w)(t := Returns (pushed kd))) phs"
      by (rule coherent_publish [OF coh cl]) (use th in \<open>simp_all add: 1 frame slot_fits_def writing_def\<close>)
    from publish_step [OF ok cl a(2) [symmetric] _ _ this [folded a(2)] place] no a show ?thesis
      by (auto simp: 1 q_access.simps outdated_def)
  next
    case (2 old st)
    have a: "st = enc k n ?a + 1" "i = ?a mod n" "st_at n (memory w) ?a = enc k n (?a - n) + 1" "n \<le> ?a" using th by (simp_all add: 2)
    have cl: "claims n g (doing w) t = Some ?a" by (simp add: claims_def 2)
    have "?a - n < hd_pos g" using claimed_window [OF coh cl] a(4) m(3) by (auto simp: in_window_def)
    then have out: "outdated k n g i (st_at n (memory w) ?a)"
      using a(2,3) back_a_lap [OF a(4)] by (auto simp: outdated_def)
    have "coherent pr k n g (store_stamp (?a mod n) st (memory w)) ((doing w)(t := Returns (given_back Forcing old))) phs"
      by (rule coherent_publish [OF coh cl]) (use th in \<open>simp_all add: 2 frame slot_fits_def writing_def\<close>)
    from publish_step [OF ok cl a(2) [symmetric] _ _ this [folded a(2)] place out] no a show ?thesis
      by (auto simp: 2 q_access.simps)
  next
    case (3 y h)
    have a: "h = enc k n ?a" "i = (?a + n) mod n" "st_at n (memory w) ?a = enc k n ?a + 1" "?a < hd_pos g" "end_pos g \<le> ?a + n"
      using th by (simp_all add: 3 reading_def)
    have cl: "claims n g (doing w) t = Some (?a + n)" by (simp add: claims_def 3)
    have out: "outdated k n g i (st_at n (memory w) (?a + n))" using a by (auto simp: outdated_def)
    have "enc k n (?a + n) \<noteq> enc k n r" if "r < tl_pos g" for r
    proof
      assume e: "enc k n (?a + n) = enc k n r"
      have "?a + n = r" using that a(4) m(8) by (intro same_position [OF mem e]) simp_all
      with that a(5) m(9) show False by simp
    qed
    moreover have "coherent pr k n g (store_stamp ((?a + n) mod n) (h + 2 ^ k) (memory w)) ((doing w)(t := Returns (Popped (Some y)))) phs"
      by (rule coherent_publish [OF coh cl])
        (use th in \<open>simp_all add: 3 frame [where c = "?a + n", simplified] slot_fits_def reading_def enc_add_lap [OF m(2)]\<close>)
    ultimately show ?thesis
      using publish_step [OF ok cl a(2) [symmetric] _ _ _ place out, where v = "h + 2 ^ k" and p' = "Returns (Popped (Some y))"] a
      by (simp add: 3 q_access.simps m(5) enc_add_lap [OF m(2)])
  qed
qed

end
