(* ===== verification/Queue_Weak.thy ===== *)
theory Queue_Weak
  imports Queue_Writes
begin

text \<open>
  The queue with the memory orderings of the code is linearizable and guards its values: each access is a step of the queue with
  hindsight (\<open>Late_Queue\<close>), whose events are those of an atomic queue.
\<close>

section \<open>Every access\<close>

lemma atomic_access:
  assumes ok: "weak_ok pr k n g w phs ls" and step: "weak_atomic pr q sp t w = Some w'"
    and few: "few_pushes n w'" "2 ^ 63 \<le> turns k n" and now: "\<And>opn. phs t = Asked opn \<Longrightarrow> length (contents g) \<in> ls t"
  shows "late_moves pr k n g phs ls t w'"
proof -
  note mem = weak_okD(2) [OF ok] and th = weak_okD(6) [OF ok, of t]
  show ?thesis
  proof (cases "variable_of (memory w) (doing w t)")
    case (Some x)
    show ?thesis
    proof (cases x)
      case The_Tail
      show ?thesis
      proof (cases "plain_store (doing w t)")
        case True
        with The_Tail Some obtain v tv nt i where p: "doing w t = Force_Tail v tv nt i" by (cases "doing w t") auto
        from step have "store_place (tails w) (tail_known w t) q" "w' = store_tail pr (fst q) t w"
          by (auto simp: weak_atomic_def p split: if_splits)
        with force_tail_step [OF ok _ _ p] few show ?thesis by (auto simp: store_place_def)
      next
        case False
        with step Some The_Tail have r: "readable (tails w) (tail_known w t) q" "read_tail pr q sp t w = Some w'"
          by (auto simp: weak_atomic_def split: if_splits)
        from False Some The_Tail consider kd v bo h where "doing w t = Push_Load kd v \<or> doing w t = Push_Reload kd v bo \<or> doing w t = Pop_Tail h bo"
          | kd v tv nt i bo where "doing w t = Push_Cas kd v tv nt i bo"
          by (cases "doing w t") auto
        then show ?thesis
        proof cases
          case 1
          from read_tail_loads [OF ok r(1) 1 r(2)] show ?thesis .
        next
          case 2
          from push_cas_step [OF ok r(1) 2 _ _ r(2) few] read_tail_fails [OF ok r(1) 2 _ r(2)] show ?thesis by blast
        qed
      qed
    next
      case The_Head
      with step Some have r: "readable (heads w) (head_known w t) q" "read_head pr q sp t w = Some w'"
        by (auto simp: weak_atomic_def split: if_splits)
      from Some The_Head consider bo where "doing w t = Pop_Load \<or> doing w t = Pop_Reload bo"
        | h nh i bo where "doing w t = Pop_Cas h nh i bo" | kd v tv nt i bo where "doing w t = Push_Full kd v tv nt i bo"
        by (cases "doing w t") auto
      then show ?thesis
      proof cases
        case 1
        with read_head_loads [OF ok r(1) _ r(2)] show ?thesis by blast
      next
        case 2
        from pop_cas_step [OF ok r(1) 2 _ _ r(2)] read_head_loads [OF ok r(1) _ r(2)] 2 show ?thesis by blast
      next
        case (3 kd v tv nt i bo)
        from read_head_full [OF ok r(1) 3 _ r(2)] force_cas_step [OF ok r(1) _ _ _ r(2)] 3 show ?thesis
          by (cases kd) blast+
      qed
    next
      case (The_Stamp i)
      show ?thesis
      proof (cases "plain_store (doing w t)")
        case True
        with step Some The_Stamp have "store_place (stamps w i) (stamp_known w t i) q" "w' = publish_stamp pr i (fst q) t w"
          by (auto simp: weak_atomic_def split: if_splits)
        with publish_stamp_step [OF ok True] Some The_Stamp show ?thesis by (simp add: store_place_def)
      next
        case False
        with step Some The_Stamp have r: "valid_place (stamps w i) q" "w' = read_stamp pr i q t w"
          by (auto simp: weak_atomic_def readable_valid split: if_splits)
        from False Some The_Stamp consider kd v tv bo where "doing w t = Push_Stamp kd v tv bo" | h bo where "doing w t = Pop_Stamp h bo"
          by (cases "doing w t") auto
        then show ?thesis
        proof cases
          case (1 kd v tv bo)
          have "i = pos g t mod n" using Some The_Stamp th stamp_found(3) [OF mem, where a = "pos g t"] by (simp add: 1)
          from push_stamp_step [OF ok r(1) 1 this now] r(2) show ?thesis by simp
        next
          case (2 h bo)
          have "i = pos g t mod n" using Some The_Stamp th stamp_found(4) [OF mem, where a = "pos g t"] by (simp add: 2)
          from pop_stamp_step [OF ok r(1) 2 this now] r(2) show ?thesis by simp
        qed
      qed
    next
      case The_Value
      with step Some show ?thesis by (simp add: weak_atomic_def)
    qed
  qed (use step in \<open>simp add: weak_atomic_def\<close>)
qed

section \<open>The simulation\<close>

definition weak_glue :: "profile \<Rightarrow> nat \<Rightarrow> 'a weak_queue \<Rightarrow> 'a late_queue \<Rightarrow> bool" where
  "weak_glue pr n w l \<longleftrightarrow> (\<exists>k g. weak_ok pr k n g w (phases (queue l)) (lengths l) \<and> items (queue l) = contents g \<and>
     events (queue l) = called w \<and> 2 ^ 63 \<le> turns k n)"

lemma weak_glueI:
  "weak_ok pr k n g w (phases (queue l)) (lengths l) \<Longrightarrow> items (queue l) = contents g \<Longrightarrow> events (queue l) = called w \<Longrightarrow>
     2 ^ 63 \<le> turns k n \<Longrightarrow> weak_glue pr n w l"
  unfolding weak_glue_def by blast

lemma first_places: "valid_place (first_message v) p \<longleftrightarrow> p = (0, 0)"
  by (cases p) (auto simp: valid_place_def first_message_def less_Suc_eq)

lemma first_facts:
  "wf_chains (first_message v)" "newest (first_message v) = (0, 0)" "content (latest (first_message v)) = v"
  "messages_in (first_message v) = 1" "rank (first_message v) (0, 0) = 0" "length (first_message v) = 1"
  "content (message_at (first_message v) (0, 0)) = v"
  by (simp_all add: first_message_def wf_chains_def newest_def latest_def messages_in_def rank_def message_at_def)

definition weak_starts :: "profile \<Rightarrow> usize \<Rightarrow> 'a weak_queue \<Rightarrow> bool" where
  "weak_starts pr C w \<longleftrightarrow> weak_fresh pr C w \<and> few_pushes (unat C) w"

definition weak_bounded :: "profile \<Rightarrow> usize \<Rightarrow> 'a weak_queue \<Rightarrow> 'a weak_queue \<Rightarrow> bool" where
  "weak_bounded pr C w w' \<longleftrightarrow> weak_step pr w w' \<and> few_pushes (unat C) w'"

lemma weak_glue_start:
  assumes "weak_starts pr C (w :: 'a weak_queue)"
  shows "\<exists>l. late_init (unat C) l \<and> weak_glue pr (unat C) w l"
proof -
  obtain q :: "'a array_queue" where q: "new_queue pr C = Inr q" "w = weak_start q" and small: "2 * unat C + 1 < 2 ^ 63"
    using assms by (auto simp: weak_starts_def weak_fresh_def few_pushes_def weak_start_def first_facts)
  let ?n = "unat C" and ?g = "\<lparr>hd_pos = 0, tl_pos = 0, end_pos = 0, val_at = undefined, pos = (\<lambda>_. 0)\<rparr> :: 'a ghost"
  have n: "0 < ?n" using q(1) by (auto simp: new_queue_def unat_gt_0)
  obtain k where k: "2 ^ 63 \<le> turns k ?n" "coherent pr k ?n ?g q (\<lambda>_. Q_Idle) (\<lambda>_. Free)"
    using new_queue_coherent [OF q(1) small] by blast
  note m = mem_okD [OF coherentD(1) [OF k(2)]]
  let ?s = "\<lparr>items = [], phases = (\<lambda>_. Free), events = [], log = []\<rparr> :: 'a atomic_queue"
  have "messages_ok k ?n ?g w"
    using m(6,7) by (simp add: q(2) weak_start_def messages_ok_def ranked_def stamps_ok_def chain_ends_def known_places_def
        first_places first_facts new_cell_def)
  moreover have "handed_over ?n ?g w" by (simp add: handed_over_def uses_of_def q(2) weak_start_def)
  ultimately have "weak_ok pr k ?n ?g w (\<lambda>_. Free) (\<lambda>_. {})"
    using k(2) by (simp add: weak_ok_def informed_def q(2) weak_start_def)
  moreover have "contents ?g = []" by (simp add: contents_def)
  ultimately have "weak_glue pr ?n w \<lparr>queue = ?s, lengths = (\<lambda>_. {})\<rparr>"
    using k(1) by (intro weak_glueI [where k = k and g = ?g]) (simp_all add: q(2) weak_start_def)
  moreover have "late_init ?n \<lparr>queue = ?s, lengths = (\<lambda>_. {})\<rparr>" using n by (simp add: late_init_def idle_queue_def)
  ultimately show ?thesis by blast
qed

text \<open>An access is no step, or the one where its call takes effect, or is refused.\<close>

lemma late_moves_step:
  assumes glue: "weak_ok pr k n g w (phases (queue l)) (lengths l)" "items (queue l) = contents g" "events (queue l) = called w" "2 ^ 63 \<le> turns k n"
    and move: "late_moves pr k n g (phases (queue l)) (lengths l) t w'" and same: "called w' = called w"
  shows "\<exists>l'. (late_step n)\<^sup>*\<^sup>* l l' \<and> weak_glue pr n w' l'"
proof -
  let ?s = "queue l" and ?ls = "lengths l"
  have l: "l = \<lparr>queue = ?s, lengths = ?ls\<rparr>" by simp
  obtain g' ph' ls' where g': "weak_ok pr k n g' w' ((phases ?s)(t := ph')) ls'"
    and e: "ph' = phases ?s t \<and> contents g' = contents g \<and> ls' = ?ls \<or>
      (\<exists>opn a. phases ?s t = Asked opn \<and> ph' = Answered a \<and> fifo_step n opn (contents g) = (a, contents g') \<and>
        ls' = with_length (length (contents g')) ?ls) \<or>
      (\<exists>opn a x. phases ?s t = Asked opn \<and> ph' = Answered a \<and> refusal n opn = Some (x, a) \<and> x \<in> ?ls t \<and>
        contents g' = contents g \<and> ls' = ?ls)"
    using move unfolding late_moves_def by blast
  have glued: "weak_glue pr n w' \<lparr>queue = ?s\<lparr>items := contents g', phases := (phases ?s)(t := ph'), log := lg\<rparr>, lengths = ls'\<rparr>" for lg
    using g' glue(3,4) same by (intro weak_glueI [where k = k and g = g']) simp_all
  from e show ?thesis
  proof (elim disjE exE conjE)
    assume "ph' = phases ?s t" "contents g' = contents g" "ls' = ?ls"
    with glued [of "log ?s"] glue(2) [symmetric] have "weak_glue pr n w' l" by (cases l) simp
    then show ?thesis by blast
  next
    fix opn a assume a: "phases ?s t = Asked opn" "ph' = Answered a" "fifo_step n opn (contents g) = (a, contents g')"
      "ls' = with_length (length (contents g')) ?ls"
    have "late_step n l \<lparr>queue = ?s\<lparr>items := contents g', phases := (phases ?s)(t := Answered a), log := log ?s\<rparr>, lengths = ls'\<rparr>"
      unfolding a(4) by (subst l, rule late_step.takes_effect [OF a(1)]) (use a(3) glue(2) in simp)
    with glued [of "log ?s"] a(2) show ?thesis by blast
  next
    fix opn a x assume a: "phases ?s t = Asked opn" "ph' = Answered a" "refusal n opn = Some (x, a)" "x \<in> ?ls t"
      "contents g' = contents g" "ls' = ?ls"
    have "late_step n l \<lparr>queue = ?s\<lparr>phases := (phases ?s)(t := Answered a)\<rparr>, lengths = ?ls\<rparr>"
      by (subst l, rule late_step.is_refused [where ls = ?ls, OF a(1,3,4)])
    moreover have "weak_glue pr n w' \<lparr>queue = ?s\<lparr>phases := (phases ?s)(t := Answered a)\<rparr>, lengths = ?ls\<rparr>"
      using glued [of "log ?s"] a(2,5,6) glue(2) [symmetric] by simp
    ultimately show ?thesis by blast
  qed
qed

lemma weak_turn:
  assumes ok: "weak_ok pr k n g w phs ls" and p: "claims n g (doing w) t = None" "claim n p' 0 = None"
    and th: "thread_ok pr k n g (memory w) 0 ph' p'" and kn: "\<And>w' X. informed k n g w' X t 0 p'"
  shows "weak_ok pr k n (g\<lparr>pos := (pos g)(t := 0)\<rparr>) (w\<lparr>doing := (doing w)(t := p'), called := cs\<rparr>) (phs(t := ph')) (ls(t := X))"
proof -
  let ?g = "g\<lparr>pos := (pos g)(t := 0)\<rparr>" and ?w = "w\<lparr>doing := (doing w)(t := p'), called := cs\<rparr>"
  have places: "known_places n ?w t" using messages_okD(6) [OF weak_okD(3) [OF ok], of t] by (simp add: known_places_def)
  have new: "weak_ok pr k n ?g ?w (phs(t := ph')) ls"
    by (rule weak_read [OF ok p(1,2) th _ _ _ _ _ _ _ places kn]) simp_all
  have "relies n ?g a p = relies n g a p" for a p by (cases p) auto
  then have "informed k n ?g ?w X t 0 p'" using kn by (simp add: informed_def)
  then have "informed k n ?g ?w ((ls(t := X)) u) u (pos ?g u) (doing ?w u)" for u
    using weak_okD(5) [OF new, of u] by (cases "u = t") simp_all
  with new show ?thesis unfolding weak_ok_def by blast
qed

lemma weak_glue_step:
  assumes glue: "weak_glue pr n w l" and wit: "witnessed n l" and step: "weak_step pr w w'" and few: "few_pushes n w'"
  shows "\<exists>l'. (late_step n)\<^sup>*\<^sup>* l l' \<and> weak_glue pr n w' l'"
proof -
  let ?s = "queue l" and ?ls = "lengths l"
  have l: "l = \<lparr>queue = ?s, lengths = ?ls\<rparr>" by simp
  obtain k g where ok: "weak_ok pr k n g w (phases ?s) ?ls" and s: "items ?s = contents g" "events ?s = called w" "2 ^ 63 \<le> turns k n"
    using glue by (auto simp: weak_glue_def)
  have now: "length (contents g) \<in> ?ls t" if "phases ?s t = Asked opn" for t opn
    using wit that s(1) by (auto simp: witnessed_def)
  obtain t ch where task: "weak_task pr (t, ch) w = Some w'" using step by (auto elim!: weak_step.cases)
  have turn: "contents (g\<lparr>pos := (pos g)(t := 0)\<rparr>) = contents g" by (simp add: contents_def)
  show ?thesis
  proof (cases ch)
    case (Calls opn)
    with task have idle: "doing w t = Q_Idle" and w': "w' = w\<lparr>doing := (doing w)(t := begins opn), called := called w @ [Asks t opn]\<rparr>"
      by (auto simp: weak_task_def split: q_point.splits)
    have free: "phases ?s t = Free" using weak_okD(6) [OF ok, of t] by (simp add: idle)
    have inf: "informed k n g v X t 0 (begins opn)" for v X by (cases opn) (simp_all add: informed_def begins_def)
    let ?l = "\<lparr>queue = ?s\<lparr>phases := (phases ?s)(t := Asked opn), events := events ?s @ [Asks t opn]\<rparr>, lengths = ?ls(t := {length (items ?s)})\<rparr>"
    have "claims n g (doing w) t = None" by (simp add: claims_def idle)
    from weak_turn [OF ok this begins_ok inf, where X = "{length (items ?s)}" and cs = "called w @ [Asks t opn]"]
    have "weak_glue pr n w' ?l" using s turn by (intro weak_glueI [where g = "g\<lparr>pos := (pos g)(t := 0)\<rparr>" and k = k]) (simp_all add: w')
    moreover have "late_step n l ?l" by (subst l, rule late_step.asks [OF free])
    ultimately show ?thesis by blast
  next
    case Gives
    with task obtain a where ret: "doing w t = Returns a" and w': "w' = w\<lparr>doing := (doing w)(t := Q_Idle), called := called w @ [Gets t a]\<rparr>"
      by (auto simp: weak_task_def split: q_point.splits)
    have ans: "phases ?s t = Answered a" using weak_okD(6) [OF ok, of t] by (simp add: ret)
    let ?l = "\<lparr>queue = ?s\<lparr>phases := (phases ?s)(t := Free), events := events ?s @ [Gets t a]\<rparr>, lengths = ?ls\<rparr>"
    have "claims n g (doing w) t = None" by (simp add: claims_def ret)
    from weak_turn [OF ok this, of Q_Idle Free "called w @ [Gets t a]" "?ls t"]
    have "weak_glue pr n w' ?l" using s turn
      by (intro weak_glueI [where g = "g\<lparr>pos := (pos g)(t := 0)\<rparr>" and k = k]) (simp_all add: w' informed_def)
    moreover have "late_step n l ?l" by (subst l, rule late_step.answers [OF ans])
    ultimately show ?thesis by blast
  next
    case (At q sp)
    with task have at: "weak_atomic pr q sp t w = Some w'" by (simp add: weak_task_def)
    have "called w' = called w"
      using at by (auto simp: weak_atomic_def read_tail_def read_head_def store_tail_def read_stamp_def publish_stamp_def fence_def Let_def
          split: option.splits variable.splits if_splits prod.splits)
    from late_moves_step [OF ok s atomic_access [OF ok at few s(3) now] this] show ?thesis by simp
  next
    case On_Value
    with task obtain i where i: "variable_of (memory w) (doing w t) = Some (The_Value i)" "w' = use_value pr i t w"
      by (auto simp: weak_task_def split: option.splits variable.splits)
    have "called w' = called w" by (simp add: i(2) use_value_def split: prod.split)
    from late_moves_step [OF ok s use_value_step [OF ok i(1), folded i(2)] this] show ?thesis .
  qed
qed

interpretation weak_threads: safe_simulation "late_init (unat C)" "late_step (unat C)" "witnessed (unat C)"
  "weak_starts pr C" "weak_bounded pr C" "weak_glue pr (unat C)"
proof unfold_locales
  show "\<exists>l. late_init (unat C) l \<and> weak_glue pr (unat C) w l" if "weak_starts pr C w" for w :: "'a weak_queue"
    using that by (rule weak_glue_start)
  show "\<exists>l'. (late_step (unat C))\<^sup>*\<^sup>* l l' \<and> weak_glue pr (unat C) w' l'"
    if "weak_glue pr (unat C) w l" "witnessed (unat C) l" "weak_bounded pr C w w'" for w w' :: "'a weak_queue" and l
    using weak_glue_step that by (auto simp: weak_bounded_def)
qed

lemma weak_reachable_bounded:
  assumes "reachable (weak_fresh pr C) (weak_step pr) w" "few_pushes (unat C) w"
  shows "reachable (weak_starts pr C) (weak_bounded pr C) w"
  using assms
proof (induction rule: reachable.induct)
  case (start w)
  then show ?case by (intro reachable.start) (simp add: weak_starts_def)
next
  case (further w w')
  have "few_pushes (unat C) w" using further.prems messages_on [OF further.hyps(2)] by (simp add: few_pushes_def)
  from reachable.further [OF further.IH [OF this]] further.hyps(2) further.prems show ?case
    by (simp add: weak_bounded_def)
qed

lemma weak_reachable:
  assumes "reachable (weak_fresh pr C) (weak_step pr) w" "few_pushes (unat C) w"
  obtains l k g where "reachable (late_init (unat C)) (late_step (unat C)) l"
    "weak_ok pr k (unat C) g w (phases (queue l)) (lengths l)" "events (queue l) = called w"
proof -
  obtain l where l: "reachable (late_init (unat C)) (late_step (unat C)) l" "weak_glue pr (unat C) w l"
    using weak_threads.sim_reachable [OF weak_reachable_bounded [OF assms]] by blast
  from l(2) obtain k g where "weak_ok pr k (unat C) g w (phases (queue l)) (lengths l)" "events (queue l) = called w"
    unfolding weak_glue_def by blast
  with that l(1) show ?thesis by blast
qed

section \<open>Properties\<close>

text \<open>C7: the queue is linearizable with the memory orderings of the code, not only when its accesses are interleaved: whatever old
  words the loads of any number of threads find, and whichever weak exchanges fail, the calls and their answers are those of a run
  of the atomic queue, in which every call takes effect on a bounded FIFO list at one moment between its start and its return. That
  a push is told that the queue is full, and a pop that it is empty, only if it was so during the call, is what
  the two fences are for.\<close>

theorem queue_is_linearizable_weakly:
  assumes "reachable (weak_fresh pr C) (weak_step pr) w" "few_pushes (unat C) w"
  shows "\<exists>s. reachable (idle_queue (unat C)) (atomic_step (unat C)) s \<and> events s = called w"
proof -
  obtain l where l: "reachable (late_init (unat C)) (late_step (unat C)) l" "events (queue l) = called w"
    by (rule weak_reachable [OF assms])
  with hindsight [OF l(1)] show ?thesis by auto
qed

text \<open>C9: with the memory orderings of the code there is no data race on the values in the slots: an access to a value happens after
  every earlier one to it by the acquiring loads and the releasing stores of the stamps alone, no other thread is about to make one, and
  who is about to read a value finds an element there. This is what the unsafe impls of Sync and Send for the queue rest on.\<close>

theorem queue_values_are_guarded:
  fixes w :: "'a weak_queue"
  assumes "reachable (weak_fresh pr C) (weak_step pr) w" "few_pushes (unat C) w" "touches (doing w t) = Some i"
  shows "\<not> value_race w t \<and> i < length (buffer (memory w)) \<and> (\<forall>u. touches (doing w u) = Some i \<longrightarrow> u = t) \<and>
    (\<forall>h v tv. doing w t \<in> {Pop_Read h i, Force_Swap v tv i} \<longrightarrow> (\<exists>x. read_value i (memory w) = Inr x))"
proof -
  let ?n = "unat C"
  obtain l :: "'a late_queue" and k g where ok: "weak_ok pr k ?n g w (phases (queue l)) (lengths l)"
    by (rule weak_reachable [OF assms(1,2)])
  note coh = weak_okD(1) [OF ok] and th = weak_okD(6) [OF ok] and m = mem_okD [OF weak_okD(2) [OF ok]]
  have held: "relies ?n g (pos g u) (doing w u) = Some i \<and> (\<exists>c. claims ?n g (doing w) u = Some c \<and> c mod ?n = i)"
    if "touches (doing w u) = Some i" for u
    using touches_claim [OF th that] slot_of_claim by (metis claims_def)
  have "cleared w t i" using weak_okD(8) [OF ok] held [OF assms(3)] by blast
  then have "\<not> value_race w t" using assms(3) by (auto simp: value_race_def cleared_def uses_of_def)
  moreover have "i < length (buffer (memory w))" using held [OF assms(3)] m(3,4) by auto
  moreover have "u = t" if "touches (doing w u) = Some i" for u
    using relies_sole [OF coh] held [OF that] held [OF assms(3)] by blast
  moreover have "\<exists>x. read_value i (memory w) = Inr x" if "doing w t \<in> {Pop_Read h i, Force_Swap v tv i}" for h v tv
    using that th [of t] by (auto simp: read_value_def vl_at_def)
  ultimately show ?thesis by blast
qed

theorem weak_calls_fault_only_by_spinning:
  fixes w :: "'a weak_queue"
  assumes "reachable (weak_fresh pr C) (weak_step pr) w" "few_pushes (unat C) w" "doing w t = Halted e"
  shows "pr = Debug \<and> e = Overflow"
proof -
  obtain l :: "'a late_queue" and k g where ok: "weak_ok pr k (unat C) g w (phases (queue l)) (lengths l)"
    by (rule weak_reachable [OF assms(1,2)])
  from weak_okD(6) [OF ok, of t] assms(3) show ?thesis by simp
qed

section \<open>Witnesses\<close>

text \<open>
  A pop that finds the old stamp of a slot that has been filled, and the head as it was, but, after its fence, not the old tail;
  so it tries again, and gets the element.
\<close>

definition finds_old_stamp :: "(nat \<times> nat weak_choice) list" where
  "finds_old_stamp =
     [(0, Calls (Push 7)), (0, At (0, 0) False), (0, At (0, 0) False), (0, At (0, 0) False), (0, On_Value), (0, At (1, 0) False), (0, Gives),
      (1, Calls Pop), (1, At (0, 0) False), (1, At (0, 0) False), (1, At (0, 1) False), (1, At (0, 0) False), (1, At (1, 0) False), (1, At (0, 0) False)]"

definition weak_world :: "nat weak_queue" where
  "weak_world = weak_start (case new_queue Debug 1 of Inr q \<Rightarrow> q)"

lemma weak_world_fresh: "weak_fresh Debug 1 weak_world"
proof -
  have "map_sum id (\<lambda>_. ()) (new_queue Debug 1 :: fault + nat array_queue) = Inr ()" by code_simp
  then show ?thesis
    by (cases "new_queue Debug 1 :: fault + nat array_queue") (auto simp: weak_fresh_def weak_world_def)
qed

lemma weak_schedule:
  assumes "map_option f (schedule (weak_task Debug) ds weak_world) = Some x"
  obtains w where "reachable (weak_fresh Debug 1) (weak_step Debug) w" "f w = x"
proof -
  from assms obtain w where w: "schedule (weak_task Debug) ds weak_world = Some w" "f w = x" by auto
  have "(weak_step Debug)\<^sup>*\<^sup>* weak_world w" by (rule schedule_steps [OF w(1)]) (rule weak_step.intros)
  from reachable_steps [OF this reachable.start, of "weak_fresh Debug 1"] that w weak_world_fresh show ?thesis by blast
qed

theorem queue_values_are_guarded_witness:
  "\<exists>w :: nat weak_queue. touches (doing w 1) = Some 0 \<and> touched w = [0] \<and> \<not> value_race w 1"
proof -
  have "map_option (\<lambda>w. (messages_in (tails w), touches (doing w 1), touched w)) (schedule (weak_task Debug) finds_old_stamp weak_world) =
      Some (2, Some 0, [0])"
    by code_simp
  then obtain w :: "nat weak_queue" where w: "reachable (weak_fresh Debug 1) (weak_step Debug) w"
    "(messages_in (tails w), touches (doing w 1), touched w) = (2, Some 0, [0])"
    by (rule weak_schedule)
  then have "few_pushes (unat (1::usize)) w" "touches (doing w 1) = Some 0" by (simp_all add: few_pushes_def)
  from queue_values_are_guarded [OF w(1) this] w(2) show ?thesis by auto
qed

theorem queue_is_linearizable_weakly_witness:
  "\<exists>s :: nat atomic_queue. reachable (idle_queue 1) (atomic_step 1) s \<and>
     events s = [Asks 0 (Push 7), Gets 0 (Pushed (Inr ())), Asks 1 Pop, Gets 1 (Popped (Some 7))]"
proof -
  have "map_option (\<lambda>w. (messages_in (tails w), called w))
      (schedule (weak_task Debug) (finds_old_stamp @ [(1, On_Value), (1, At (2, 0) False), (1, Gives)]) weak_world) =
      Some (2, [Asks 0 (Push 7), Gets 0 (Pushed (Inr ())), Asks 1 Pop, Gets 1 (Popped (Some 7))])"
    by code_simp
  then obtain w :: "nat weak_queue" where w: "reachable (weak_fresh Debug 1) (weak_step Debug) w"
    "(messages_in (tails w), called w) = (2, [Asks 0 (Push 7), Gets 0 (Pushed (Inr ())), Asks 1 Pop, Gets 1 (Popped (Some 7))])"
    by (rule weak_schedule)
  then have "few_pushes (unat (1::usize)) w" by (simp add: few_pushes_def)
  from queue_is_linearizable_weakly [OF w(1) this] w(2) show ?thesis by simp
qed

end
