(* ===== verification/Queue_Clients.thy ===== *)
theory Queue_Clients
  imports Queue_Weak "HOL-Library.Multiset"
begin

text \<open>
  Programs that use the queue from several threads, and the tests of \<open>src/tests/array_queue.rs\<close> as such programs: a thread's next
  call depends on the answers to its calls so far. What holds of every sequential order in which calls can take effect holds of every
  execution, old words and overlapping calls included.
\<close>

section \<open>Programs\<close>

type_synonym 'a calls_made = "('a fifo_op \<times> 'a fifo_answer) list"

type_synonym 'a queue_program = "nat \<Rightarrow> 'a calls_made \<Rightarrow> 'a fifo_op option"

fun calls_done :: "'a queue_event list \<Rightarrow> 'a calls_made" where
  "calls_done (Asks _ opn # Gets _ a # es) = (opn, a) # calls_done es"
| "calls_done _ = []"

text \<open>Every call is the one that the program makes next.\<close>

fun obeying :: "'a queue_program \<Rightarrow> 'a queue_event list \<Rightarrow> 'a queue_event list \<Rightarrow> bool" where
  "obeying prog past [] \<longleftrightarrow> True"
| "obeying prog past (Asks t opn # es) \<longleftrightarrow> prog t (calls_done (events_of t past)) = Some opn \<and> obeying prog (past @ [Asks t opn]) es"
| "obeying prog past (Gets t a # es) \<longleftrightarrow> obeying prog (past @ [Gets t a]) es"

definition obeys :: "'a queue_program \<Rightarrow> 'a queue_event list \<Rightarrow> bool" where
  "obeys prog es \<longleftrightarrow> obeying prog [] es"

definition calls_of :: "nat \<Rightarrow> (nat \<times> 'a fifo_op \<times> 'a fifo_answer) list \<Rightarrow> 'a calls_made" where
  "calls_of t l = map snd (filter (\<lambda>e. fst e = t) l)"

text \<open>An order of the calls that a list answers as the threads were answered, in which each thread follows the program.\<close>

definition serial :: "nat \<Rightarrow> 'a queue_program \<Rightarrow> (nat \<times> 'a fifo_op \<times> 'a fifo_answer) list \<Rightarrow> 'a list \<Rightarrow> bool" where
  "serial n prog l xs \<longleftrightarrow> fifo_run n (map (fst \<circ> snd) l) [] = (map (snd \<circ> snd) l, xs) \<and>
     (\<forall>l1 t opn a l2. l = l1 @ (t, opn, a) # l2 \<longrightarrow> prog t (calls_of t l1) = Some opn)"

lemma serial_Nil: "serial n prog [] xs \<longleftrightarrow> xs = []"
  by (auto simp: serial_def)

lemma serial_snoc:
  "serial n prog (l @ [(t, opn, a)]) ys \<longleftrightarrow>
     (\<exists>xs. serial n prog l xs \<and> prog t (calls_of t l) = Some opn \<and> fifo_step n opn xs = (a, ys))"
proof -
  have "(\<forall>l1 u o' b l2. l @ [(t, opn, a)] = l1 @ (u, o', b) # l2 \<longrightarrow> prog u (calls_of u l1) = Some o') \<longleftrightarrow>
      (\<forall>l1 u o' b l2. l = l1 @ (u, o', b) # l2 \<longrightarrow> prog u (calls_of u l1) = Some o') \<and> prog t (calls_of t l) = Some opn"
  proof -
    have "l @ [x] = l1 @ y # l2 \<longleftrightarrow> (\<exists>l3. l2 = l3 @ [x] \<and> l = l1 @ y # l3) \<or> l2 = [] \<and> l = l1 \<and> x = y" for x y l1 l2
      by (cases l2 rule: rev_cases) auto
    then show ?thesis by (simp only:) blast
  qed
  then show ?thesis unfolding serial_def by (auto simp: fifo_run_snoc split: prod.splits)
qed

lemma calls_of_snoc: "calls_of u (l @ [(t, opn, a)]) = calls_of u l @ (if t = u then [(opn, a)] else [])"
  by (simp add: calls_of_def)

lemma calls_done_session [simp]: "calls_done (session t l) = calls_of t l" "calls_done (session t l @ [Asks u opn]) = calls_of t l"
  by (induction l) (auto simp: session_def calls_of_def)

lemma obeying_asks: "obeying prog past (es1 @ Asks t opn # es2) \<Longrightarrow> prog t (calls_done (events_of t (past @ es1))) = Some opn"
proof (induction es1 arbitrary: past)
  case (Cons e es1)
  have "obeying prog (past @ [e]) (es1 @ Asks t opn # es2)" using Cons.prems by (cases e) auto
  from Cons.IH [OF this] show ?case by simp
qed simp

lemma filter_split: "filter P es = xs @ y # ys \<Longrightarrow> \<exists>es1 es2. es = es1 @ y # es2 \<and> filter P es1 = xs"
proof (induction es arbitrary: xs)
  case (Cons e es)
  show ?case
  proof (cases "P e \<and> xs \<noteq> []")
    case True
    with Cons.prems obtain zs where zs: "xs = e # zs" "filter P es = zs @ y # ys" by (cases xs) auto
    from Cons.IH [OF zs(2)] obtain es1 es2 where "es = es1 @ y # es2" "filter P es1 = zs" by blast
    with True zs(1) show ?thesis by (intro exI [of _ "e # es1"] exI [of _ es2]) simp
  next
    case False
    show ?thesis
    proof (cases "P e")
      case True
      with False Cons.prems show ?thesis by (intro exI [of _ "[]"] exI [of _ es]) simp
    next
      case no: False
      with Cons.prems have "filter P es = xs @ y # ys" by simp
      from Cons.IH [OF this] obtain es1 es2 where "es = es1 @ y # es2" "filter P es1 = xs" by blast
      with no show ?thesis by (intro exI [of _ "e # es1"] exI [of _ es2]) simp
    qed
  qed
qed simp

lemma lawful_serial:
  assumes law: "lawful n s" and prog: "obeys prog (events s)"
  shows "serial n prog (log s) (items s)"
proof -
  have "prog t (calls_of t l1) = Some opn" if l: "log s = l1 @ (t, opn, a) # l2" for l1 t opn a l2
  proof -
    have ses: "session t (log s) = session t l1 @ Asks t opn # Gets t a # session t l2" by (simp add: l session_def)
    have "phase_ok s t" using law by (simp add: lawful_def)
    then obtain ys where "events_of t (events s) = session t l1 @ Asks t opn # ys"
      unfolding phase_ok_def ses by (cases "phases s t") (auto simp: append_eq_append_conv2 append_eq_Cons_conv Cons_eq_append_conv)
    then obtain es1 es2 where "events s = es1 @ Asks t opn # es2" "events_of t es1 = session t l1"
      unfolding events_of_def by (blast dest: filter_split)
    with obeying_asks [of prog "[]" es1 t opn es2] prog show ?thesis by (simp add: obeys_def)
  qed
  with law show ?thesis by (auto simp: serial_def lawful_def)
qed

text \<open>The calls a thread has had answers to are in the log.\<close>

lemma lawful_done:
  assumes "lawful n s"
  shows "calls_done (events_of t (events s)) = calls_of t (log s) \<or>
    (\<exists>c. calls_of t (log s) = calls_done (events_of t (events s)) @ [c])"
proof -
  have "phase_ok s t" using assms by (simp add: lawful_def)
  show ?thesis
  proof (cases "phases s t")
    case (Answered a)
    with \<open>phase_ok s t\<close> have ses: "events_of t (events s) @ [Gets t a] = session t (log s)" by (simp add: phase_ok_def)
    have "\<exists>opn l. calls_of t (log s) = l @ [(opn, a)] \<and> es = concat (map (\<lambda>(opn, b). [Asks t opn, Gets t b]) l) @ [Asks t opn]"
      if "es @ [Gets t a] = session t (log s)" for es
    proof -
      let ?f = "\<lambda>(opn, b). [Asks t opn, Gets t b] :: 'a queue_event list"
      have s: "session t (log s) = concat (map ?f (calls_of t (log s)))"
        by (simp add: session_def calls_of_def comp_def case_prod_beta')
      show ?thesis
      proof (cases "calls_of t (log s)" rule: rev_cases)
        case (snoc l c)
        with that s show ?thesis by (cases c) auto
      qed (use that s in simp)
    qed
    from this [OF ses] obtain opn l where l: "calls_of t (log s) = l @ [(opn, a)]"
      "events_of t (events s) = concat (map (\<lambda>(opn, b). [Asks t opn, Gets t b]) l) @ [Asks t opn]" by blast
    have "calls_done (concat (map (\<lambda>(opn, b). [Asks t opn, Gets t b]) l) @ [Asks t opn]) = l" by (induction l) auto
    with l show ?thesis by simp
  qed (use \<open>phase_ok s t\<close> in \<open>simp_all add: phase_ok_def\<close>)
qed

text \<open>Every execution of a program on the queue has such an order.\<close>

theorem queue_client:
  fixes w :: "'a weak_queue"
  assumes "reachable (weak_fresh pr C) (weak_step pr) w" "few_pushes (unat C) w" "obeys prog (called w)"
  shows "\<exists>l xs. serial (unat C) prog l xs \<and> entered l = left l @ xs \<and>
    (\<forall>t. calls_done (events_of t (called w)) = calls_of t l \<or> (\<exists>c. calls_of t l = calls_done (events_of t (called w)) @ [c]))"
proof -
  obtain s :: "'a atomic_queue" where s: "reachable (idle_queue (unat C)) (atomic_step (unat C)) s" "events s = called w"
  proof -
    obtain l :: "'a late_queue" where l: "reachable (late_init (unat C)) (late_step (unat C)) l" "events (queue l) = called w"
      by (rule weak_reachable [OF assms(1,2)])
    from hindsight [OF l(1)] l(2) that show ?thesis by auto
  qed
  note law = atomic.inv_reachable [OF s(1)]
  from lawful_serial [OF law] lawful_done [OF law] assms(3) s(2) law show ?thesis
    by (intro exI [of _ "log s"] exI [of _ "items s"]) (simp add: lawful_def)
qed

lemma has_room: "reachable (weak_fresh pr C) (weak_step pr) w \<Longrightarrow> 0 < unat C"
  by (induction rule: reachable.induct) (auto simp: weak_fresh_def new_queue_def unat_gt_0)

section \<open>The test linearizable\<close>

text \<open>
  \<open>for _ in 0..count { while q.push(0).is_err() {} q.pop().unwrap(); }\<close> in every other thread, and
  \<open>for _ in 0..count { if q.force_push(0).is_none() { q.pop().unwrap(); } }\<close> in the others. A thread whose pop has
  found nothing has panicked.
\<close>

definition last_answer :: "'a calls_made \<Rightarrow> 'a fifo_answer option" where
  "last_answer h = (if h = [] then None else Some (snd (last h)))"

definition rounds :: "'a calls_made \<Rightarrow> nat" where
  "rounds h = length (filter (\<lambda>(opn, a). case a of Popped (Some _) \<Rightarrow> True | Forced (Some _) \<Rightarrow> True | _ \<Rightarrow> False) h)"

definition push_pop_thread :: "nat \<Rightarrow> nat calls_made \<Rightarrow> nat fifo_op option" where
  "push_pop_thread amount h = (case last_answer h of
     Some (Pushed (Inl _)) \<Rightarrow> Some (Push 0)
   | Some (Pushed (Inr _)) \<Rightarrow> Some Pop
   | Some (Popped None) \<Rightarrow> None
   | Some (Forced _) \<Rightarrow> None
   | _ \<Rightarrow> if rounds h < amount then Some (Push 0) else None)"

definition force_pop_thread :: "nat \<Rightarrow> nat calls_made \<Rightarrow> nat fifo_op option" where
  "force_pop_thread amount h = (case last_answer h of
     Some (Forced None) \<Rightarrow> Some Pop
   | Some (Popped None) \<Rightarrow> None
   | Some (Pushed _) \<Rightarrow> None
   | _ \<Rightarrow> if rounds h < amount then Some (Force_Push 0) else None)"

definition linearizable_test :: "nat \<Rightarrow> nat \<Rightarrow> nat queue_program" where
  "linearizable_test threads amount t h =
     (if 2 * (threads div 2) \<le> t then None else if even t then push_pop_thread amount h else force_pop_thread amount h)"

text \<open>A thread that has put an element in and not taken one out.\<close>

definition owes :: "'a calls_made \<Rightarrow> bool" where
  "owes h \<longleftrightarrow> last_answer h \<in> {Some (Pushed (Inr ())), Some (Forced None)}"

lemma last_answer_simps [simp]: "last_answer [] = None" "last_answer (h @ [(opn, a)]) = Some a"
  by (simp_all add: last_answer_def)

lemma linearizable_next:
  assumes "linearizable_test threads amount t h = Some opn"
  shows "t < threads" "owes h \<longleftrightarrow> opn = Pop" "opn \<in> {Push 0, Pop, Force_Push 0}"
proof -
  show "t < threads" using assms by (simp add: linearizable_test_def split: if_splits)
  show "owes h \<longleftrightarrow> opn = Pop" "opn \<in> {Push 0, Pop, Force_Push 0}"
    using assms
    by (auto simp: linearizable_test_def push_pop_thread_def force_pop_thread_def owes_def
        split: if_splits option.splits fifo_answer.splits sum.splits)
qed

lemma linearizable_serial:
  assumes "serial n (linearizable_test threads amount) l xs" "0 < n"
  shows "card {t. owes (calls_of t l)} = length xs \<and> {t. owes (calls_of t l)} \<subseteq> {..<threads} \<and> (\<forall>e \<in> set l. snd (snd e) \<noteq> Popped None)"
  using assms(1)
proof (induction l arbitrary: xs rule: rev_induct)
  case Nil
  then show ?case by (simp add: serial_Nil calls_of_def owes_def)
next
  case (snoc e l)
  obtain t opn a where e: "e = (t, opn, a)" by (cases e) auto
  obtain ys where ys: "serial n (linearizable_test threads amount) l ys" "linearizable_test threads amount t (calls_of t l) = Some opn"
    "fifo_step n opn ys = (a, xs)"
    using snoc.prems by (auto simp: e serial_snoc)
  note IH = snoc.IH [OF ys(1)] and nxt = linearizable_next [OF ys(2)]
  let ?D = "{t. owes (calls_of t l)}"
  have fin: "finite ?D" using IH finite_subset by blast
  have D: "{u. owes (calls_of u (l @ [e]))} = (if a \<in> {Pushed (Inr ()), Forced None} then insert t ?D else ?D - {t})"
    by (auto simp: e calls_of_snoc owes_def)
  have t: "t \<in> ?D \<longleftrightarrow> opn = Pop" using nxt(2) by simp
  have "ys \<noteq> []" if "opn = Pop" using IH t that fin by auto
  moreover have "ys \<noteq> []" if "\<not> length ys < n" using that assms(2) by auto
  ultimately have step: "a \<noteq> Popped None" "length xs = (if a \<in> {Pushed (Inr ()), Forced None} then Suc (length ys) else
      if opn = Pop then length ys - 1 else length ys)" "a \<in> {Pushed (Inr ()), Forced None} \<Longrightarrow> opn \<noteq> Pop"
    using nxt(3) ys(3) by (auto split: if_splits list.splits)
  have "card {u. owes (calls_of u (l @ [e]))} = length xs"
    unfolding D step(2) using IH t fin step(3) by (auto simp: card_Diff_singleton_if)
  moreover have "{u. owes (calls_of u (l @ [e]))} \<subseteq> {..<threads}" unfolding D using IH nxt(1) by auto
  ultimately show ?case using IH step(1) by (auto simp: e)
qed

text \<open>C11: the repository's test linearizable cannot fail: whatever the capacity, the number of threads and of rounds, the
  interleaving and the old words the loads find, a thread that has pushed an element and not popped one never finds the queue empty.\<close>

theorem linearizable_test_passes:
  fixes w :: "nat weak_queue"
  assumes "reachable (weak_fresh pr C) (weak_step pr) w" "few_pushes (unat C) w" "obeys (linearizable_test threads amount) (called w)"
  shows "Popped None \<notin> snd ` set (calls_done (events_of t (called w)))"
proof -
  obtain l xs where l: "serial (unat C) (linearizable_test threads amount) l xs"
    "calls_done (events_of t (called w)) = calls_of t l \<or> (\<exists>c. calls_of t l = calls_done (events_of t (called w)) @ [c])"
    using queue_client [OF assms] by blast
  from linearizable_serial [OF l(1) has_room [OF assms(1)]] have "Popped None \<notin> snd ` set (calls_of t l)" by (auto simp: calls_of_def)
  with l(2) show ?thesis by (metis Un_iff image_Un set_append)
qed

section \<open>The test spsc\<close>

text \<open>
  The producer pushes \<open>0..count\<close>, each until there is room; the consumer pops each until it is there and asserts that it is the
  next, and pops once more at the end, asserting that there is nothing.
\<close>

definition done_with :: "(nat fifo_op \<times> nat fifo_answer \<Rightarrow> nat list) \<Rightarrow> nat calls_made \<Rightarrow> nat list" where
  "done_with f h = concat (map f h)"

text \<open>\<open>for i in 0..count { while q.push(i).is_err() {} }\<close>\<close>

definition pushes :: "nat \<Rightarrow> nat calls_made \<Rightarrow> nat fifo_op option" where
  "pushes amount h = (let i = length (done_with enters h) in if i < amount then Some (Push i) else None)"

definition spsc_test :: "nat \<Rightarrow> nat queue_program" where
  "spsc_test amount t h =
     (if t = 0 then pushes amount h
      else if t = 1 then
        (if length (done_with leaves h) < amount then Some Pop
         else if last_answer h = Some (Popped None) then None else Some Pop)
      else None)"

lemma entered_snoc: "entered (l @ [e]) = entered l @ enters (snd e)" "left (l @ [e]) = left l @ leaves (snd e)"
  by (simp_all add: entered_def left_def)

lemma spsc_serial:
  assumes "serial n (spsc_test amount) l xs"
  shows "entered l = [0..<length (done_with enters (calls_of 0 l))] \<and> entered l = done_with enters (calls_of 0 l) \<and>
    length (entered l) \<le> amount \<and> left l = done_with leaves (calls_of 1 l)"
  using assms
proof (induction l arbitrary: xs rule: rev_induct)
  case Nil
  then show ?case by (simp add: entered_def left_def calls_of_def done_with_def)
next
  case (snoc e l)
  obtain t opn a where e: "e = (t, opn, a)" by (cases e) auto
  obtain ys where ys: "serial n (spsc_test amount) l ys" "spsc_test amount t (calls_of t l) = Some opn" "fifo_step n opn ys = (a, xs)"
    using snoc.prems by (auto simp: e serial_snoc)
  note IH = snoc.IH [OF ys(1)]
  from ys(2) consider "t = 0" "opn = Push (length (done_with enters (calls_of 0 l)))" "length (done_with enters (calls_of 0 l)) < amount"
    | "t = 1" "opn = Pop"
    by (auto simp: spsc_test_def pushes_def Let_def split: if_splits)
  then show ?case
  proof cases
    case 1
    with IH ys(3) show ?thesis
      by (auto simp: e entered_snoc calls_of_snoc done_with_def split: if_splits)
  next
    case 2
    have en: "enters (opn, a) = []" using 2 by simp
    have new: "entered (l @ [e]) = entered l" "left (l @ [e]) = left l @ leaves (opn, a)" "calls_of 0 (l @ [e]) = calls_of 0 l"
      "done_with leaves (calls_of 1 (l @ [e])) = done_with leaves (calls_of 1 l) @ leaves (opn, a)"
      using 2 by (simp_all add: e entered_snoc en calls_of_snoc done_with_def)
    have "left l @ leaves (opn, a) = done_with leaves (calls_of 1 l) @ leaves (opn, a)" using IH by (blast intro: arg_cong)
    with IH show ?thesis unfolding new by blast
  qed
qed

text \<open>C12: the repository's test spsc cannot fail: with one producer and one consumer, whatever the interleaving and the
  old words the loads find, the elements come out in the order in which they went in, none is lost or repeated, and after
  the last one the queue is empty.\<close>

theorem spsc_test_passes:
  fixes w :: "nat weak_queue"
  assumes "reachable (weak_fresh pr C) (weak_step pr) w" "few_pushes (unat C) w" "obeys (spsc_test amount) (called w)"
  shows "\<exists>m \<le> amount. done_with leaves (calls_done (events_of 1 (called w))) = [0..<m]"
proof -
  obtain l xs where l: "serial (unat C) (spsc_test amount) l xs" "entered l = left l @ xs"
    "calls_done (events_of 1 (called w)) = calls_of 1 l \<or> (\<exists>c. calls_of 1 l = calls_done (events_of 1 (called w)) @ [c])"
    using queue_client [OF assms] by blast
  note s = spsc_serial [OF l(1)]
  obtain ys where "done_with leaves (calls_of 1 l) = done_with leaves (calls_done (events_of 1 (called w))) @ ys"
    using l(3) by (auto simp: done_with_def)
  with s l(2) have e: "entered l = done_with leaves (calls_done (events_of 1 (called w))) @ ys @ xs" by simp
  let ?h = "done_with leaves (calls_done (events_of 1 (called w)))"
  have "?h = take (length ?h) (entered l)" by (simp add: e)
  also obtain N where N: "entered l = [0..<N]" "N \<le> amount" using s by (metis (no_types) diff_zero length_upt)
  have "length ?h \<le> N" using arg_cong [OF e, of length] N(1) by simp
  then have "take (length ?h) (entered l) = [0..<length ?h]" by (simp add: N(1) take_upt)
  finally show ?thesis using \<open>length ?h \<le> N\<close> N(2) by (intro exI [of _ "length ?h"]) simp
qed

section \<open>The test mpmc\<close>

text \<open>Each of the first threads pops until it has had \<open>count\<close> elements, each of the others pushes \<open>0..count\<close>.\<close>

definition mpmc_test :: "nat \<Rightarrow> nat \<Rightarrow> nat queue_program" where
  "mpmc_test threads amount t h =
     (if t < threads then (if length (done_with leaves h) < amount then Some Pop else None)
      else if t < 2 * threads then pushes amount h else None)"

lemma by_thread:
  assumes "finite T" "fst ` set l \<subseteq> T"
  shows "mset (concat (map (f \<circ> snd) l)) = (\<Sum>t\<in>T. mset (done_with f (calls_of t l)))"
  using assms(2)
proof (induction l rule: rev_induct)
  case Nil
  then show ?case by (simp add: calls_of_def done_with_def)
next
  case (snoc e l)
  obtain u opn a where e: "e = (u, opn, a)" by (cases e) auto
  have "mset (done_with f (calls_of t (l @ [e]))) = mset (done_with f (calls_of t l)) + (if t = u then mset (f (opn, a)) else {#})" for t
    by (simp add: e calls_of_snoc done_with_def)
  then have "(\<Sum>t\<in>T. mset (done_with f (calls_of t (l @ [e])))) = (\<Sum>t\<in>T. mset (done_with f (calls_of t l))) + mset (f (opn, a))"
    using snoc.prems assms(1) by (simp add: sum.distrib e sum.delta)
  then show ?case using snoc by (simp add: e)
qed

lemma mpmc_serial:
  assumes "serial n (mpmc_test threads amount) l xs"
  shows "fst ` set l \<subseteq> {..<2 * threads} \<and>
    (\<forall>t < threads. done_with enters (calls_of t l) = [] \<and> length (done_with leaves (calls_of t l)) \<le> amount) \<and>
    (\<forall>t \<ge> threads. done_with leaves (calls_of t l) = [] \<and> (\<exists>m \<le> amount. done_with enters (calls_of t l) = [0..<m]))"
  using assms
proof (induction l arbitrary: xs rule: rev_induct)
  case Nil
  then show ?case by (auto simp: calls_of_def done_with_def)
next
  case (snoc e l)
  obtain t opn a where e: "e = (t, opn, a)" by (cases e) auto
  obtain ys where ys: "serial n (mpmc_test threads amount) l ys" "mpmc_test threads amount t (calls_of t l) = Some opn" "fifo_step n opn ys = (a, xs)"
    using snoc.prems by (auto simp: e serial_snoc)
  note IH = snoc.IH [OF ys(1)]
  have add: "done_with f (calls_of u (l @ [e])) = done_with f (calls_of u l) @ (if u = t then f (opn, a) else [])" for f u
    by (simp add: e calls_of_snoc done_with_def)
  have who: "fst ` set (l @ [e]) = insert t (fst ` set l)" by (simp add: e)
  from ys(2) consider (pop) "t < threads" "opn = Pop" "length (done_with leaves (calls_of t l)) < amount"
    | (push) "threads \<le> t" "t < 2 * threads" "opn = Push (length (done_with enters (calls_of t l)))" "length (done_with enters (calls_of t l)) < amount"
    by (auto simp: mpmc_test_def pushes_def Let_def split: if_splits)
  then show ?case
  proof cases
    case pop
    have "enters (opn, a) = []" "length (leaves (opn, a)) \<le> 1" using pop(2) ys(3) by (auto split: list.splits)
    then show ?thesis using IH pop unfolding add who by auto
  next
    case push
    obtain m where m: "m \<le> amount" "done_with enters (calls_of t l) = [0..<m]" using IH push(1) by blast
    have "enters (opn, a) = [] \<or> enters (opn, a) = [m]" "leaves (opn, a) = []" using push(3) ys(3) m by (auto split: if_splits)
    moreover have "[0..<m] @ [m] = [0..<Suc m]" "Suc m \<le> amount" using push(4) m by simp_all
    ultimately have "\<exists>m \<le> amount. done_with enters (calls_of t (l @ [e])) = [0..<m]" "leaves (opn, a) = []"
      using m unfolding add by (metis append_Nil2)+
    then show ?thesis using IH push unfolding add who by auto
  qed
qed

lemma mpmc_complete:
  assumes l: "serial n (mpmc_test threads amount) l xs" "entered l = left l @ xs"
    and served: "\<And>t. t < threads \<Longrightarrow> length (done_with leaves (calls_of t l)) = amount"
  shows "(\<Sum>t<threads. mset (done_with leaves (calls_of t l))) = (\<Sum>t<threads. mset [0..<amount])"
proof -
  note s = mpmc_serial [OF l(1)]
  let ?T = "{..<2 * threads}"
  have T: "?T = {..<threads} \<union> {threads..<2 * threads}" "{..<threads} \<inter> {threads..<2 * threads} = {}" by auto
  have split: "(\<Sum>t\<in>?T. g t) = (\<Sum>t<threads. g t) + (\<Sum>t=threads..<2 * threads. g t)" for g :: "nat \<Rightarrow> nat multiset"
    unfolding T(1) by (rule sum.union_disjoint) auto
  obtain m where m: "\<And>t. threads \<le> t \<Longrightarrow> m t \<le> amount \<and> done_with enters (calls_of t l) = [0..<m t]" using s by metis
  have most: "m t \<le> amount" if "threads \<le> t" for t using m that by blast
  have out: "mset (left l) = (\<Sum>t<threads. mset (done_with leaves (calls_of t l)))"
    using by_thread [of ?T l leaves] s by (simp add: left_def split)
  have ins: "mset (entered l) = (\<Sum>t=threads..<2 * threads. mset [0..<m t])"
    using by_thread [of ?T l enters] s m by (simp add: entered_def split)
  have size: "size (mset (left l)) = threads * amount" unfolding out by (simp add: served)
  have le: "size (mset (entered l)) = (\<Sum>t=threads..<2 * threads. m t)" unfolding ins by simp
  have "m t = amount" if t: "t \<in> {threads..<2 * threads}" for t
  proof (rule ccontr)
    assume "m t \<noteq> amount"
    with most [of t] t have "m t < amount" by simp
    then have "(\<Sum>t=threads..<2 * threads. m t) < (\<Sum>t=threads..<2 * threads. amount)"
      using most t by (intro sum_strict_mono_ex1 ballI bexI [of _ t]) simp_all
    with size le l(2) show False by simp
  qed
  then have full: "mset (entered l) = (\<Sum>t=threads..<2 * threads. mset [0..<amount])" unfolding ins by simp
  then have "size (mset (entered l)) = threads * amount" by simp
  with size l(2) have "xs = []" by simp
  moreover have "(\<Sum>t=threads..<2 * threads. c) = (\<Sum>t<threads. c)" for c :: "nat multiset"
    using sum.atLeastLessThan_shift_0 [of "\<lambda>_. c" threads "2 * threads"] by (simp add: atLeast0LessThan)
  ultimately show ?thesis using l(2) out full by simp
qed

text \<open>C13: the repository's test mpmc cannot fail: with as many threads that push all numbers below a bound as threads that pop that many elements,
  whatever the interleaving and the old words the loads find, when every thread that pops has had its elements, each number has been
  popped exactly as often as there are threads that push.\<close>

theorem mpmc_test_passes:
  fixes w :: "nat weak_queue"
  assumes "reachable (weak_fresh pr C) (weak_step pr) w" "few_pushes (unat C) w" "obeys (mpmc_test threads amount) (called w)"
    and served: "\<And>t. t < threads \<Longrightarrow> length (done_with leaves (calls_done (events_of t (called w)))) = amount"
  shows "(\<Sum>t<threads. count_list (done_with leaves (calls_done (events_of t (called w)))) i) = (if i < amount then threads else 0)"
proof -
  obtain l xs where l: "serial (unat C) (mpmc_test threads amount) l xs" "entered l = left l @ xs"
    "\<And>t. calls_done (events_of t (called w)) = calls_of t l \<or> (\<exists>c. calls_of t l = calls_done (events_of t (called w)) @ [c])"
    using queue_client [OF assms(1-3)] by blast
  have all: "done_with leaves (calls_of t l) = done_with leaves (calls_done (events_of t (called w)))" if t: "t < threads" for t
  proof -
    obtain ys where "done_with leaves (calls_of t l) = done_with leaves (calls_done (events_of t (called w))) @ ys"
      using l(3) [of t] by (auto simp: done_with_def)
    with mpmc_serial [OF l(1)] served [OF t] t show ?thesis by auto
  qed
  have "(\<Sum>t<threads. mset (done_with leaves (calls_of t l))) = (\<Sum>t<threads. mset [0..<amount])"
    by (rule mpmc_complete [OF l(1,2)]) (simp add: all served)
  then have "count (\<Sum>t<threads. mset (done_with leaves (calls_of t l))) i = count (\<Sum>t<threads. mset [0..<amount]) i" by simp
  then have "(\<Sum>t<threads. count_list (done_with leaves (calls_of t l)) i) = threads * count_list [0..<amount] i"
    by (simp add: count_sum count_mset del: mset_upt)
  moreover have "count_list [0..<amount] i = (if i < amount then 1 else 0)" by (induction amount) auto
  ultimately show ?thesis by (simp add: all)
qed

section \<open>The test test_concurrent_push_pop\<close>

text \<open>The loom test of \<open>src/tests/queue_loom.rs\<close>: one thread pushes 5 and unwraps the result, the other pops once.\<close>

definition push_pop_test :: "nat queue_program" where
  "push_pop_test t h = (if t = 0 \<and> h = [] then Some (Push 5) else if t = 1 \<and> h = [] then Some Pop else None)"

lemma push_pop_serial:
  assumes "serial n push_pop_test l xs" "0 < n"
  shows "set (done_with leaves (calls_of 1 l)) \<union> set xs \<subseteq> {5} \<and>
    (calls_of 0 l = [] \<and> xs = [] \<or> calls_of 0 l = [(Push 5, Pushed (Inr ()))])"
  using assms(1)
proof (induction l arbitrary: xs rule: rev_induct)
  case Nil
  then show ?case by (simp add: serial_Nil calls_of_def done_with_def)
next
  case (snoc e l)
  obtain t opn a where e: "e = (t, opn, a)" by (cases e) auto
  obtain ys where ys: "serial n push_pop_test l ys" "push_pop_test t (calls_of t l) = Some opn" "fifo_step n opn ys = (a, xs)"
    using snoc.prems by (auto simp: e serial_snoc)
  from ys(2) consider "t = 0" "calls_of 0 l = []" "opn = Push 5" | "t = 1" "opn = Pop"
    by (auto simp: push_pop_test_def split: if_splits)
  then show ?case
    using snoc.IH [OF ys(1)] ys(3) assms(2) by cases (auto simp: e calls_of_snoc done_with_def split: list.splits if_splits)
qed

theorem push_pop_test_passes:
  fixes w :: "nat weak_queue"
  assumes "reachable (weak_fresh pr C) (weak_step pr) w" "few_pushes (unat C) w" "obeys push_pop_test (called w)"
  shows "(Push 5, Pushed (Inl x)) \<notin> set (calls_done (events_of 0 (called w))) \<and>
    set (done_with leaves (calls_done (events_of 1 (called w)))) \<subseteq> {5}"
proof -
  obtain l xs where l: "serial (unat C) push_pop_test l xs"
    "\<And>t. calls_done (events_of t (called w)) = calls_of t l \<or> (\<exists>c. calls_of t l = calls_done (events_of t (called w)) @ [c])"
    using queue_client [OF assms] by blast
  note s = push_pop_serial [OF l(1) has_room [OF assms(1)]]
  have sub: "set (calls_done (events_of t (called w))) \<subseteq> set (calls_of t l)" for t using l(2) [of t] by fastforce
  have "(Push 5, Pushed (Inl x)) \<notin> set (calls_of 0 l)" using s by auto
  moreover have "set (done_with leaves (calls_done (events_of 1 (called w)))) \<subseteq> set (done_with leaves (calls_of 1 l))"
    using sub [of 1] by (auto simp: done_with_def)
  ultimately show ?thesis using sub [of 0] s by blast
qed

section \<open>Witnesses\<close>

text \<open>Each test with one round, on a queue of capacity one.\<close>

definition linearizable_run :: "(nat \<times> nat weak_choice) list" where
  "linearizable_run =
     [(0, Calls (Push 0)), (0, At (0, 0) False), (0, At (0, 0) False), (0, At (0, 0) False), (0, On_Value), (0, At (1, 0) False), (0, Gives),
      (1, Calls (Force_Push 0)), (1, At (0, 1) False), (1, At (1, 0) False), (1, At (0, 0) False), (1, At (1, 0) False), (1, On_Value),
      (1, At (2, 0) False), (1, Gives),
      (0, Calls Pop), (0, At (0, 1) False), (0, At (2, 0) False), (0, At (0, 1) False), (0, On_Value), (0, At (3, 0) False), (0, Gives)]"

definition spsc_run :: "(nat \<times> nat weak_choice) list" where
  "spsc_run =
     [(0, Calls (Push 0)), (0, At (0, 0) False), (0, At (0, 0) False), (0, At (0, 0) False), (0, On_Value), (0, At (1, 0) False), (0, Gives),
      (1, Calls Pop), (1, At (0, 0) False), (1, At (1, 0) False), (1, At (0, 0) False), (1, On_Value), (1, At (2, 0) False), (1, Gives),
      (1, Calls Pop), (1, At (0, 1) False), (1, At (2, 0) False), (1, At (0, 1) False), (1, Gives)]"

definition mpmc_run :: "(nat \<times> nat weak_choice) list" where
  "mpmc_run =
     [(1, Calls (Push 0)), (1, At (0, 0) False), (1, At (0, 0) False), (1, At (0, 0) False), (1, On_Value), (1, At (1, 0) False), (1, Gives),
      (0, Calls Pop), (0, At (0, 0) False), (0, At (1, 0) False), (0, At (0, 0) False), (0, On_Value), (0, At (2, 0) False), (0, Gives)]"

lemma ran:
  assumes "map_option (\<lambda>w. (messages_in (tails w), called w)) (schedule (weak_task Debug) ds weak_world) = Some (k, es)"
  obtains w where "reachable (weak_fresh Debug 1) (weak_step Debug) w" "messages_in (tails w) = k" "called w = es"
  by (rule weak_schedule [OF assms]) (use that in auto)

theorem linearizable_test_passes_witness:
  "\<exists>w :: nat weak_queue. calls_done (events_of 0 (called w)) = [(Push 0, Pushed (Inr ())), (Pop, Popped (Some 0))] \<and>
     Popped None \<notin> snd ` set (calls_done (events_of 0 (called w)))"
proof -
  have "map_option (\<lambda>w. (messages_in (tails w), called w)) (schedule (weak_task Debug) linearizable_run weak_world) =
      Some (3, [Asks 0 (Push 0), Gets 0 (Pushed (Inr ())), Asks 1 (Force_Push 0), Gets 1 (Forced (Some 0)), Asks 0 Pop, Gets 0 (Popped (Some 0))])"
    by code_simp
  then obtain w :: "nat weak_queue" where w: "reachable (weak_fresh Debug 1) (weak_step Debug) w" "messages_in (tails w) = 3"
    "called w = [Asks 0 (Push 0), Gets 0 (Pushed (Inr ())), Asks 1 (Force_Push 0), Gets 1 (Forced (Some 0)), Asks 0 Pop, Gets 0 (Popped (Some 0))]"
    by (rule ran)
  have "few_pushes (unat (1::usize)) w" "obeys (linearizable_test 2 1) (called w)"
    by (simp_all add: few_pushes_def w obeys_def linearizable_test_def push_pop_thread_def force_pop_thread_def last_answer_def rounds_def events_of_def)
  from linearizable_test_passes [OF w(1) this, of 0] w(3) show ?thesis by (intro exI [of _ w]) (simp add: events_of_def)
qed

theorem spsc_test_passes_witness:
  "\<exists>w :: nat weak_queue. calls_done (events_of 1 (called w)) = [(Pop, Popped (Some 0)), (Pop, Popped None)] \<and>
     (\<exists>m \<le> 1. done_with leaves (calls_done (events_of 1 (called w))) = [0..<m])"
proof -
  have "map_option (\<lambda>w. (messages_in (tails w), called w)) (schedule (weak_task Debug) spsc_run weak_world) =
      Some (2, [Asks 0 (Push 0), Gets 0 (Pushed (Inr ())), Asks 1 Pop, Gets 1 (Popped (Some 0)), Asks 1 Pop, Gets 1 (Popped None)])"
    by code_simp
  then obtain w :: "nat weak_queue" where w: "reachable (weak_fresh Debug 1) (weak_step Debug) w" "messages_in (tails w) = 2"
    "called w = [Asks 0 (Push 0), Gets 0 (Pushed (Inr ())), Asks 1 Pop, Gets 1 (Popped (Some 0)), Asks 1 Pop, Gets 1 (Popped None)]"
    by (rule ran)
  have "few_pushes (unat (1::usize)) w" "obeys (spsc_test 1) (called w)"
    by (simp_all add: few_pushes_def w obeys_def spsc_test_def pushes_def done_with_def last_answer_def events_of_def)
  from spsc_test_passes [OF w(1) this] w(3) show ?thesis by (intro exI [of _ w]) (simp add: events_of_def)
qed

theorem mpmc_test_passes_witness:
  "\<exists>w :: nat weak_queue. calls_done (events_of 0 (called w)) = [(Pop, Popped (Some 0))] \<and>
     (\<Sum>t<1. count_list (done_with leaves (calls_done (events_of t (called w)))) 0) = 1"
proof -
  have "map_option (\<lambda>w. (messages_in (tails w), called w)) (schedule (weak_task Debug) mpmc_run weak_world) =
      Some (2, [Asks 1 (Push 0), Gets 1 (Pushed (Inr ())), Asks 0 Pop, Gets 0 (Popped (Some 0))])"
    by code_simp
  then obtain w :: "nat weak_queue" where w: "reachable (weak_fresh Debug 1) (weak_step Debug) w" "messages_in (tails w) = 2"
    "called w = [Asks 1 (Push 0), Gets 1 (Pushed (Inr ())), Asks 0 Pop, Gets 0 (Popped (Some 0))]"
    by (rule ran)
  have "few_pushes (unat (1::usize)) w" "obeys (mpmc_test 1 1) (called w)"
    by (simp_all add: few_pushes_def w obeys_def mpmc_test_def pushes_def done_with_def events_of_def)
  moreover have "length (done_with leaves (calls_done (events_of t (called w)))) = 1" if "t < 1" for t
    using that by (simp add: w(3) events_of_def done_with_def)
  ultimately have "(\<Sum>t<1. count_list (done_with leaves (calls_done (events_of t (called w)))) 0) = (if (0::nat) < 1 then 1 else 0)"
    by (rule mpmc_test_passes [OF w(1)])
  with w(3) show ?thesis by (intro exI [of _ w]) (simp add: events_of_def)
qed

end
