(* ===== verification/Queue_Progress.thy ===== *)
theory Queue_Progress
  imports Queue_Linearizable
begin

text \<open>
  The queue never gets stuck, although it is not lock-free (\<open>stalled_peer_spins\<close>): at every moment of every run a call can
  return within a bounded number of accesses. It needs the others only to finish the slots they are working on, at most three
  accesses each, and if there are none it returns on its own.
\<close>

section \<open>Threads that hold a slot\<close>

text \<open>How many accesses a thread has left from its exchange to its store to the stamp; none if it has no slot.\<close>

fun owed :: "'a q_point \<Rightarrow> nat" where
  "owed (Push_Write _ _ _ _) = 2"
| "owed (Push_Publish _ _ _) = 1"
| "owed (Force_Tail _ _ _ _) = 3"
| "owed (Force_Swap _ _ _) = 2"
| "owed (Force_Publish _ _ _) = 1"
| "owed (Pop_Read _ _) = 2"
| "owed (Pop_Publish _ _ _) = 1"
| "owed _ = 0"

lemma owed_claim: "0 < owed p \<longleftrightarrow> claim n p a \<noteq> None"
  by (cases p) auto

lemma owed_le: "owed p \<le> 3"
  by (cases p) auto

definition holders :: "'a queue_world \<Rightarrow> nat set" where
  "holders w = {u. 0 < owed (at_point w u)}"

lemma few_holders:
  assumes "coherent pr k n g q (at_point w) phs"
  shows "finite (holders w)" "card (holders w) \<le> n"
proof -
  let ?f = "\<lambda>u. the (claims n g (at_point w) u)"
  have c: "claims n g (at_point w) u = Some (?f u)" if "u \<in> holders w" for u
    using that by (auto simp: holders_def claims_def owed_claim [of _ n "pos g u"])
  have inj: "inj_on ?f (holders w)"
    by (rule inj_onI) (rule coherentD(4) [OF assms c], assumption, use c in metis)
  have sub: "?f ` holders w \<subseteq> {hd_pos g..<hd_pos g + n}"
    using claimed_window [OF assms c] by (force simp: in_window_def)
  from inj_on_finite [OF inj sub] show "finite (holders w)" by simp
  from card_inj_on_le [OF inj sub] show "card (holders w) \<le> n" by simp
qed

section \<open>Runs of one thread\<close>

text \<open>A reachable state with room for \<open>m\<close> more positions.\<close>

definition room :: "profile \<Rightarrow> usize \<Rightarrow> nat \<Rightarrow> 'a queue_world \<Rightarrow> bool" where
  "room pr C m w \<longleftrightarrow> reachable (fresh_queue pr C) (q_step pr) w \<and> few_moves (unat C + m) w"

definition over :: "profile \<Rightarrow> 'a q_point \<Rightarrow> bool" where
  "over pr p \<longleftrightarrow> (\<exists>a. p = Returns a) \<or> pr = Debug \<and> p = Halted Overflow"

definition finishes :: "profile \<Rightarrow> nat \<Rightarrow> nat \<Rightarrow> 'a queue_world \<Rightarrow> bool" where
  "finishes pr t m w \<longleftrightarrow> (\<exists>j \<le> m. \<exists>w'. schedule (q_task pr) (replicate j (t, Act False)) w = Some w' \<and>
     history w' = history w \<and> over pr (at_point w' t))"

lemma over_owes_nothing: "over pr p \<Longrightarrow> owed p = 0"
  by (auto simp: over_def)

lemma q_moved [simp]:
  "at_point (q_move pr sp t w) = (at_point w)(t := fst (q_acts pr sp (at_point w t) (shared w)))"
  "shared (q_move pr sp t w) = snd (q_acts pr sp (at_point w t) (shared w))"
  "history (q_move pr sp t w) = history w"
  by (simp_all add: q_move_def split: prod.split)

lemma q_task_access: "at_point w t \<noteq> Q_Idle \<Longrightarrow> \<not> ended (at_point w t) \<Longrightarrow> q_task pr (t, Act sp) w = Some (q_move pr sp t w)"
  by (cases "at_point w t") (simp_all add: q_task_def)

lemma q_task_room:
  assumes "room pr C (Suc m) w" "q_task pr d w = Some w'"
  shows "room pr C m w'"
proof -
  have "tail_moves w' \<le> Suc (tail_moves w)"
    using assms(2) by (cases d) (auto elim!: q_task_cases simp: q_move_def split: prod.split)
  then show ?thesis
    using assms reachable.further [of "fresh_queue pr C" "q_step pr" w w'] q_step.intros [OF assms(2)]
    by (simp add: room_def few_moves_def)
qed

lemma schedule_room:
  "schedule (q_task pr) ds w = Some w' \<Longrightarrow> room pr C (m + length ds) w \<Longrightarrow> room pr C m w'"
proof (induction ds arbitrary: w)
  case (Cons d ds)
  then obtain w1 where "q_task pr d w = Some w1" "schedule (q_task pr) ds w1 = Some w'" by (auto split: option.splits)
  with Cons q_task_room [of pr C "m + length ds" w d w1] show ?case by simp
qed simp

lemma schedule_others:
  "schedule (q_task pr) (replicate j (t, ch)) w = Some w' \<Longrightarrow> u \<noteq> t \<Longrightarrow> at_point w' u = at_point w u"
proof (induction j arbitrary: w)
  case (Suc j)
  then obtain w1 where w1: "q_task pr (t, ch) w = Some w1" "schedule (q_task pr) (replicate j (t, ch)) w1 = Some w'"
    by (auto split: option.splits)
  have "at_point w1 u = at_point w u" using w1(1) Suc.prems(2) by (auto elim!: q_task_cases)
  with Suc.IH [OF w1(2) Suc.prems(2)] show ?case by simp
qed simp

lemma room_less: "room pr C m w \<Longrightarrow> m' \<le> m \<Longrightarrow> room pr C m' w"
  by (auto simp: room_def few_moves_def)

lemma room_coherent:
  assumes "room pr C m w"
  obtains phs k g where "coherent pr k (unat C) g (shared w) (at_point w) phs"
proof -
  have "few_moves (unat C) w" using assms by (simp add: room_def few_moves_def)
  with assms that show thesis unfolding room_def by (metis reachable_glue)
qed

lemma room_over:
  assumes "room pr C m w" "ended (at_point w t)"
  shows "over pr (at_point w t)"
proof -
  obtain phs k g where "coherent pr k (unat C) g (shared w) (at_point w) phs"
    by (rule room_coherent [OF assms(1)])
  from coherentD(2) [OF this, of t] assms(2) show ?thesis by (cases "at_point w t") (auto simp: over_def)
qed

lemma finishes_over: "room pr C m' w \<Longrightarrow> ended (at_point w t) \<Longrightarrow> finishes pr t m w"
  using room_over unfolding finishes_def by (metis le0 replicate_0 schedule.simps(1))

lemma finishes_access:
  assumes "finishes pr t m (q_move pr False t w)" "at_point w t \<noteq> Q_Idle" "\<not> ended (at_point w t)"
  shows "finishes pr t (Suc m) w"
proof -
  obtain j w' where "j \<le> m" "schedule (q_task pr) (replicate j (t, Act False)) (q_move pr False t w) = Some w'"
    "history w' = history w" "over pr (at_point w' t)"
    using assms(1) by (auto simp: finishes_def)
  with q_task_access [OF assms(2,3)] show ?thesis
    unfolding finishes_def by (intro exI [of _ "Suc j"]) auto
qed

lemma finishes_later: "finishes pr t m w \<Longrightarrow> m \<le> m' \<Longrightarrow> finishes pr t m' w"
  unfolding finishes_def by (meson order_trans)

text \<open>A thread that holds a slot finishes with it whatever the others do.\<close>

lemma owner_access:
  assumes coh: "coherent pr k n g q pts phs" and own: "0 < owed (pts t)"
  shows "owed (fst (q_acts pr sp (pts t) q)) = owed (pts t) - 1"
    "owed (pts t) = 1 \<Longrightarrow> ended (fst (q_acts pr sp (pts t) q))"
  using coherentD(2) [OF coh, of t] own acts_own [OF coherentD(1) [OF coh]] by (cases "pts t"; auto)+

lemma owner_finishes:
  "room pr C (owed (at_point w t)) w \<Longrightarrow> 0 < owed (at_point w t) \<Longrightarrow> finishes pr t (owed (at_point w t)) w"
proof (induction "owed (at_point w t)" arbitrary: w)
  case (Suc m)
  obtain phs k g where coh: "coherent pr k (unat C) g (shared w) (at_point w) phs" by (rule room_coherent [OF Suc.prems(1)])
  have busy: "at_point w t \<noteq> Q_Idle" "\<not> ended (at_point w t)" using Suc.prems(2) by (cases "at_point w t"; simp)+
  let ?w = "q_move pr False t w"
  have room: "room pr C m ?w" using q_task_room [OF _ q_task_access [OF busy]] Suc.prems(1) Suc.hyps(2) by simp
  have next_owed: "owed (at_point ?w t) = m" using owner_access(1) [OF coh Suc.prems(2)] Suc.hyps(2) by simp
  have "finishes pr t m ?w"
  proof (cases "m = 0")
    case True
    then have "ended (at_point ?w t)" using owner_access(2) [OF coh Suc.prems(2)] Suc.hyps(2) by simp
    with room show ?thesis by (rule finishes_over)
  next
    case False
    with Suc.hyps(1) [of ?w] room next_owed show ?thesis by simp
  qed
  with finishes_access busy Suc.hyps(2) show ?case by metis
qed simp

text \<open>All the threads of a set do.\<close>

lemma holders_finish:
  assumes "finite S" "S \<subseteq> holders w" "room pr C (m + 3 * card S) w"
  shows "\<exists>ds w'. schedule (q_task pr) ds w = Some w' \<and> length ds \<le> 3 * card S \<and> set ds \<subseteq> S \<times> {Act False} \<and>
    history w' = history w \<and> room pr C m w' \<and> (\<forall>u. if u \<in> S then owed (at_point w' u) = 0 else at_point w' u = at_point w u)"
  using assms
proof (induction S arbitrary: w rule: finite_induct)
  case empty
  then show ?case by (intro exI [of _ "[]"]) simp
next
  case (insert t S)
  have own: "0 < owed (at_point w t)" "owed (at_point w t) \<le> 3" using insert.prems(1) owed_le by (auto simp: holders_def)
  from insert.prems(2) insert.hyps(1,2) have room: "room pr C (m + 3 * card S + 3) w" by (simp add: ac_simps)
  then have "room pr C (owed (at_point w t)) w" by (rule room_less) (use own(2) in simp)
  from owner_finishes [OF this own(1)] obtain j w1 where j: "j \<le> owed (at_point w t)"
    "schedule (q_task pr) (replicate j (t, Act False)) w = Some w1" "history w1 = history w" "over pr (at_point w1 t)"
    by (auto simp: finishes_def)
  have "room pr C (m + 3 * card S + length (replicate j (t, Act False))) w" using room j(1) own(2) by (elim room_less) simp
  from schedule_room [OF j(2) this] have room1: "room pr C (m + 3 * card S) w1" .
  have same: "at_point w1 u = at_point w u" if "u \<noteq> t" for u by (rule schedule_others [OF j(2) that])
  have "S \<subseteq> holders w1"
  proof
    fix u assume "u \<in> S"
    with insert.hyps(2) have "u \<noteq> t" by auto
    with same [OF this] insert.prems(1) \<open>u \<in> S\<close> show "u \<in> holders w1" by (auto simp: holders_def)
  qed
  from insert.IH [OF this room1] obtain ds w' where ds: "schedule (q_task pr) ds w1 = Some w'" "length ds \<le> 3 * card S"
    "set ds \<subseteq> S \<times> {Act False}" "history w' = history w1" "room pr C m w'"
    "\<forall>u. if u \<in> S then owed (at_point w' u) = 0 else at_point w' u = at_point w1 u"
    by blast
  have "at_point w' t = at_point w1 t" using ds(6) insert.hyps(2) by metis
  then have "if u \<in> insert t S then owed (at_point w' u) = 0 else at_point w' u = at_point w u" for u
    using ds(6) [rule_format, of u] same [of u] over_owes_nothing [OF j(4)] by (cases "u = t") auto
  moreover have "length (replicate j (t, Act False) @ ds) \<le> 3 * card (insert t S)"
    using insert.hyps(1,2) ds(2) j(1) own(2) by simp
  moreover have "set (replicate j (t, Act False) @ ds) \<subseteq> insert t S \<times> {Act False}" using ds(3) by auto
  ultimately show ?case
    using ds(1,4,5) j(2,3) by (intro exI [of _ "replicate j (t, Act False) @ ds"] exI [of _ w']) (simp add: schedule_append)
qed

section \<open>A call when nobody holds a slot\<close>

lemma finishes_move:
  assumes "room pr C (Suc m) w" "at_point w t \<noteq> Q_Idle" "\<not> ended (at_point w t)"
    and "q_acts pr False (at_point w t) (shared w) = (p, q)"
    and "\<And>w'. room pr C m w' \<Longrightarrow> at_point w' = (at_point w)(t := p) \<Longrightarrow> shared w' = q \<Longrightarrow> finishes pr t m w'"
  shows "finishes pr t (Suc m) w"
proof (rule finishes_access [OF assms(5) assms(2,3)])
  show "room pr C m (q_move pr False t w)" by (rule q_task_room [OF assms(1) q_task_access [OF assms(2,3)]])
qed (simp_all add: assms(4))

text \<open>An access that ends the call, or after which the thread holds a slot, is as good as done.\<close>

lemma finishes_soon: "room pr C m w \<Longrightarrow> ended (at_point w t) \<or> 0 < owed (at_point w t) \<and> owed (at_point w t) \<le> m \<Longrightarrow> finishes pr t m w"
  using finishes_over finishes_later [OF owner_finishes] room_less by metis

lemma clear_queue:
  assumes coh: "coherent pr k n g q (at_point w) phs" and "holders w = {}"
  shows "end_pos g = tl_pos g" "hd_pos g \<le> c \<Longrightarrow> c < hd_pos g + n \<Longrightarrow> slot_fits k n g q c"
proof -
  have none: "claims n g (at_point w) u = None" for u
    using assms(2) by (auto simp: holders_def claims_def owed_claim [of _ n "pos g u"])
  then show "end_pos g = tl_pos g" using coherentD(5) [OF coh] mem_okD(9,10) [OF coherentD(1) [OF coh]] by fastforce
  show "slot_fits k n g q c" if "hd_pos g \<le> c" "c < hd_pos g + n"
    using coherentD(3) [OF coh, of c] that none by (simp add: in_window_def)
qed

lemma push_fresh:
  assumes room: "room pr C 5 w" and coh: "coherent pr k (unat C) g (shared w) (at_point w) phs" and none: "holders w = {}"
    and at: "at_point w t = Push_Stamp kd v (enc k (unat C) (tl_pos g)) bo"
  shows "finishes pr t 5 w"
proof -
  let ?n = "unat C" and ?T = "tl_pos g" and ?H = "hd_pos g"
  note mem = coherentD(1) [OF coh]
  note m = mem_okD [OF mem] and clear = clear_queue [OF coh none]
  show ?thesis
  proof (cases "?T < ?H + ?n")
    case True
    with clear(1) clear(2) [of ?T] m(8) have "st_at ?n (shared w) ?T = enc k ?n ?T" by (simp add: slot_fits_def)
    then have 1: "q_acts pr False (at_point w t) (shared w) =
        (Push_Cas kd v (enc k ?n ?T) (enc k ?n (Suc ?T)) (?T mod ?n) bo, shared w)"
      by (simp add: at acts_stamps [OF mem])
    have "finishes pr t 4 w'" if "room pr C 4 w'" "at_point w' = (at_point w)(t := Push_Cas kd v (enc k ?n ?T) (enc k ?n (Suc ?T)) (?T mod ?n) bo)"
      "shared w' = shared w" for w'
      by (rule finishes_move [where m = 3, simplified, OF that(1)]) (auto simp: that(2,3) acts_exchanges [OF mem] intro!: finishes_soon)
    then show ?thesis by (intro finishes_move [where m = 4, simplified, OF room _ _ 1]) (simp_all add: at)
  next
    case False
    then have T: "?T = ?H + ?n" using m(11) clear(1) by linarith
    with clear(1) clear(2) [of ?H] m(3) have "st_at ?n (shared w) ?H = enc k ?n ?H + 1" by (simp add: slot_fits_def)
    then have st: "st_at ?n (shared w) ?T = enc k ?n ?H + 1" by (simp add: T)
    have lap: "enc k ?n ?H + 2 ^ k = enc k ?n ?T" unfolding T by (rule enc_add_lap [OF m(2)])
    have "?H mod ?n = ?T mod ?n" by (simp add: T)
    from enc_plus_1_ne [OF m(2) this] have "enc k ?n ?T \<noteq> st_at ?n (shared w) ?T" by (simp only: st not_sym)
    moreover have "st_at ?n (shared w) ?T + 2 ^ k = enc k ?n ?T + 1" unfolding st lap [symmetric] by simp
    ultimately have 1: "q_acts pr False (at_point w t) (shared w) =
        (Push_Full kd v (enc k ?n ?T) (enc k ?n (Suc ?T)) (?T mod ?n) bo, shared w)"
      by (simp add: at acts_stamps [OF mem])
    have "finishes pr t 4 w'" if "room pr C 4 w'" "at_point w' = (at_point w)(t := Push_Full kd v (enc k ?n ?T) (enc k ?n (Suc ?T)) (?T mod ?n) bo)"
      "shared w' = shared w" for w'
      by (cases kd; rule finishes_move [where m = 3, simplified, OF that(1)])
        (auto simp: that(2,3) acts_exchanges [OF mem] acts_loads [OF mem] simp flip: lap intro!: finishes_soon)
    then show ?thesis by (intro finishes_move [where m = 4, simplified, OF room _ _ 1]) (simp_all add: at)
  qed
qed

lemma pop_fresh:
  assumes room: "room pr C 4 w" and coh: "coherent pr k (unat C) g (shared w) (at_point w) phs" and none: "holders w = {}"
    and at: "at_point w t = Pop_Stamp (enc k (unat C) (hd_pos g)) bo"
  shows "finishes pr t 4 w"
proof -
  let ?n = "unat C" and ?T = "tl_pos g" and ?H = "hd_pos g"
  note mem = coherentD(1) [OF coh]
  note m = mem_okD [OF mem] and clear = clear_queue [OF coh none]
  show ?thesis
  proof (cases "?H < ?T")
    case True
    with clear(1) clear(2) [of ?H] m(3) have "st_at ?n (shared w) ?H = enc k ?n ?H + 1" by (simp add: slot_fits_def)
    then have 1: "q_acts pr False (at_point w t) (shared w) = (Pop_Cas (enc k ?n ?H) (enc k ?n (Suc ?H)) (?H mod ?n) bo, shared w)"
      by (simp add: at acts_stamps [OF mem])
    have "finishes pr t 3 w'" if "room pr C 3 w'" "at_point w' = (at_point w)(t := Pop_Cas (enc k ?n ?H) (enc k ?n (Suc ?H)) (?H mod ?n) bo)"
      "shared w' = shared w" for w'
      by (rule finishes_move [where m = 2, simplified, OF that(1)]) (auto simp: that(2,3) acts_exchanges [OF mem] intro!: finishes_soon)
    then show ?thesis by (intro finishes_move [where m = 3, simplified, OF room _ _ 1]) (simp_all add: at)
  next
    case False
    then have T: "?T = ?H" using m(8) by linarith
    with clear(1) clear(2) [of ?H] m(3) have "st_at ?n (shared w) ?H = enc k ?n ?H" by (simp add: slot_fits_def)
    then have 1: "q_acts pr False (at_point w t) (shared w) = (Pop_Tail (enc k ?n ?H) bo, shared w)"
      by (simp add: at acts_stamps [OF mem])
    have "finishes pr t 3 w'" if "room pr C 3 w'" "at_point w' = (at_point w)(t := Pop_Tail (enc k ?n ?H) bo)"
      "shared w' = shared w" for w'
      by (rule finishes_move [where m = 2, simplified, OF that(1)]) (auto simp: that(2,3) acts_loads [OF mem] T intro!: finishes_soon)
    then show ?thesis by (intro finishes_move [where m = 3, simplified, OF room _ _ 1]) (simp_all add: at)
  qed
qed

text \<open>A call that has an old position in view finds out, and takes the current one.\<close>

lemma push_at_tail:
  assumes "room pr C 5 w" "holders w = {}" "at_point w t = Push_Stamp kd v (cval (tail (shared w))) bo"
  shows "finishes pr t 5 w"
proof -
  obtain phs k g where coh: "coherent pr k (unat C) g (shared w) (at_point w) phs" by (rule room_coherent [OF assms(1)])
  show ?thesis
    by (rule push_fresh [OF assms(1) coh assms(2)]) (simp add: assms(3) mem_okD(7) [OF coherentD(1) [OF coh]] new_cell_def)
qed

lemma pop_at_head:
  assumes "room pr C 4 w" "holders w = {}" "at_point w t = Pop_Stamp (cval (head (shared w))) bo"
  shows "finishes pr t 4 w"
proof -
  obtain phs k g where coh: "coherent pr k (unat C) g (shared w) (at_point w) phs" by (rule room_coherent [OF assms(1)])
  show ?thesis
    by (rule pop_fresh [OF assms(1) coh assms(2)]) (simp add: assms(3) mem_okD(6) [OF coherentD(1) [OF coh]] new_cell_def)
qed

lemma still_clear: "holders w = {} \<Longrightarrow> at_point w' = (at_point w)(t := p) \<Longrightarrow> owed p = 0 \<Longrightarrow> holders w' = {}"
  by (auto simp: holders_def)

lemma push_again:
  assumes room: "room pr C 6 w" and none: "holders w = {}" and at: "at_point w t = Push_Load kd v \<or> at_point w t = Push_Reload kd v bo"
  shows "finishes pr t 6 w"
proof -
  obtain phs k g where "coherent pr k (unat C) g (shared w) (at_point w) phs" by (rule room_coherent [OF room])
  note mem = coherentD(1) [OF this]
  obtain bo' where act: "q_acts pr False (at_point w t) (shared w) = (Push_Stamp kd v (cval (tail (shared w))) bo', shared w)"
    using at by (auto simp: acts_loads [OF mem] mem_okD(7) [OF mem] new_cell_def)
  show ?thesis
  proof (rule finishes_move [where m = 5, simplified, OF room _ _ act])
    fix w' assume w': "room pr C 5 w'" "at_point w' = (at_point w)(t := Push_Stamp kd v (cval (tail (shared w))) bo')" "shared w' = shared w"
    from push_at_tail [OF w'(1) still_clear [OF none w'(2)]] w'(2,3) show "finishes pr t 5 w'" by simp
  qed (use at in auto)
qed

lemma pop_again:
  assumes room: "room pr C 5 w" and none: "holders w = {}" and at: "at_point w t = Pop_Load \<or> at_point w t = Pop_Reload bo"
  shows "finishes pr t 5 w"
proof -
  obtain phs k g where "coherent pr k (unat C) g (shared w) (at_point w) phs" by (rule room_coherent [OF room])
  note mem = coherentD(1) [OF this]
  obtain bo' where act: "q_acts pr False (at_point w t) (shared w) = (Pop_Stamp (cval (head (shared w))) bo', shared w)"
    using at by (auto simp: acts_loads [OF mem] mem_okD(6) [OF mem] new_cell_def)
  show ?thesis
  proof (rule finishes_move [where m = 4, simplified, OF room _ _ act])
    fix w' assume w': "room pr C 4 w'" "at_point w' = (at_point w)(t := Pop_Stamp (cval (head (shared w))) bo')" "shared w' = shared w"
    from pop_at_head [OF w'(1) still_clear [OF none w'(2)]] w'(2,3) show "finishes pr t 4 w'" by simp
  qed (use at in auto)
qed

lemma exchange_finishes:
  assumes room: "room pr C 6 w" and none: "holders w = {}"
  shows "at_point w t = Push_Cas kd v tv nt i bo \<Longrightarrow> finishes pr t 6 w" "at_point w t = Pop_Cas h nh i bo \<Longrightarrow> finishes pr t 6 w"
proof -
  obtain phs k g where "coherent pr k (unat C) g (shared w) (at_point w) phs" by (rule room_coherent [OF room])
  note mem = coherentD(1) [OF this]
  have ends: "enc k (unat C) (tl_pos g) = cval (tail (shared w))" "enc k (unat C) (hd_pos g) = cval (head (shared w))"
    by (simp_all add: mem_okD(6,7) [OF mem] new_cell_def)
  show "finishes pr t 6 w" if at: "at_point w t = Push_Cas kd v tv nt i bo"
  proof (rule finishes_move [where m = 5, simplified, OF room])
    fix w' assume w': "room pr C 5 w'" "at_point w' = (at_point w)(t := fst (q_acts pr False (at_point w t) (shared w)))"
      "shared w' = snd (q_acts pr False (at_point w t) (shared w))"
    show "finishes pr t 5 w'"
    proof (cases "cval (tail (shared w)) = tv")
      case True
      with w' at show ?thesis by (intro finishes_soon) (auto simp: acts_exchanges [OF mem] ends)
    next
      case False
      then show ?thesis
        using w' at push_at_tail [OF w'(1) still_clear [OF none w'(2)]]
        by (cases "spun pr bo") (auto simp: acts_exchanges [OF mem] ends intro: finishes_over)
    qed
  qed (simp_all add: at)
  show "finishes pr t 6 w" if at: "at_point w t = Pop_Cas h nh i bo"
  proof (rule finishes_move [where m = 5, simplified, OF room])
    fix w' assume w': "room pr C 5 w'" "at_point w' = (at_point w)(t := fst (q_acts pr False (at_point w t) (shared w)))"
      "shared w' = snd (q_acts pr False (at_point w t) (shared w))"
    show "finishes pr t 5 w'"
    proof (cases "cval (head (shared w)) = h")
      case True
      with w' at show ?thesis by (intro finishes_soon) (auto simp: acts_exchanges [OF mem] ends)
    next
      case False
      then show ?thesis
        using w' at finishes_later [OF pop_at_head [OF room_less [OF w'(1)] still_clear [OF none w'(2)], where t = t], of _ 5]
        by (cases "spun pr bo") (auto simp: acts_exchanges [OF mem] ends intro: finishes_over)
    qed
  qed (simp_all add: at)
qed

lemma full_finishes:
  assumes room: "room pr C 7 w" and none: "holders w = {}"
  shows "at_point w t = Push_Full kd v tv nt i bo \<Longrightarrow> finishes pr t 7 w" "at_point w t = Pop_Tail h bo \<Longrightarrow> finishes pr t 7 w"
proof -
  obtain phs k g where "coherent pr k (unat C) g (shared w) (at_point w) phs" by (rule room_coherent [OF room])
  note mem = coherentD(1) [OF this]
  show "finishes pr t 7 w" if at: "at_point w t = Push_Full kd v tv nt i bo"
  proof (rule finishes_move [where m = 6, simplified, OF room _ _ prod.collapse [symmetric]])
    fix w' assume w': "room pr C 6 w'" "at_point w' = (at_point w)(t := fst (q_acts pr False (at_point w t) (shared w)))"
    show "finishes pr t 6 w'"
    proof (cases "\<exists>bo'. at_point w' t = Push_Reload kd v bo'")
      case True
      with w' push_again [OF w'(1) still_clear [OF none w'(2)], of t kd v] show ?thesis by auto
    next
      case False
      with w'(2) at show ?thesis
        by (intro finishes_soon [OF w'(1)]; cases kd; cases "spun pr bo")
          (auto simp: acts_exchanges [OF mem] acts_loads [OF mem] split: if_splits)
    qed
  qed (simp_all add: at)
  show "finishes pr t 7 w" if at: "at_point w t = Pop_Tail h bo"
  proof (rule finishes_move [where m = 6, simplified, OF room _ _ prod.collapse [symmetric]])
    fix w' assume w': "room pr C 6 w'" "at_point w' = (at_point w)(t := fst (q_acts pr False (at_point w t) (shared w)))"
    show "finishes pr t 6 w'"
    proof (cases "\<exists>bo'. at_point w' t = Pop_Reload bo'")
      case True
      with w' finishes_later [OF pop_again [OF room_less [OF w'(1)] still_clear [OF none w'(2)], where t = t], of _ 6]
      show ?thesis by auto
    next
      case False
      with w'(2) at show ?thesis
        by (intro finishes_soon [OF w'(1)]; cases "spun pr bo") (auto simp: acts_loads [OF mem] split: if_splits)
    qed
  qed (simp_all add: at)
qed

lemma solo_finishes:
  assumes room: "room pr C 8 w" and none: "holders w = {}" and busy: "at_point w t \<noteq> Q_Idle"
  shows "finishes pr t 8 w"
proof -
  obtain phs k g where coh: "coherent pr k (unat C) g (shared w) (at_point w) phs" by (rule room_coherent [OF room])
  note mem = coherentD(1) [OF coh] and ok = coherentD(2) [OF coh, of t]
  note room' = room_less [OF room]
  have owes: "owed (at_point w t) = 0" using none by (auto simp: holders_def)
  have view: "finishes pr t 8 w" if stamp: "(\<exists>kd v tv bo. at_point w t = Push_Stamp kd v tv bo) \<or> (\<exists>h bo. at_point w t = Pop_Stamp h bo)"
  proof (rule finishes_move [where m = 7, simplified, OF room _ _ prod.collapse [symmetric]])
    fix w' assume w': "room pr C 7 w'" "at_point w' = (at_point w)(t := fst (q_acts pr False (at_point w t) (shared w)))"
    let ?p = "at_point w' t"
    have goes: "(\<exists>kd v tv nt i bo. ?p = Push_Cas kd v tv nt i bo \<or> ?p = Push_Full kd v tv nt i bo) \<or>
        (\<exists>kd v bo. ?p = Push_Reload kd v bo) \<or> (\<exists>h nh i bo. ?p = Pop_Cas h nh i bo) \<or>
        (\<exists>h bo. ?p = Pop_Tail h bo) \<or> (\<exists>bo. ?p = Pop_Reload bo) \<or> ended ?p"
      using stamp ok w'(2) by (auto simp: acts_stamps [OF mem] split: if_splits sum.splits)
    then have "ended ?p \<or> owed ?p = 0" by auto
    moreover have clear: "holders w' = {}" if "owed ?p = 0" using still_clear [OF none w'(2)] that w'(2) by simp
    ultimately show "finishes pr t 7 w'"
      using goes finishes_over [OF w'(1), of t 7] full_finishes [OF w'(1) clear, of t]
        exchange_finishes [OF room_less [OF w'(1)] clear, of t, THEN finishes_later]
        push_again [OF room_less [OF w'(1)] clear, of t, THEN finishes_later]
        pop_again [OF room_less [OF w'(1)] clear, of t, THEN finishes_later]
      by (elim disjE exE) simp_all
  qed (use that in auto)
  show ?thesis
  proof (cases "at_point w t")
    case (Push_Stamp kd v tv bo) then show ?thesis using view by blast
  next
    case (Pop_Stamp h bo) then show ?thesis using view by blast
  next
    case (Push_Cas kd v tv nt i bo)
    from exchange_finishes(1) [OF room' none this] show ?thesis by (rule finishes_later) simp_all
  next
    case (Pop_Cas h nh i bo)
    from exchange_finishes(2) [OF room' none this] show ?thesis by (rule finishes_later) simp_all
  next
    case (Push_Full kd v tv nt i bo)
    from full_finishes(1) [OF room' none this] show ?thesis by (rule finishes_later) simp_all
  next
    case (Pop_Tail h bo)
    from full_finishes(2) [OF room' none this] show ?thesis by (rule finishes_later) simp_all
  next
    case (Push_Load kd v)
    with push_again [OF room' none, of t] show ?thesis by (auto elim: finishes_later)
  next
    case (Push_Reload kd v bo)
    with push_again [OF room' none, of t] show ?thesis by (auto elim: finishes_later)
  next
    case Pop_Load
    with pop_again [OF room' none, of t] show ?thesis by (auto elim: finishes_later)
  next
    case (Pop_Reload bo)
    with pop_again [OF room' none, of t] show ?thesis by (auto elim: finishes_later)
  qed (use busy owes in \<open>auto intro: finishes_over [OF room]\<close>)
qed

section \<open>Properties\<close>

text \<open>C10: the queue never gets stuck, although it is not lock-free. At every moment of every run, with
  any number of calls under way and any of them stopped anywhere, a pending call can return after the threads that hold a slot (at
  most one for each slot of the buffer) have finished with it, at most three accesses each, and after at most eight accesses of its own;
  nobody else has to move, and no other call starts or returns. So a call returns on its own when nobody holds a slot. (In a debug build
  a call that has already spun 2^64 times may overflow its counter instead.)\<close>

theorem queue_never_stuck:
  fixes w :: "'a queue_world"
  assumes "reachable (fresh_queue pr C) (q_step pr) w" "few_moves (4 * unat C + 8) w" "at_point w t \<noteq> Q_Idle"
  shows "finite (holders w) \<and> card (holders w) \<le> unat C \<and>
    (\<exists>ds w'. schedule (q_task pr) ds w = Some w' \<and> length ds \<le> 3 * card (holders w - {t}) + 8 \<and>
      set ds \<subseteq> insert t (holders w) \<times> {Act False} \<and> history w' = history w \<and>
      ((\<exists>a. at_point w' t = Returns a) \<or> pr = Debug \<and> at_point w' t = Halted Overflow))"
proof -
  let ?S = "holders w - {t}"
  obtain phs k g where coh: "coherent pr k (unat C) g (shared w) (at_point w) phs"
    by (rule room_coherent [of pr C 0 w]) (use assms(1,2) in \<open>simp add: room_def few_moves_def\<close>)
  note few = few_holders [OF coh]
  have "card ?S \<le> unat C" using few card_Diff1_le [of "holders w" t] by linarith
  then have room: "room pr C (8 + 3 * card ?S) w" using assms(1,2) by (simp add: room_def few_moves_def)
  from holders_finish [OF _ _ room] few(1) obtain ds w1 where ds: "schedule (q_task pr) ds w = Some w1"
    "length ds \<le> 3 * card ?S" "set ds \<subseteq> ?S \<times> {Act False}" "history w1 = history w" "room pr C 8 w1"
    "\<forall>u. if u \<in> ?S then owed (at_point w1 u) = 0 else at_point w1 u = at_point w u"
    by auto
  have own: "at_point w1 t = at_point w t" using ds(6) [rule_format, of t] by simp
  have rest: "u = t" if "u \<in> holders w1" for u
    using ds(6) [rule_format, of u] that by (auto simp: holders_def split: if_splits)
  have "finishes pr t 8 w1"
  proof (cases "holders w1 = {}")
    case True
    show ?thesis by (rule solo_finishes [OF ds(5) True]) (simp add: own assms(3))
  next
    case False
    then have "t \<in> holders w1" using rest by blast
    then have "0 < owed (at_point w1 t)" by (simp add: holders_def)
    with owed_le [of "at_point w1 t"] show ?thesis by (intro finishes_soon [OF ds(5)]) simp
  qed
  then obtain j w' where j: "j \<le> 8" "schedule (q_task pr) (replicate j (t, Act False)) w1 = Some w'" "history w' = history w1"
    "over pr (at_point w' t)"
    by (auto simp: finishes_def)
  have "set (ds @ replicate j (t, Act False)) \<subseteq> insert t (holders w) \<times> {Act False}" using ds(3) by auto
  moreover have "length (ds @ replicate j (t, Act False)) \<le> 3 * card ?S + 8" using ds(2) j(1) by simp
  ultimately show ?thesis
    using few ds(1,4) j(2-4) unfolding over_def
    by (intro conjI exI [of _ "ds @ replicate j (t, Act False)"] exI [of _ w']) (simp_all add: schedule_append)
qed

section \<open>Witness\<close>

text \<open>A \<open>force_push\<close> stopped between its exchange on the head and its store to the tail, and a pop that begins.\<close>

theorem queue_never_stuck_witness:
  "\<exists>(w :: nat queue_world) ds w'. owed (at_point w 0) = 3 \<and> at_point w 1 = Pop_Load \<and> schedule (q_task Debug) ds w = Some w' \<and>
     length ds \<le> 11 \<and> ((\<exists>a. at_point w' 1 = Returns a) \<or> at_point w' 1 = Halted Overflow)"
proof -
  have "map_option (\<lambda>w. (tail_moves w, owed (at_point w 0), at_point w 1)) (schedule (q_task Debug) (half_forced @ [(1, Ask Pop)]) start_world) =
      Some (1, 3, Pop_Load)" by code_simp
  then obtain w :: "nat queue_world" where w': "reachable (fresh_queue Debug 1) (q_step Debug) w"
    "(tail_moves w, owed (at_point w 0), at_point w 1) = (1, 3, Pop_Load)"
    by (rule schedule_world)
  then have w: "tail_moves w = 1" "owed (at_point w 0) = 3" "at_point w 1 = Pop_Load" by simp_all
  have few: "few_moves (4 * unat (1::usize) + 8) w" by (simp add: few_moves_def w(1))
  from queue_never_stuck [OF w'(1) few, of 1] w(3) obtain ds w' where ds: "card (holders w) \<le> 1" "finite (holders w)"
    "schedule (q_task Debug) ds w = Some w'" "length ds \<le> 3 * card (holders w - {1}) + 8"
    "(\<exists>a. at_point w' 1 = Returns a) \<or> at_point w' 1 = Halted Overflow"
    by auto
  have "card (holders w - {1}) \<le> 1" using ds(1) card_Diff1_le [of "holders w" 1] by linarith
  with ds(3-5) w(2,3) show ?thesis by (intro exI [of _ w] exI [of _ ds] exI [of _ w']) auto
qed

end
