(* ===== verification/Executor.thy ===== *)
theory Executor
  imports Quiet_Polls Transition
begin

text \<open>
  \<open>RefCount\<close> under a single-threaded executor: a request, a poll or a drop runs to its end
  before anything else does, and the executor polls a task that has been woken. The steps are
  the functions of \<open>Ref_Count\<close> and \<open>Futures\<close> themselves, each with its own list of
  spurious failures. No future is dropped while it is pending, and \<open>try_get_exclusive_ref\<close>
  is not used (\<open>Protocol_Runs\<close> shows what either does).
\<close>

section \<open>The executor\<close>

datatype mode =
    Off
  | Reading
  | Writing
  | Awaits_Ref future_ref
  | Awaits_Excl future_exclusive_ref

record executor =
  lock :: ref_count
  mem :: memory           \<comment> \<open>\<open>woken\<close> holds the wake-ups not served yet\<close>
  modes :: "nat \<Rightarrow> mode"

datatype decision = Request_Ref | Request_Excl | Poll_Task | Drop_Handle

datatype outcome = Disabled | Diverges | Faults fault | Next executor

definition weakly :: "bool list \<Rightarrow> ref_count \<Rightarrow> ref_count" where
  "weakly ss rc = rc\<lparr>count := (count rc)\<lparr>cenv := map (\<lambda>s. (None, s)) ss\<rparr>\<rparr>"

definition served :: "nat \<Rightarrow> memory \<Rightarrow> memory" where
  "served t m = m\<lparr>woken := removeAll t (woken m)\<rparr>"

definition set_mode :: "nat \<Rightarrow> mode \<Rightarrow> ref_count \<Rightarrow> memory \<Rightarrow> executor \<Rightarrow> outcome" where
  "set_mode t md rc m s = Next (s\<lparr>lock := rc, mem := m, modes := (modes s)(t := md)\<rparr>)"

text \<open>A task that gets a future goes on to poll it: it is woken at once.\<close>

definition exec_step :: "profile \<Rightarrow> nat \<times> decision \<times> bool list \<Rightarrow> executor \<Rightarrow> outcome" where
  "exec_step pr d s = (case d of (t, what, ss) \<Rightarrow>
     let rc = weakly ss (lock s); m = mem s in
     (case (what, modes s t) of
        (Request_Ref, Off) \<Rightarrow>
          (case get_ref pr t rc m of (r, rc, m) \<Rightarrow>
           (case r of
              Inl e \<Rightarrow> Faults e
            | Inr (Ready _) \<Rightarrow> set_mode t Reading rc m s
            | Inr (Future f) \<Rightarrow> set_mode t (Awaits_Ref f) rc (wake_task t m) s))
      | (Request_Excl, Off) \<Rightarrow>
          (case get_exclusive_ref t rc m of (r, rc, m) \<Rightarrow>
           (case r of
              Ready _ \<Rightarrow> set_mode t Writing rc m s
            | Future f \<Rightarrow> set_mode t (Awaits_Excl f) rc (wake_task t m) s))
      | (Poll_Task, Awaits_Ref f) \<Rightarrow>
          if t \<notin> set (woken m) then Disabled
          else (case poll_future_ref pr t f rc (served t m) of
              None \<Rightarrow> Diverges
            | Some (Inl e, rc, m) \<Rightarrow> Faults e
            | Some (Inr (Poll_Ready _), rc, m) \<Rightarrow> set_mode t Reading rc (free_flag (ref_flag f) m) s
            | Some (Inr Pending, rc, m) \<Rightarrow> set_mode t (Awaits_Ref f) rc m s)
      | (Poll_Task, Awaits_Excl f) \<Rightarrow>
          if t \<notin> set (woken m) then Disabled
          else (case poll_future_exclusive_ref pr t f rc (served t m) of
              None \<Rightarrow> Diverges
            | Some (Inl e, f, rc, m) \<Rightarrow> Faults e
            | Some (Inr (Poll_Ready _), f, rc, m) \<Rightarrow> set_mode t Writing rc m s
            | Some (Inr Pending, f, rc, m) \<Rightarrow> set_mode t (Awaits_Excl f) rc m s)
      | (Drop_Handle, Reading) \<Rightarrow> set_mode t Off (drop_ref Ref rc) m s
      | (Drop_Handle, Writing) \<Rightarrow>
          (case drop_exclusive pr ExclusiveRef rc m of
              None \<Rightarrow> Diverges
            | Some (Inl e, rc, m) \<Rightarrow> Faults e
            | Some (Inr _, rc, m) \<Rightarrow> set_mode t Off rc m s)
      | _ \<Rightarrow> Disabled))"

text \<open>A new \<open>RefCount\<close> of capacity \<open>C\<close>, and every task \<open>t < M\<close> still off.\<close>

definition executor_init :: "profile \<Rightarrow> usize \<Rightarrow> executor \<Rightarrow> bool" where
  "executor_init pr C s \<longleftrightarrow> new_ref_count pr C = Inr (lock s) \<and>
     mem s = \<lparr>flags = (\<lambda>_. None), woken = []\<rparr> \<and> modes s = (\<lambda>_. Off)"

inductive executes :: "profile \<Rightarrow> nat \<Rightarrow> executor \<Rightarrow> executor \<Rightarrow> bool"
  for pr M where
  executes: "t < M \<Longrightarrow> exec_step pr (t, what, ss) s = Next s' \<Longrightarrow> executes pr M s s'"

section \<open>The invariant\<close>

text \<open>The future of task \<open>t\<close> has its flag at \<open>t\<close>; without a flag it has set the block.\<close>

definition flagged :: "nat \<Rightarrow> mode \<Rightarrow> bool" where
  "flagged t md \<longleftrightarrow> md = Awaits_Ref \<lparr>ref_flag = t\<rparr> \<or>
     md = Awaits_Excl \<lparr>blocked_fut = Some \<lparr>blocked_flag = t\<rparr>\<rparr>"

definition quiescing :: "mode \<Rightarrow> bool" where
  "quiescing md \<longleftrightarrow> md = Awaits_Excl \<lparr>blocked_fut = None\<rparr>"

text \<open>
  \<open>n\<close> tasks read; the block bit \<open>b\<close> is set exactly while one task owns the block; a task that
  writes is alone; \<open>ts\<close> are the tasks in the waiter queue, their flags are set, the flags of the
  other pending futures are not; nobody waits in the queue of an open lock, and whoever is
  pending and not in the queue has been woken.
\<close>

definition num_readers :: "(nat \<Rightarrow> mode) \<Rightarrow> nat" where
  "num_readers md = card {t. md t = Reading}"

definition view :: "nat \<Rightarrow> nat \<Rightarrow> bool \<Rightarrow> nat list \<Rightarrow> (nat \<Rightarrow> mode) \<Rightarrow> memory \<Rightarrow> bool" where
  "view M n b ts md m \<longleftrightarrow>
     (\<forall>t. md t \<in> {Off, Reading, Writing} \<or> flagged t (md t) \<or> quiescing (md t)) \<and>
     (\<forall>t. M \<le> t \<longrightarrow> md t = Off) \<and>
     n = num_readers md \<and>
     (b \<longleftrightarrow> (\<exists>t. md t = Writing \<or> quiescing (md t))) \<and>
     (\<forall>t u. md t = Writing \<or> quiescing (md t) \<longrightarrow> md u = Writing \<or> quiescing (md u) \<longrightarrow> t = u) \<and>
     (\<forall>t. md t = Writing \<longrightarrow> n = 0) \<and>
     (\<forall>t. flags m t = (if flagged t (md t) then Some (t \<in> set ts) else None)) \<and>
     (\<forall>t \<in> set ts. flagged t (md t)) \<and> distinct ts \<and> (ts \<noteq> [] \<longrightarrow> b) \<and>
     (\<forall>t. flagged t (md t) \<or> quiescing (md t) \<longrightarrow> t \<in> set (woken m) \<or> t \<in> set ts)"

definition entries :: "nat list \<Rightarrow> waiter list" where
  "entries ts = map (\<lambda>t. new_waiter t t) ts"

definition executor_ok :: "nat \<Rightarrow> nat \<Rightarrow> executor \<Rightarrow> bool" where
  "executor_ok N M s \<longleftrightarrow>
     (\<exists>n b ts. rc_ok (lock s) n b N (entries ts) \<and> view M n b ts (modes s) (mem s))"

section \<open>How the view changes\<close>

lemma mode_kinds [simp]:
  "\<not> flagged t Off" "\<not> flagged t Reading" "\<not> flagged t Writing"
  "\<not> quiescing Off" "\<not> quiescing Reading" "\<not> quiescing Writing"
  "flagged t md \<Longrightarrow> \<not> quiescing md"
  by (auto simp: flagged_def quiescing_def)

lemma view_finite: "view M n b ts md m \<Longrightarrow> finite {t. md t = Reading}"
  by (rule finite_subset [of _ "{..<M}"]) (force simp: view_def not_le [symmetric])+

lemma view_count: "view M n b ts md m \<Longrightarrow> t < M \<Longrightarrow> md t \<noteq> Reading \<Longrightarrow> n < M"
proof -
  assume v: "view M n b ts md m" and t: "t < M" "md t \<noteq> Reading"
  then have "{u. md u = Reading} \<subset> {..<M}" by (auto simp: view_def not_le [symmetric])
  then show "n < M" using v psubset_card_mono [of "{..<M}"] by (auto simp: view_def num_readers_def)
qed

lemma viewD:
  assumes "view M n b ts md m"
  shows "md t \<in> {Off, Reading, Writing} \<or> flagged t (md t) \<or> quiescing (md t)"
    "M \<le> t \<Longrightarrow> md t = Off" "n = num_readers md"
    "b \<longleftrightarrow> (\<exists>t. md t = Writing \<or> quiescing (md t))"
    "md t = Writing \<or> quiescing (md t) \<Longrightarrow> md u = Writing \<or> quiescing (md u) \<Longrightarrow> t = u"
    "md t = Writing \<Longrightarrow> n = 0"
    "flags m t = (if flagged t (md t) then Some (t \<in> set ts) else None)"
    "t \<in> set ts \<Longrightarrow> flagged t (md t)" "distinct ts" "ts \<noteq> [] \<Longrightarrow> b"
    "flagged t (md t) \<or> quiescing (md t) \<Longrightarrow> t \<in> set (woken m) \<or> t \<in> set ts"
  subgoal by (rule assms [unfolded view_def, THEN conjunct1, rule_format])
  subgoal by (rule assms [unfolded view_def, THEN conjunct2, THEN conjunct1, rule_format])
  subgoal by (rule assms [unfolded view_def, THEN conjunct2, THEN conjunct2, THEN conjunct1, rule_format])
  subgoal by (rule assms [unfolded view_def, THEN conjunct2, THEN conjunct2, THEN conjunct2, THEN conjunct1, rule_format])
  subgoal by (rule assms [unfolded view_def, THEN conjunct2, THEN conjunct2, THEN conjunct2, THEN conjunct2, THEN conjunct1, rule_format])
  subgoal by (rule assms [unfolded view_def, THEN conjunct2, THEN conjunct2, THEN conjunct2, THEN conjunct2, THEN conjunct2, THEN conjunct1, rule_format])
  subgoal by (rule assms [unfolded view_def, THEN conjunct2, THEN conjunct2, THEN conjunct2, THEN conjunct2, THEN conjunct2, THEN conjunct2, THEN conjunct1, rule_format])
  subgoal by (rule assms [unfolded view_def, THEN conjunct2, THEN conjunct2, THEN conjunct2, THEN conjunct2, THEN conjunct2, THEN conjunct2, THEN conjunct2, THEN conjunct1, rule_format])
  subgoal by (rule assms [unfolded view_def, THEN conjunct2, THEN conjunct2, THEN conjunct2, THEN conjunct2, THEN conjunct2, THEN conjunct2, THEN conjunct2, THEN conjunct2, THEN conjunct1, rule_format])
  subgoal by (rule assms [unfolded view_def, THEN conjunct2, THEN conjunct2, THEN conjunct2, THEN conjunct2, THEN conjunct2, THEN conjunct2, THEN conjunct2, THEN conjunct2, THEN conjunct2, THEN conjunct1, rule_format])
  subgoal by (rule assms [unfolded view_def, THEN conjunct2, THEN conjunct2, THEN conjunct2, THEN conjunct2, THEN conjunct2, THEN conjunct2, THEN conjunct2, THEN conjunct2, THEN conjunct2, THEN conjunct2, rule_format])
  done

lemma viewI:
  assumes "\<And>t. md t \<in> {Off, Reading, Writing} \<or> flagged t (md t) \<or> quiescing (md t)"
    "\<And>t. M \<le> t \<Longrightarrow> md t = Off" "n = num_readers md"
    "b \<longleftrightarrow> (\<exists>t. md t = Writing \<or> quiescing (md t))"
    "\<And>t u. md t = Writing \<or> quiescing (md t) \<Longrightarrow> md u = Writing \<or> quiescing (md u) \<Longrightarrow> t = u"
    "\<And>t. md t = Writing \<Longrightarrow> n = 0"
    "\<And>t. flags m t = (if flagged t (md t) then Some (t \<in> set ts) else None)"
    "\<And>t. t \<in> set ts \<Longrightarrow> flagged t (md t)" "distinct ts" "ts \<noteq> [] \<Longrightarrow> b"
    "\<And>t. flagged t (md t) \<or> quiescing (md t) \<Longrightarrow> t \<in> set (woken m) \<or> t \<in> set ts"
  shows "view M n b ts md m"
  unfolding view_def by (intro conjI allI ballI impI) (rule assms; assumption)+

lemma readers_upd:
  assumes "view M n b ts md m"
  shows "md t \<noteq> Reading \<Longrightarrow> num_readers (md(t := x)) = (if x = Reading then Suc n else n)"
    "md t = Reading \<Longrightarrow> x \<noteq> Reading \<Longrightarrow> num_readers (md(t := x)) = n - 1"
proof -
  note fin = view_finite [OF assms] and n = viewD(3) [OF assms]
  show "md t \<noteq> Reading \<Longrightarrow> num_readers (md(t := x)) = (if x = Reading then Suc n else n)"
  proof -
    assume "md t \<noteq> Reading"
    then have "{u. (md(t := x)) u = Reading} = (if x = Reading then insert t {u. md u = Reading} else {u. md u = Reading})"
      by auto
    with fin n \<open>md t \<noteq> Reading\<close> show ?thesis by (simp add: num_readers_def split: if_splits)
  qed
  assume "md t = Reading" "x \<noteq> Reading"
  then have "{u. (md(t := x)) u = Reading} = {u. md u = Reading} - {t}" by auto
  with fin n \<open>md t = Reading\<close> show "num_readers (md(t := x)) = n - 1" by (simp add: num_readers_def)
qed

text \<open>What a step of task \<open>t\<close> does to the other tasks: nothing.\<close>

definition others_kept :: "nat \<Rightarrow> bool option \<Rightarrow> memory \<Rightarrow> memory \<Rightarrow> bool" where
  "others_kept t f m m' \<longleftrightarrow> flags m' = (flags m)(t := f) \<and> set (woken m) - {t} \<subseteq> set (woken m')"

text \<open>
  The step of one task from mode \<open>md t\<close> to mode \<open>x\<close>: the conditions on the task alone and
  on the numbers.
\<close>

definition owns :: "mode \<Rightarrow> bool" where
  "owns x \<longleftrightarrow> x = Writing \<or> quiescing x"

lemma view_move:
  assumes v: "view M n b ts md m" and t: "t < M"
    and m': "others_kept t (if flagged t x then Some (t \<in> set ts') else None) m m'"
    and x: "x \<in> {Off, Reading, Writing} \<or> flagged t x \<or> quiescing x"
    and n': "n' = num_readers (md(t := x))"
    and b': "owns x \<Longrightarrow> b' \<and> (b \<longrightarrow> owns (md t))" "\<not> owns x \<Longrightarrow> b' \<longleftrightarrow> b \<and> \<not> owns (md t)"
    and wr: "x = Writing \<Longrightarrow> n' = 0" "n' \<le> n \<or> \<not> b"
    and ts': "set ts' = (if flagged t x \<and> t \<in> set ts' then insert t (set ts) else set ts - {t})" "distinct ts'"
      "ts' \<noteq> [] \<Longrightarrow> b'"
    and woken: "flagged t x \<or> quiescing x \<Longrightarrow> t \<in> set (woken m') \<or> t \<in> set ts'"
  shows "view M n' b' ts' (md(t := x)) m'"
proof (rule viewI)
  note D = viewD [OF v]
  have sub: "u \<in> set ts' \<longleftrightarrow> u \<in> set ts" if "u \<noteq> t" for u
    using ts'(1) that by (metis Diff_iff insert_iff singletonD)
  show "(md(t := x)) u \<in> {Off, Reading, Writing} \<or> flagged u ((md(t := x)) u) \<or> quiescing ((md(t := x)) u)" for u
    using D(1) [of u] x by auto
  show "(md(t := x)) u = Off" if "M \<le> u" for u using D(2) [OF that] t that by auto
  show "n' = num_readers (md(t := x))" by (rule n')
  show "b' \<longleftrightarrow> (\<exists>u. (md(t := x)) u = Writing \<or> quiescing ((md(t := x)) u))"
  proof (cases "owns x")
    case True
    with b'(1) show ?thesis by (auto simp: owns_def intro: exI [of _ t])
  next
    case False
    have "(\<exists>u. owns ((md(t := x)) u)) \<longleftrightarrow> (\<exists>u. u \<noteq> t \<and> owns (md u))" using False by (metis fun_upd_apply)
    also have "\<dots> \<longleftrightarrow> b \<and> \<not> owns (md t)"
    proof -
      have "owns (md u) \<Longrightarrow> owns (md t) \<Longrightarrow> u = t" for u using D(5) [of u t] by (simp add: owns_def)
      moreover have "b \<longleftrightarrow> (\<exists>u. owns (md u))" using D(4) by (simp add: owns_def)
      ultimately show ?thesis by metis
    qed
    finally show ?thesis using b'(2) [OF False] by (simp add: owns_def)
  qed
  show "u = w" if "(md(t := x)) u = Writing \<or> quiescing ((md(t := x)) u)"
    "(md(t := x)) w = Writing \<or> quiescing ((md(t := x)) w)" for u w
    using that D(4) D(5) [of u w] D(5) [of t w] D(5) [of u t] b'(1)
    by (cases "u = t"; cases "w = t") (auto simp: owns_def)
  show "n' = 0" if "(md(t := x)) u = Writing" for u
    using that wr D(6) [of u] D(4) by (cases "u = t") auto
  show "flags m' u = (if flagged u ((md(t := x)) u) then Some (u \<in> set ts') else None)" for u
    using m' D(7) [of u] sub [of u] by (auto simp: others_kept_def)
  show "flagged u ((md(t := x)) u)" if "u \<in> set ts'" for u
    using that D(8) [of u] sub [of u] ts'(1) by (cases "u = t") (auto split: if_splits)
  show "distinct ts'" by (rule ts'(2))
  show b' if "ts' \<noteq> []" by (rule ts'(3) [OF that])
  show "u \<in> set (woken m') \<or> u \<in> set ts'"
    if "flagged u ((md(t := x)) u) \<or> quiescing ((md(t := x)) u)" for u
    using that woken m' D(11) [of u] sub [of u] by (cases "u = t") (auto simp: others_kept_def)
qed

section \<open>Every step keeps the invariant and ends well\<close>

definition fine :: "nat \<Rightarrow> nat \<Rightarrow> outcome \<Rightarrow> bool" where
  "fine N M r \<longleftrightarrow> (case r of Disabled \<Rightarrow> True | Next s \<Rightarrow> executor_ok N M s | _ \<Rightarrow> False)"

lemma weakly_ok: "rc_ok rc n b N ws \<Longrightarrow> rc_ok (weakly ss rc) n b N ws"
  by (auto simp: rc_ok_def weakly_def quiet_def)

lemma fine_set_mode:
  "rc_ok rc n b N (entries ts) \<Longrightarrow> view M n b ts ((modes s)(t := x)) m \<Longrightarrow> fine N M (set_mode t x rc m s)"
  by (auto simp: fine_def set_mode_def executor_ok_def)

lemma others_kept_simps [simp]:
  "others_kept t None m (free_flag t m)"
  "others_kept t None m (free_flag t (served t m))"
  "others_kept t (Some x) m (wake_task t (m\<lparr>flags := (flags m)(t \<mapsto> x)\<rparr>))"
  "others_kept t (Some x) m (served t m\<lparr>flags := (flags m)(t \<mapsto> x)\<rparr>)"
  "others_kept t None m (wake_task t (free_flag t m))"
  "others_kept t None m (wake_task t (free_flag t (served t m)))"
  "flags m t = None \<Longrightarrow> others_kept t None m m"
  "flags m t = None \<Longrightarrow> others_kept t None m (served t m)"
  "flags m t = None \<Longrightarrow> others_kept t None m (wake_task t m)"
  "flags m t = None \<Longrightarrow> others_kept t None m (wake_task t (served t m))"
  "flags m t = Some x \<Longrightarrow> others_kept t (Some x) m (wake_task t (served t m))"
  "flags m t = Some x \<Longrightarrow> others_kept t (Some x) m (served t m)"
  by (auto simp: others_kept_def free_flag_def served_def wake_task_def fun_eq_iff)

lemma woken_simps [simp]:
  "t \<in> set (woken (wake_task t m))" "flags (served t m) = flags m" "flags (wake_task t m) = flags m"
  by (auto simp: wake_task_def served_def)

text \<open>The flag of a future that registers, and its place in the queue.\<close>

lemma registering_view:
  assumes v: "view M n b ts md m" and t: "t < M" "flagged t (md t)" and b: b
    and reg: "registering t t N (entries ts) (served t m) = (ws', m')"
  shows "\<exists>ts'. ws' = entries ts' \<and> view M n b ts' md m'"
proof -
  note D = viewD [OF v]
  have fl: "flags m t = Some (t \<in> set ts)" using D(7) [of t] t(2) by simp
  have notr: "md t \<noteq> Reading" "\<not> quiescing (md t)" "md t \<noteq> Writing" using t(2) by (auto simp: flagged_def quiescing_def)
  have same: "md(t := md t) = md" by simp
  let ?ts = "if t \<in> set ts then ts else if length ts < N then ts @ [t] else ts"
  have "view M n b ?ts (md(t := md t)) m'"
  proof (rule view_move [OF v t(1)])
    show "others_kept t (if flagged t (md t) then Some (t \<in> set ?ts) else None) m m'"
      using reg fl t(2) by (auto simp: registering_def entries_def split: if_splits)
    show "t \<in> set (woken m') \<or> t \<in> set ?ts"
      using reg fl by (auto simp: registering_def entries_def split: if_splits)
    show "n = num_readers (md(t := md t))" unfolding same by (rule D(3))
    show "set ?ts = (if flagged t (md t) \<and> t \<in> set ?ts then insert t (set ts) else set ts - {t})"
      using t(2) by auto
    show "distinct ?ts" using D(9) by auto
  qed (use t b notr in \<open>auto simp: owns_def\<close>)
  moreover have "ws' = entries ?ts"
    using reg fl by (auto simp: registering_def entries_def split: if_splits)
  ultimately show ?thesis unfolding same by blast
qed

lemma view_idle:
  assumes "view M n b ts md m" "md t \<in> {Off, Reading, Writing} \<or> quiescing (md t)"
  shows "flags m t = None" "t \<notin> set ts"
  using viewD(7,8) [OF assms(1), of t] assms(2) mode_kinds(7) [of t "md t"] by auto

lemma request_ref_fine:
  assumes rc: "rc_ok rc n b N (entries ts)" and v: "view M n b ts (modes s) (mem s)"
    and t: "t < M" "modes s t = Off" and size: "M \<le> MAX_REFS" and "lock s = rc"
  shows "fine N M (exec_step pr (t, Request_Ref, ss) s)"
proof -
  note rc' = weakly_ok [OF rc, of ss]
  have n: "n < MAX_REFS" using view_count [OF v t(1)] t(2) size by simp
  note idle = view_idle [OF v, of t]
  have wait: "view M n b ts ((modes s)(t := Awaits_Ref \<lparr>ref_flag = t\<rparr>))
      (wake_task t (mem s\<lparr>flags := (flags (mem s))(t \<mapsto> False)\<rparr>))"
    using t idle viewD(9,10) [OF v]
    by (intro view_move [OF v t(1)]) (auto simp: readers_upd [OF v] owns_def flagged_def quiescing_def)
  show ?thesis
  proof (cases b)
    case True
    from get_ref_blocked [of "weakly ss rc" n N "entries ts" pr t "mem s"] rc' n True obtain rc1
      where "get_ref pr t (weakly ss rc) (mem s) =
          (Inr (Future \<lparr>ref_flag = t\<rparr>), rc1, mem s\<lparr>flags := (flags (mem s))(t \<mapsto> False)\<rparr>)"
        "rc_ok rc1 n b N (entries ts)" by auto
    with t(2) assms(6) fine_set_mode [OF _ wait] show ?thesis by (auto simp: exec_step_def Let_def)
  next
    case False
    have got: "view M (Suc n) b ts ((modes s)(t := Reading)) (mem s)"
      using t idle False viewD(9,10) [OF v]
      by (intro view_move [OF v t(1)]) (auto simp: readers_upd [OF v] owns_def)
    from get_ref_free [of "weakly ss rc" n N "entries ts" pr t "mem s"] rc' n False
    show ?thesis
      using t(2) assms(6) fine_set_mode [OF _ wait] fine_set_mode [OF _ got] False
      by (auto simp: exec_step_def Let_def)
  qed
qed

lemma request_excl_fine:
  assumes rc: "rc_ok rc n b N (entries ts)" and v: "view M n b ts (modes s) (mem s)"
    and t: "t < M" "modes s t = Off" and "lock s = rc"
  shows "fine N M (exec_step pr (t, Request_Excl, ss) s)"
proof -
  note idle = view_idle [OF v, of t] and D = viewD(3,9,10) [OF v]
  obtain ok rc1 where ok: "b \<longrightarrow> \<not> ok" and rc1: "rc_ok rc1 n (b \<or> ok) N (entries ts)"
    and req: "get_exclusive_ref t (weakly ss rc) (mem s) =
      (if ok then (if n = 0 then (Ready ExclusiveRef, rc1, mem s) else (Future \<lparr>blocked_fut = None\<rparr>, rc1, mem s))
       else (Future \<lparr>blocked_fut = Some \<lparr>blocked_flag = t\<rparr>\<rparr>, rc1, mem s\<lparr>flags := (flags (mem s))(t \<mapsto> False)\<rparr>))"
    using get_exclusive_ref_quiet [OF weakly_ok [OF rc, of ss], of t "mem s"] by blast
  have "view M n (b \<or> ok) ts ((modes s)(t := Writing)) (mem s)" if "ok" "n = 0"
    using t idle D that ok by (intro view_move [OF v t(1)]) (auto simp: readers_upd [OF v] owns_def)
  moreover have "view M n (b \<or> ok) ts ((modes s)(t := Awaits_Excl \<lparr>blocked_fut = None\<rparr>)) (wake_task t (mem s))" if ok
    using t idle D that ok by (intro view_move [OF v t(1)])
      (auto simp: readers_upd [OF v] owns_def flagged_def quiescing_def)
  moreover have "view M n (b \<or> ok) ts ((modes s)(t := Awaits_Excl \<lparr>blocked_fut = Some \<lparr>blocked_flag = t\<rparr>\<rparr>))
      (wake_task t (mem s\<lparr>flags := (flags (mem s))(t \<mapsto> False)\<rparr>))" if "\<not> ok"
    using t idle D that by (intro view_move [OF v t(1)])
      (auto simp: readers_upd [OF v] owns_def flagged_def quiescing_def)
  ultimately show ?thesis
    using t(2) assms(5) req fine_set_mode [OF rc1] by (auto simp: exec_step_def Let_def)
qed

lemma poll_ref_fine:
  assumes rc: "rc_ok rc n b N (entries ts)" and v: "view M n b ts (modes s) (mem s)"
    and t: "t < M" "modes s t = Awaits_Ref f" and size: "M \<le> MAX_REFS" and "lock s = rc"
    and woken: "t \<in> set (woken (mem s))"
  shows "fine N M (exec_step pr (t, Poll_Task, ss) s)"
proof -
  note rc' = weakly_ok [OF rc, of ss] and D = viewD(3,9,10) [OF v]
  have n: "n < MAX_REFS" using view_count [OF v t(1)] t(2) size by simp
  have fl: "flagged t (modes s t)" and f: "f = \<lparr>ref_flag = t\<rparr>"
    using viewD(1) [OF v, of t] t(2) by (auto simp: flagged_def quiescing_def)
  then have flag: "flags (served t (mem s)) (ref_flag f) = Some (t \<in> set ts)" using viewD(7) [OF v, of t] by simp
  show ?thesis
  proof (cases b)
    case True
    from poll_ref_blocked [of "weakly ss rc" n N "entries ts", OF _ flag, of pr t] rc' True obtain rc1
      where p: "poll_future_ref pr t f (weakly ss rc) (served t (mem s)) =
          Some (Inr Pending, rc1, snd (registering t t N (entries ts) (served t (mem s))))"
        "rc_ok rc1 n b N (fst (registering t t N (entries ts) (served t (mem s))))" by (auto simp: f)
    obtain ts' where "fst (registering t t N (entries ts) (served t (mem s))) = entries ts'"
      "view M n b ts' (modes s) (snd (registering t t N (entries ts) (served t (mem s))))"
      using registering_view [OF v t(1) fl True, of N] by (metis prod.collapse)
    with p t(2) assms(6) woken fine_set_mode [of rc1 n b N ts' M s t "Awaits_Ref f"] show ?thesis
      by (simp add: exec_step_def fun_upd_idem)
  next
    case False
    then have "ts = []" using D by blast
    have "view M (Suc n) b ts ((modes s)(t := Reading)) (free_flag t (served t (mem s)))"
      using t D False \<open>ts = []\<close> by (intro view_move [OF v t(1)]) (auto simp: readers_upd [OF v] owns_def)
    moreover have "view M n b ts ((modes s)(t := Awaits_Ref f)) (wake_task t (served t (mem s)))"
      using t D False fl flag f \<open>ts = []\<close> by (intro view_move [OF v t(1)]) (auto simp: readers_upd [OF v] owns_def)
    ultimately show ?thesis
      using poll_ref_free [of "weakly ss rc" n N "entries ts" pr t f "served t (mem s)"] rc' n False
        t(2) assms(6) woken fine_set_mode by (auto simp: exec_step_def Let_def f)
  qed
qed

lemma checked_fine:
  assumes rc: "rc_ok rc n True N (entries ts)" and v: "view M n b ts (modes s) (mem s)"
    and t: "t < M" "modes s t \<noteq> Reading" "t \<notin> set ts" and b: "b \<longrightarrow> owns (modes s t)"
    and m: "others_kept t None (mem s) m" "checked n t m = (r, m')"
  shows "(r = Poll_Ready ExclusiveRef \<and> fine N M (set_mode t Writing rc m' s)) \<or>
    (r = Pending \<and> fine N M (set_mode t (Awaits_Excl \<lparr>blocked_fut = None\<rparr>) rc m' s))"
proof -
  note D = viewD(3,9,10) [OF v]
  have "view M n True ts ((modes s)(t := Writing)) m" if "n = 0"
    using t D that b m by (intro view_move [OF v t(1)]) (auto simp: readers_upd [OF v] owns_def)
  moreover have "view M n True ts ((modes s)(t := Awaits_Excl \<lparr>blocked_fut = None\<rparr>)) (wake_task t m)"
    using t D b m by (intro view_move [OF v t(1)])
      (auto simp: readers_upd [OF v] owns_def flagged_def quiescing_def others_kept_def wake_task_def)
  ultimately show ?thesis
    using m(2) fine_set_mode [OF rc] by (auto simp: checked_def split: if_splits)
qed

lemma poll_excl_fine:
  assumes rc: "rc_ok rc n b N (entries ts)" and v: "view M n b ts (modes s) (mem s)"
    and t: "t < M" "modes s t = Awaits_Excl f" and "lock s = rc" and woken: "t \<in> set (woken (mem s))"
  shows "fine N M (exec_step pr (t, Poll_Task, ss) s)"
proof -
  note rc' = weakly_ok [OF rc, of ss] and D = viewD(3,9,10) [OF v]
  have step: "exec_step pr (t, Poll_Task, ss) s =
      (case poll_future_exclusive_ref pr t f (weakly ss rc) (served t (mem s)) of
         None \<Rightarrow> Diverges
       | Some (Inl e, f, rc, m) \<Rightarrow> Faults e
       | Some (Inr (Poll_Ready _), f, rc, m) \<Rightarrow> set_mode t Writing rc m s
       | Some (Inr Pending, f, rc, m) \<Rightarrow> set_mode t (Awaits_Excl f) rc m s)"
    using t(2) woken assms(5) by (simp add: exec_step_def)
  consider (q) "f = \<lparr>blocked_fut = None\<rparr>" "quiescing (modes s t)"
    | (w) "f = \<lparr>blocked_fut = Some \<lparr>blocked_flag = t\<rparr>\<rparr>" "flagged t (modes s t)"
    using viewD(1) [OF v, of t] t(2) by (auto simp: flagged_def quiescing_def)
  then show ?thesis
  proof cases
    case q
    note idle = view_idle [OF v, of t]
    have b: "b" using viewD(4) [OF v] q(2) by blast
    obtain r m' where c: "checked n t (served t (mem s)) = (r, m')" by fastforce
    obtain rc1 where p: "poll_future_exclusive_ref pr t f (weakly ss rc) (served t (mem s)) = Some (Inr r, f, rc1, m')"
      "rc_ok rc1 n True N (entries ts)"
      using poll_excl_check [OF rc', of f pr t "served t (mem s)"] q(1) c b by auto
    have "(r = Poll_Ready ExclusiveRef \<and> fine N M (set_mode t Writing rc1 m' s)) \<or>
      (r = Pending \<and> fine N M (set_mode t (Awaits_Excl \<lparr>blocked_fut = None\<rparr>) rc1 m' s))"
      by (rule checked_fine [OF p(2) v t(1) _ _ _ _ c]) (use idle q t(2) in \<open>auto simp: owns_def\<close>)
    with p(1) q(1) show ?thesis by (auto simp: step)
  next
    case w
    then have flag: "flags (served t (mem s)) t = Some (t \<in> set ts)" using viewD(7) [OF v, of t] by simp
    show ?thesis
    proof (cases b)
      case True
      from poll_excl_blocked [of "weakly ss rc" n N "entries ts" f "\<lparr>blocked_flag = t\<rparr>" "served t (mem s)" _ pr t]
        rc' True w flag obtain rc1
        where p: "poll_future_exclusive_ref pr t f (weakly ss rc) (served t (mem s)) =
            Some (Inr Pending, f, rc1, snd (registering t t N (entries ts) (served t (mem s))))"
          "rc_ok rc1 n b N (fst (registering t t N (entries ts) (served t (mem s))))" by auto
      obtain ts' where "fst (registering t t N (entries ts) (served t (mem s))) = entries ts'"
        "view M n b ts' (modes s) (snd (registering t t N (entries ts) (served t (mem s))))"
        using registering_view [OF v t(1) w(2) True, of N] by (metis prod.collapse)
      with p t(2) fine_set_mode [of rc1 n b N ts' M s t "Awaits_Excl f"] show ?thesis
        by (simp add: step fun_upd_idem)
    next
      case False
      then have "ts = []" using D by blast
      obtain r m' where c: "checked n t (free_flag t (served t (mem s))) = (r, m')" by fastforce
      then have r: "fst (checked n t (served t (mem s))) = r" by (auto simp: checked_def split: if_splits)
      have keep: "fine N M (set_mode t (Awaits_Excl f) rc1 (wake_task t (served t (mem s))) s)"
        if "rc_ok rc1 n False N (entries ts)" for rc1
      proof (rule fine_set_mode [OF that])
        show "view M n False ts ((modes s)(t := Awaits_Excl f)) (wake_task t (served t (mem s)))"
          using t D False w flag \<open>ts = []\<close> by (intro view_move [OF v t(1)]) (auto simp: readers_upd [OF v] owns_def)
      qed
      have go: "(r = Poll_Ready ExclusiveRef \<and> fine N M (set_mode t Writing rc1 m' s)) \<or>
        (r = Pending \<and> fine N M (set_mode t (Awaits_Excl \<lparr>blocked_fut = None\<rparr>) rc1 m' s))"
        if "rc_ok rc1 n True N (entries ts)" for rc1
        by (rule checked_fine [OF that v t(1) _ _ _ _ c]) (use t(2) False \<open>ts = []\<close> in auto)
      from poll_excl_free [of "weakly ss rc" n N "entries ts" f "\<lparr>blocked_flag = t\<rparr>" pr t "served t (mem s)"]
        rc' False w(1) c r show ?thesis
        by (auto simp: step dest!: go keep)
    qed
  qed
qed

lemma drop_reading_fine:
  assumes rc: "rc_ok rc n b N (entries ts)" and v: "view M n b ts (modes s) (mem s)"
    and t: "t < M" "modes s t = Reading" and "lock s = rc"
  shows "fine N M (exec_step pr (t, Drop_Handle, ss) s)"
proof -
  note idle = view_idle [OF v, of t] and D = viewD(3,9,10) [OF v]
  have pos: "0 < n" using viewD(3) [OF v] t(2) view_finite [OF v] by (auto simp: num_readers_def card_gt_0_iff)
  have "view M (n - 1) b ts ((modes s)(t := Off)) (mem s)"
    using t idle D by (intro view_move [OF v t(1)]) (auto simp: readers_upd [OF v] owns_def)
  with drop_ref_ok [OF weakly_ok [OF rc, of ss] pos, of Ref] fine_set_mode t(2) assms(5) show ?thesis
    by (simp add: exec_step_def Let_def)
qed

text \<open>A dropped exclusive reference wakes everyone in the queue.\<close>

lemma entries_woken:
  "flags (all_woken (entries ts) m) = (\<lambda>u. if u \<in> set ts then Some False else flags m u)"
  "woken (all_woken (entries ts) m) = woken m @ ts"
  by (auto simp: all_woken_def entries_def new_waiter_def image_image comp_def fun_eq_iff)

lemma view_open:
  assumes v: "view M n b ts md m" and t: "md t = Writing"
  shows "view M 0 False [] (md(t := Off)) (all_woken (entries ts) m)"
proof (rule viewI)
  note D = viewD [OF v]
  have "n = 0" using D(6) t by blast
  have only: "u = t" if "md u = Writing \<or> quiescing (md u)" for u
    using D(5) [of u t] t that by simp
  have none: "\<not> ((md(t := Off)) u = Writing \<or> quiescing ((md(t := Off)) u))" for u
    using only [of u] by (cases "u = t") auto
  show "(md(t := Off)) u \<in> {Off, Reading, Writing} \<or> flagged u ((md(t := Off)) u) \<or> quiescing ((md(t := Off)) u)" for u
    using D(1) [of u] by auto
  show "(md(t := Off)) u = Off" if "M \<le> u" for u using D(2) [OF that] by simp
  show "0 = num_readers (md(t := Off))"
    using readers_upd(1) [OF v, of t Off] t \<open>n = 0\<close> by simp
  show "False \<longleftrightarrow> (\<exists>u. (md(t := Off)) u = Writing \<or> quiescing ((md(t := Off)) u))"
    using none by blast
  show "u = w" if "(md(t := Off)) u = Writing \<or> quiescing ((md(t := Off)) u)"
    "(md(t := Off)) w = Writing \<or> quiescing ((md(t := Off)) w)" for u w
    using that none by blast
  show "flags (all_woken (entries ts) m) u = (if flagged u ((md(t := Off)) u) then Some (u \<in> set []) else None)" for u
    using D(7,8) [of u] t by (cases "u = t") (auto simp: entries_woken)
  show "u \<in> set (woken (all_woken (entries ts) m)) \<or> u \<in> set []"
    if "flagged u ((md(t := Off)) u) \<or> quiescing ((md(t := Off)) u)" for u
    using that D(11) [of u] by (cases "u = t") (auto simp: entries_woken)
qed auto

lemma drop_writing:
  assumes rc: "rc_ok rc n b N (entries ts)" and v: "view M n b ts (modes s) (mem s)"
    and t: "modes s t = Writing" and "lock s = rc"
  shows "\<exists>rc'. exec_step pr (t, Drop_Handle, ss) s = set_mode t Off rc' (all_woken (entries ts) (mem s)) s \<and>
    rc_ok rc' 0 False N (entries [])"
proof -
  have "\<forall>w \<in> set (entries ts). alive (mem s) w"
    using viewD(7,8) [OF v] by (auto simp: entries_def alive_def new_waiter_def)
  from unblock_refs_ok [OF weakly_ok [OF rc, of ss] this, of pr] t assms(4) show ?thesis
    by (auto simp: exec_step_def drop_exclusive_def entries_def)
qed

lemma exec_step_fine:
  assumes ok: "executor_ok N M s" and t: "t < M" and size: "M \<le> MAX_REFS"
  shows "fine N M (exec_step pr (t, what, ss) s)"
proof -
  obtain n b ts where rc: "rc_ok (lock s) n b N (entries ts)" and v: "view M n b ts (modes s) (mem s)"
    using ok by (auto simp: executor_ok_def)
  note facts = request_ref_fine [OF rc v t _ size refl, of pr ss] request_excl_fine [OF rc v t _ refl, of pr ss]
    poll_ref_fine [OF rc v t _ size refl, of _ pr ss] poll_excl_fine [OF rc v t _ refl, of _ pr ss]
    drop_reading_fine [OF rc v t _ refl, of pr ss]
  have wr: "fine N M (exec_step pr (t, Drop_Handle, ss) s)" if md: "modes s t = Writing"
  proof -
    obtain rc' where "exec_step pr (t, Drop_Handle, ss) s = set_mode t Off rc' (all_woken (entries ts) (mem s)) s"
      "rc_ok rc' 0 False N (entries [])"
      using drop_writing [OF rc v md refl, of pr ss] by blast
    with fine_set_mode [OF this(2) view_open [OF v md]] show ?thesis by simp
  qed
  show ?thesis
  proof (cases "exec_step pr (t, what, ss) s = Disabled")
    case True
    then show ?thesis by (simp add: fine_def)
  next
    case False
    then show ?thesis using facts wr
      by (cases what; cases "modes s t") (auto simp: exec_step_def Let_def split: if_splits)
  qed
qed

lemma executor_init_ok:
  assumes "executor_init pr C s" "C \<noteq> 0" "unat C < 2 ^ 63"
  shows "executor_ok (unat C) M s"
proof -
  obtain rc where "new_ref_count pr C = Inr rc" "rc_ok rc 0 False (unat C) []"
    using new_ref_count_ok [OF assms(2,3), of pr] by blast
  with assms(1) show ?thesis
    by (auto simp: executor_init_def executor_ok_def entries_def num_readers_def flagged_def
        intro!: exI [of _ 0] exI [of _ False] exI [of _ "[]"] viewI)
qed

text \<open>The start, for a queue the machine can address and tasks the count can count.\<close>

definition sized_init :: "profile \<Rightarrow> usize \<Rightarrow> nat \<Rightarrow> executor \<Rightarrow> bool" where
  "sized_init pr C M s \<longleftrightarrow> executor_init pr C s \<and> C \<noteq> 0 \<and> unat C < 2 ^ 63 \<and> M \<le> MAX_REFS"

definition executor_inv :: "usize \<Rightarrow> nat \<Rightarrow> executor \<Rightarrow> bool" where
  "executor_inv C M s \<longleftrightarrow> executor_ok (unat C) M s \<and> M \<le> MAX_REFS"

interpretation executor: invariant_system "sized_init pr C M" "executes pr M" "executor_inv C M"
proof unfold_locales
  fix s show "sized_init pr C M s \<Longrightarrow> executor_inv C M s"
    using executor_init_ok by (auto simp: sized_init_def executor_inv_def)
next
  fix s s' assume inv: "executor_inv C M s" and "executes pr M s s'"
  from this(2) obtain t what ss where "t < M" "exec_step pr (t, what, ss) s = Next s'"
    by (cases rule: executes.cases)
  with exec_step_fine [of "unat C" M s t pr what ss] inv show "executor_inv C M s'"
    by (simp add: executor_inv_def fine_def)
qed

lemma reachable_view:
  assumes "reachable (sized_init pr C M) (executes pr M) s"
  obtains n b ts where "rc_ok (lock s) n b (unat C) (entries ts)" "view M n b ts (modes s) (mem s)"
    "executor_ok (unat C) M s" "M \<le> MAX_REFS"
  using executor.inv_reachable [OF assms] by (auto simp: executor_inv_def executor_ok_def)

definition pending :: "mode \<Rightarrow> bool" where
  "pending md \<longleftrightarrow> (case md of Awaits_Ref _ \<Rightarrow> True | Awaits_Excl _ \<Rightarrow> True | _ \<Rightarrow> False)"

lemma view_pending: "view M n b ts md m \<Longrightarrow> pending (md t) \<longleftrightarrow> flagged t (md t) \<or> quiescing (md t)"
  using viewD(1) [of M n b ts md m t] by (auto simp: pending_def flagged_def quiescing_def)

section \<open>Running it\<close>

definition new_executor :: "profile \<Rightarrow> usize \<Rightarrow> executor option" where
  "new_executor pr C = (case new_ref_count pr C of Inl _ \<Rightarrow> None
     | Inr rc \<Rightarrow> Some \<lparr>lock = rc, mem = \<lparr>flags = (\<lambda>_. None), woken = []\<rparr>, modes = (\<lambda>_. Off)\<rparr>)"

definition exec_next :: "profile \<Rightarrow> nat \<times> decision \<times> bool list \<Rightarrow> executor \<Rightarrow> executor option" where
  "exec_next pr d s = (case exec_step pr d s of Next s' \<Rightarrow> Some s' | _ \<Rightarrow> None)"

definition exec_run :: "profile \<Rightarrow> usize \<Rightarrow> (nat \<times> decision \<times> bool list) list \<Rightarrow> executor option" where
  "exec_run pr C ds = (case new_executor pr C of None \<Rightarrow> None | Some s \<Rightarrow> schedule (exec_next pr) ds s)"

lemma exec_run_reachable:
  assumes "exec_run pr C ds = Some s" "\<forall>d \<in> set ds. fst d < M" "C \<noteq> 0" "unat C < 2 ^ 63" "M \<le> MAX_REFS"
  shows "reachable (sized_init pr C M) (executes pr M) s"
proof -
  obtain s0 where s0: "new_executor pr C = Some s0" "schedule (exec_next pr) ds s0 = Some s"
    using assms(1) by (auto simp: exec_run_def split: option.splits)
  show ?thesis
  proof (rule reachable_steps)
    show "reachable (sized_init pr C M) (executes pr M) s0"
      by (rule reachable.start) (use s0(1) assms(3-5) in
        \<open>auto simp: sized_init_def executor_init_def new_executor_def split: sum.splits\<close>)
    show "(executes pr M)\<^sup>*\<^sup>* s0 s"
      by (rule schedule_steps [OF s0(2)])
        (use assms(2) in \<open>force simp: exec_next_def split: outcome.splits intro: executes.executes\<close>)
  qed
qed

section \<open>Properties\<close>

text \<open>C21: whatever the tasks request, poll and drop, and however often an exchange fails
  spuriously, no call under the executor panics, uses freed memory or loops for ever.\<close>

theorem executor_never_faults:
  assumes "reachable (sized_init pr C M) (executes pr M) s" "t < M"
  shows "exec_step pr (t, what, ss) s \<notin> insert Diverges (range Faults)"
proof -
  obtain n b ts where "executor_ok (unat C) M s" "M \<le> MAX_REFS" by (rule reachable_view [OF assms(1)])
  from exec_step_fine [OF this(1) assms(2) this(2), of pr what ss] show ?thesis by (auto simp: fine_def)
qed

text \<open>While a task has an exclusive reference, no other task has a reference of either kind, and
  the word says blocked with no references.\<close>

theorem executor_exclusive:
  assumes "reachable (sized_init pr C M) (executes pr M) s" "modes s t = Writing"
  shows "{u. modes s u = Reading} = {} \<and> {u. modes s u = Writing} = {t} \<and>
    cval (count (lock s)) = word_state 0 True"
proof -
  obtain n b ts where rc: "rc_ok (lock s) n b (unat C) (entries ts)" and v: "view M n b ts (modes s) (mem s)"
    by (rule reachable_view [OF assms(1)])
  have "n = 0" b using viewD(6,4) [OF v] assms(2) by blast+
  moreover have "{u. modes s u = Reading} = {}"
    using viewD(3) [OF v] view_finite [OF v] \<open>n = 0\<close> by (simp add: num_readers_def)
  moreover have "{u. modes s u = Writing} = {t}"
    using viewD(5) [OF v, of t] assms(2) by auto
  ultimately show ?thesis using rc by (simp add: rc_ok_def)
qed

text \<open>C19: no wake-up is lost: a task whose future is pending has been woken, or it is registered (its
  flag is set) while the references are blocked by a task that holds the exclusive reference or has
  itself been woken to take it.\<close>

theorem executor_no_lost_wakeup:
  assumes "reachable (sized_init pr C M) (executes pr M) s" "pending (modes s t)"
  shows "t \<in> set (woken (mem s)) \<or>
    (flags (mem s) t = Some True \<and> (\<exists>u. modes s u = Writing \<or> pending (modes s u) \<and> u \<in> set (woken (mem s))))"
proof -
  obtain n b ts where v: "view M n b ts (modes s) (mem s)" by (rule reachable_view [OF assms(1)])
  show ?thesis
  proof (cases "t \<in> set (woken (mem s))")
    case False
    with assms(2) viewD(11) [OF v, of t] view_pending [OF v, of t] have t: "t \<in> set ts" by blast
    then have "b" using viewD(10) [OF v] by (cases ts) auto
    then obtain u where u: "modes s u = Writing \<or> quiescing (modes s u)" using viewD(4) [OF v] by blast
    moreover have "u \<in> set (woken (mem s))" if "quiescing (modes s u)"
      using viewD(11) [OF v, of u] viewD(8) [OF v, of u] that mode_kinds(7) by blast
    ultimately show ?thesis
      using view_pending [OF v, of u] viewD(7,8) [OF v, of t] t by auto
  qed simp
qed

text \<open>Dropping the exclusive reference succeeds and leaves every pending task woken.\<close>

theorem executor_drop_wakes:
  assumes "reachable (sized_init pr C M) (executes pr M) s" "modes s t = Writing"
  shows "\<exists>s'. exec_step pr (t, Drop_Handle, ss) s = Next s' \<and>
    {u. pending (modes s' u)} \<subseteq> set (woken (mem s'))"
proof -
  obtain n b ts where rc: "rc_ok (lock s) n b (unat C) (entries ts)" and v: "view M n b ts (modes s) (mem s)"
    by (rule reachable_view [OF assms(1)])
  obtain rc' where rc': "exec_step pr (t, Drop_Handle, ss) s = set_mode t Off rc' (all_woken (entries ts) (mem s)) s"
    using drop_writing [OF rc v assms(2) refl, of pr ss] by blast
  have "u \<in> set (woken (all_woken (entries ts) (mem s)))" if "pending (((modes s)(t := Off)) u)" for u
    using that viewD(11) [OF v, of u] view_pending [OF v, of u] by (auto simp: entries_woken pending_def split: if_splits)
  with rc' show ?thesis by (auto simp: set_mode_def)
qed

text \<open>A run that shows the hypotheses: task 1 waits while task 0 has the exclusive reference.\<close>

definition waiting_run :: "(nat \<times> decision \<times> bool list) list" where
  "waiting_run = [(0, Request_Excl, []), (1, Request_Ref, [True]), (1, Poll_Task, [])]"

lemma waiting_run_ends:
  obtains s where "reachable (sized_init Debug 2 2) (executes Debug 2) s"
    "modes s 0 = Writing" "modes s 1 = Awaits_Ref \<lparr>ref_flag = 1\<rparr>" "woken (mem s) = []"
proof -
  have "map_option (\<lambda>s. (modes s 0, modes s 1, woken (mem s))) (exec_run Debug 2 waiting_run) =
      Some (Writing, Awaits_Ref \<lparr>ref_flag = 1\<rparr>, [])"
    by code_simp
  then obtain s where s: "exec_run Debug 2 waiting_run = Some s" "modes s 0 = Writing"
    "modes s 1 = Awaits_Ref \<lparr>ref_flag = 1\<rparr>" "woken (mem s) = []" by auto
  moreover have "reachable (sized_init Debug 2 2) (executes Debug 2) s"
    by (rule exec_run_reachable [OF s(1)]) (auto simp: waiting_run_def MAX_REFS_def)
  ultimately show thesis using that by blast
qed

theorem executor_never_faults_witness:
  "\<exists>s :: executor. modes s 1 = Awaits_Ref \<lparr>ref_flag = 1\<rparr> \<and> exec_step Debug (0, Drop_Handle, []) s \<notin> insert Diverges (range Faults)"
proof (rule waiting_run_ends)
  fix s assume r: "reachable (sized_init Debug 2 2) (executes Debug 2) s" "modes s 1 = Awaits_Ref \<lparr>ref_flag = 1\<rparr>"
  have "exec_step Debug (0, Drop_Handle, []) s \<notin> insert Diverges (range Faults)"
    by (rule executor_never_faults [OF r(1)]) simp
  with r(2) show ?thesis by (intro exI [of _ s] conjI)
qed

theorem executor_exclusive_witness:
  "\<exists>s :: executor. modes s 1 = Awaits_Ref \<lparr>ref_flag = 1\<rparr> \<and> {u. modes s u = Reading} = {} \<and> {u. modes s u = Writing} = {0} \<and>
    cval (count (lock s)) = word_state 0 True"
proof (rule waiting_run_ends)
  fix s assume r: "reachable (sized_init Debug 2 2) (executes Debug 2) s" "modes s 0 = Writing"
    "modes s 1 = Awaits_Ref \<lparr>ref_flag = 1\<rparr>"
  from executor_exclusive [OF r(1,2)] r(3) show ?thesis by - (rule exI [of _ s], simp)
qed

theorem executor_no_lost_wakeup_witness:
  "\<exists>s :: executor. woken (mem s) = [] \<and> flags (mem s) 1 = Some True \<and> (\<exists>u. modes s u = Writing)"
proof (rule waiting_run_ends)
  fix s assume r: "reachable (sized_init Debug 2 2) (executes Debug 2) s" "modes s 1 = Awaits_Ref \<lparr>ref_flag = 1\<rparr>"
    "woken (mem s) = []"
  then have "pending (modes s 1)" by (simp add: pending_def)
  from executor_no_lost_wakeup [OF r(1) this] r(3) show ?thesis by - (rule exI [of _ s], simp)
qed

theorem executor_drop_wakes_witness:
  "\<exists>s s'. exec_step Debug (0, Drop_Handle, []) s = Next s' \<and> {u. pending (modes s' u)} \<subseteq> set (woken (mem s'))"
proof (rule waiting_run_ends)
  fix s assume r: "reachable (sized_init Debug 2 2) (executes Debug 2) s" "modes s 0 = Writing"
  from executor_drop_wakes [OF r, of "[]"] show ?thesis by (rule exI [of _ s])
qed

end
