(* ===== verification/Executor_Progress.thy ===== *)
theory Executor_Progress
  imports Executor
begin

text \<open>
  Under a single-threaded executor that goes round its tasks, everybody is served. In a turn a task that has a reference drops it, and a
  task whose future is pending is polled, if it has been woken. Nobody asks for anything new. After three rounds for each task everybody
  has had what it has asked for and nobody holds or waits for anything, whatever state the tasks were in and as long as an exchange does
  not fail spuriously four times in a row.
\<close>

section \<open>Rounds\<close>

definition turn :: "profile \<Rightarrow> nat \<Rightarrow> bool list \<Rightarrow> executor \<Rightarrow> outcome" where
  "turn pr t ss s =
     (if modes s t = Off then Next s
      else if modes s t \<in> {Reading, Writing} then exec_step pr (t, Drop_Handle, ss) s
      else if t \<in> set (woken (mem s)) then exec_step pr (t, Poll_Task, ss) s
      else Next s)"

fun turns :: "profile \<Rightarrow> (nat \<Rightarrow> bool list) \<Rightarrow> nat list \<Rightarrow> executor \<Rightarrow> outcome" where
  "turns pr sp [] s = Next s"
| "turns pr sp (t # ts) s = (case turn pr t (sp t) s of Next s \<Rightarrow> turns pr sp ts s | r \<Rightarrow> r)"

fun rounds :: "profile \<Rightarrow> nat \<Rightarrow> (nat \<Rightarrow> nat \<Rightarrow> bool list) \<Rightarrow> nat \<Rightarrow> executor \<Rightarrow> outcome" where
  "rounds pr M sp 0 s = Next s"
| "rounds pr M sp (Suc k) s = (case rounds pr M sp k s of Next s \<Rightarrow> turns pr (sp k) [0..<M] s | r \<Rightarrow> r)"

section \<open>What is left to do\<close>

fun weight :: "mode \<Rightarrow> nat" where
  "weight Off = 0"
| "weight Reading = 1"
| "weight Writing = 1"
| "weight (Awaits_Ref f) = 3"
| "weight (Awaits_Excl f) = (if blocked_fut f = None then 2 else 3)"

definition work :: "nat \<Rightarrow> (nat \<Rightarrow> mode) \<Rightarrow> nat" where
  "work M md = (\<Sum>t<M. weight (md t))"

text \<open>A turn of task \<open>t\<close> leaves every mode as it is or moves \<open>t\<close> on.\<close>

definition moves_on :: "nat \<Rightarrow> (nat \<Rightarrow> mode) \<Rightarrow> (nat \<Rightarrow> mode) \<Rightarrow> bool" where
  "moves_on t md md' \<longleftrightarrow> (\<exists>x. md' = md(t := x) \<and> weight x < weight (md t))"

lemma work_less: "t < M \<Longrightarrow> moves_on t md md' \<Longrightarrow> work M md' < work M md"
proof -
  assume t: "t < M" and "moves_on t md md'"
  then obtain x where x: "md' = md(t := x)" "weight x < weight (md t)" by (auto simp: moves_on_def)
  have "weight (md' u) \<le> weight (md u)" for u using x by auto
  moreover have "weight (md' t) < weight (md t)" using x by simp
  ultimately show "work M md' < work M md" unfolding work_def using t by (intro sum_strict_mono_ex1) auto
qed

lemma polled_future:
  "poll_future_exclusive_ref pr cx f rc m = Some (Inr r, f', rc', m') \<Longrightarrow>
     f' = f \<or> blocked_fut f' = None \<and> blocked_fut f \<noteq> None"
  by (auto simp: poll_future_exclusive_ref_def Let_def split: option.splits sum.splits poll.splits prod.splits if_splits)

text \<open>The turns that do move their task on.\<close>

definition helpful :: "(nat \<Rightarrow> mode) \<Rightarrow> nat \<Rightarrow> bool" where
  "helpful md t \<longleftrightarrow> md t \<in> {Reading, Writing} \<or> quiescing (md t) \<and> num_readers md = 0 \<or>
     flagged t (md t) \<and> (\<forall>u. \<not> owns (md u))"

lemma turn_moves:
  assumes "turn pr t ss s = Next s'"
  shows "modes s' = modes s \<or> moves_on t (modes s) (modes s')"
  using assms
  by (auto simp: turn_def exec_step_def set_mode_def moves_on_def Let_def dest!: polled_future
      split: if_splits mode.splits prod.splits option.splits sum.splits poll.splits)

text \<open>Every turn succeeds and keeps the invariant.\<close>

lemma turn_ok:
  assumes "executor_ok N M s" "t < M" "M \<le> MAX_REFS"
  shows "\<exists>s'. turn pr t ss s = Next s' \<and> executor_ok N M s'"
proof -
  have able: "exec_step pr (t, what, ss) s \<noteq> Disabled"
    if "modes s t \<in> {Reading, Writing} \<and> what = Drop_Handle \<or> pending (modes s t) \<and> t \<in> set (woken (mem s)) \<and> what = Poll_Task" for what
    using that
    by (auto simp: exec_step_def Let_def set_mode_def pending_def split: mode.splits prod.splits option.splits sum.splits poll.splits)
  have ends: "\<exists>s'. exec_step pr (t, what, ss) s = Next s' \<and> executor_ok N M s'" if "exec_step pr (t, what, ss) s \<noteq> Disabled" for what
    using exec_step_fine [OF assms, of pr what ss] that by (cases "exec_step pr (t, what, ss) s") (auto simp: fine_def)
  from ends [OF able] assms(1) show ?thesis by (cases "modes s t") (auto simp: turn_def pending_def)
qed

text \<open>The polls that succeed.\<close>

lemma steady_load: "steady c \<Longrightarrow> steady (snd (load c))"
  by (auto simp: steady_def load_def split_beta quiet_arrive)

lemma poll_ref_succeeds:
  assumes "rc_ok rc n False N ws" "steady (count rc)" "n < MAX_REFS"
  shows "\<exists>rc'. poll_future_ref pr cx fut rc m = Some (Inr (Poll_Ready Ref), rc', m)"
proof -
  obtain rc1 where rc1: "is_blocked rc = (False, rc1)" "rc_ok rc1 n False N ws" using is_blocked_ok [OF assms(1)] by blast
  have "steady (count rc1)"
    using rc1(1) steady_load [OF assms(2)] by (auto simp: is_blocked_def raw_state_def load_count_def split: prod.splits)
  with try_get_ref_free [OF rc1(2) _ assms(3), of pr] rc1(1) show ?thesis by (auto simp: poll_future_ref_def)
qed

lemma poll_block_succeeds:
  assumes "rc_ok rc n False N ws" "steady (count rc)" "blocked_fut f \<noteq> None"
  shows "\<exists>r f' rc' m'. poll_future_exclusive_ref pr cx f rc m = Some (Inr r, f', rc', m') \<and> (r \<noteq> Pending \<or> blocked_fut f' = None)"
proof -
  obtain rc1 where "try_block_refs rc = (True, rc1)" using try_block_refs_free [OF assms(1,2)] by blast
  with assms(3) show ?thesis
    by (auto simp: poll_future_exclusive_ref_def poll_future_blocked_refs_def Let_def split: option.splits prod.splits)
qed

lemma weakly_steady: "rc_ok rc n b N ws \<Longrightarrow> length ss \<le> 4 \<Longrightarrow> steady (count (weakly ss rc))"
  by (auto simp: steady_def weakly_def quiet_def)

lemma helpful_moves:
  assumes ok: "executor_ok N M s" and t: "t < M" and size: "M \<le> MAX_REFS" and ss: "length ss \<le> 4"
    and useful: "helpful (modes s) t" and step: "turn pr t ss s = Next s'"
  shows "moves_on t (modes s) (modes s')"
proof -
  obtain n b ts where rc: "rc_ok (lock s) n b N (entries ts)" and v: "view M n b ts (modes s) (mem s)"
    using ok by (auto simp: executor_ok_def)
  note rc' = weakly_ok [OF rc, of ss] and D = viewD(3,4,8,10,11) [OF v]
  from useful consider "modes s t \<in> {Reading, Writing}" | "quiescing (modes s t)" "num_readers (modes s) = 0"
    | "flagged t (modes s t)" "\<forall>u. \<not> owns (modes s u)"
    by (auto simp: helpful_def)
  then show ?thesis
  proof cases
    case 1
    with step show ?thesis
      by (auto simp: turn_def exec_step_def set_mode_def moves_on_def Let_def intro!: exI [of _ Off]
          split: prod.splits option.splits sum.splits)
  next
    case 2
    then obtain f where f: "modes s t = Awaits_Excl f" "f = \<lparr>blocked_fut = None\<rparr>" by (simp add: quiescing_def)
    have n: "n = 0" using D(1) 2 by simp
    have woken: "t \<in> set (woken (mem s))" using D(3) [of t] D(5) [of t] 2(1) mode_kinds(7) by blast
    obtain rc1 where "poll_future_exclusive_ref pr t f (weakly ss (lock s)) (served t (mem s)) =
        Some (Inr (Poll_Ready ExclusiveRef), f, rc1, served t (mem s))"
      using poll_excl_check [OF rc', of f pr t "served t (mem s)"] f(2) n by (auto simp: checked_def)
    with step f woken show ?thesis by (auto simp: turn_def exec_step_def set_mode_def moves_on_def)
  next
    case 3
    then have b: "\<not> b" using D(2) by (simp add: owns_def)
    with D(4) have "ts = []" by blast
    then have woken: "t \<in> set (woken (mem s))" using D(5) [of t] 3(1) by auto
    have n: "n < MAX_REFS" using view_count [OF v t] 3(1) size by (auto simp: flagged_def)
    from 3(1) consider f where "modes s t = Awaits_Ref f" | f where "modes s t = Awaits_Excl f" "blocked_fut f \<noteq> None"
      by (auto simp: flagged_def)
    then show ?thesis
    proof cases
      case 1
      obtain rc1 where "poll_future_ref pr t f (weakly ss (lock s)) (served t (mem s)) = Some (Inr (Poll_Ready Ref), rc1, served t (mem s))"
        using poll_ref_succeeds [of "weakly ss (lock s)" n N "entries ts" pr t f] rc' b weakly_steady [OF rc ss] n by auto
      with step 1 woken show ?thesis by (auto simp: turn_def exec_step_def set_mode_def moves_on_def)
    next
      case 2
      obtain r f' rc1 m' where p: "poll_future_exclusive_ref pr t f (weakly ss (lock s)) (served t (mem s)) = Some (Inr r, f', rc1, m')"
        "r \<noteq> Pending \<or> blocked_fut f' = None"
        using poll_block_succeeds [of "weakly ss (lock s)" n N "entries ts" f pr t] rc' b weakly_steady [OF rc ss] 2(2) by fastforce
      with step 2 woken show ?thesis
        by (cases r) (auto simp: turn_def exec_step_def set_mode_def moves_on_def)
    qed
  qed
qed

text \<open>While there is work, some turn moves its task on.\<close>

lemma helpful_exists:
  assumes ok: "executor_ok N M s" and work: "modes s t \<noteq> Off"
  shows "\<exists>u < M. helpful (modes s) u"
proof -
  obtain n b ts where v: "view M n b ts (modes s) (mem s)" using ok by (auto simp: executor_ok_def)
  note D = viewD [OF v]
  have below: "u < M" if "modes s u \<noteq> Off" for u using D(2) [of u] that by (cases "M \<le> u") auto
  show ?thesis
  proof (cases "\<exists>u. modes s u \<in> {Reading, Writing}")
    case True
    then obtain u where "modes s u \<in> {Reading, Writing}" by blast
    with below [of u] show ?thesis by (auto simp: helpful_def)
  next
    case False
    then have none: "num_readers (modes s) = 0" by (simp add: num_readers_def)
    show ?thesis
    proof (cases "\<exists>u. quiescing (modes s u)")
      case True
      then obtain u where u: "quiescing (modes s u)" by blast
      then have "u < M" by (intro below) auto
      with u none show ?thesis by (auto simp: helpful_def)
    next
      case no: False
      with False D(1) [of t] work have "flagged t (modes s t)" by auto
      moreover have "\<not> owns (modes s u)" for u using False no by (auto simp: owns_def)
      ultimately show ?thesis using below [OF work] by (auto simp: helpful_def)
    qed
  qed
qed

text \<open>A round in which nobody is moved on has had no helpful turn.\<close>

lemma turns_work:
  assumes "executor_ok N M s" "set ts \<subseteq> {..<M}" "M \<le> MAX_REFS" "\<And>t. length (sp t) \<le> 4"
  shows "\<exists>s'. turns pr sp ts s = Next s' \<and> executor_ok N M s' \<and> work M (modes s') \<le> work M (modes s) \<and>
    (work M (modes s') = work M (modes s) \<longrightarrow> (\<forall>t \<in> set ts. \<not> helpful (modes s) t))"
  using assms(1,2)
proof (induction ts arbitrary: s)
  case (Cons t ts)
  have t: "t < M" using Cons.prems(2) by simp
  obtain s1 where s1: "turn pr t (sp t) s = Next s1" "executor_ok N M s1" using turn_ok [OF Cons.prems(1) t assms(3)] by blast
  obtain s2 where s2: "turns pr sp ts s1 = Next s2" "executor_ok N M s2" "work M (modes s2) \<le> work M (modes s1)"
    "work M (modes s2) = work M (modes s1) \<longrightarrow> (\<forall>t \<in> set ts. \<not> helpful (modes s1) t)"
    using Cons.IH [OF s1(2)] Cons.prems(2) by auto
  have less: "work M (modes s1) < work M (modes s)" if "moves_on t (modes s) (modes s1)" using work_less [OF t that] .
  have same: "modes s1 = modes s" if "work M (modes s1) = work M (modes s)" using turn_moves [OF s1(1)] less that by auto
  have "work M (modes s1) \<le> work M (modes s)" using turn_moves [OF s1(1)] less by auto
  moreover have "\<not> helpful (modes s) t" if "work M (modes s1) = work M (modes s)"
    using helpful_moves [OF Cons.prems(1) t assms(3,4) _ s1(1)] less that by auto
  ultimately show ?case using s1(1) s2 same by fastforce
qed simp

lemma rounds_work:
  assumes "executor_ok N M s" "M \<le> MAX_REFS" "\<And>k t. length (sp k t) \<le> 4"
  shows "\<exists>s'. rounds pr M sp k s = Next s' \<and> executor_ok N M s' \<and> work M (modes s') \<le> work M (modes s) - k"
proof (induction k)
  case 0
  then show ?case using assms(1) by simp
next
  case (Suc k)
  then obtain s1 where s1: "rounds pr M sp k s = Next s1" "executor_ok N M s1" "work M (modes s1) \<le> work M (modes s) - k" by blast
  obtain s2 where s2: "turns pr (sp k) [0..<M] s1 = Next s2" "executor_ok N M s2" "work M (modes s2) \<le> work M (modes s1)"
    "work M (modes s2) = work M (modes s1) \<longrightarrow> (\<forall>t \<in> set [0..<M]. \<not> helpful (modes s1) t)"
    using turns_work [OF s1(2) _ assms(2), of "[0..<M]" "sp k" pr] assms(3) by (auto simp: atLeast0LessThan)
  have "work M (modes s2) < work M (modes s1) \<or> work M (modes s1) = 0"
  proof (cases "\<exists>t. modes s1 t \<noteq> Off")
    case True
    with helpful_exists [OF s1(2)] s2(3,4) show ?thesis by fastforce
  qed (simp add: work_def)
  then have "work M (modes s2) \<le> work M (modes s) - Suc k" using s1(3) s2(3) by linarith
  with s1(1) s2(1,2) show ?case by auto
qed

section \<open>Overtaking\<close>

text \<open>
  The queue of waiters does not decide who is next: an unblocking task wakes everyone in it and opens the lock, and whoever comes first
  has it. In this run the holder of the exclusive reference drops it and asks for the next one before the waiting task is polled.
\<close>

definition overtaking :: "nat \<Rightarrow> nat \<Rightarrow> (nat \<times> decision \<times> bool list) list" where
  "overtaking t u = [(t, Drop_Handle, []), (t, Request_Excl, []), (u, Poll_Task, [])]"

lemma request_excl_free:
  assumes rc: "rc_ok rc 0 False N ws" and "lock s = rc" "modes s t = Off" "length ss \<le> 4"
  shows "\<exists>rc'. exec_step pr (t, Request_Excl, ss) s = set_mode t Writing rc' (mem s) s \<and> rc_ok rc' 0 True N ws"
proof -
  obtain rc1 where rc1: "try_block_refs (weakly ss rc) = (True, rc1)" "rc_ok rc1 0 True N ws"
    using try_block_refs_free [OF weakly_ok [OF rc] weakly_steady [OF rc assms(4)]] by blast
  obtain rc2 where "no_standard_refs rc1 = (True, rc2)" "rc_ok rc2 0 True N ws" using no_standard_refs_ok [OF rc1(2)] by auto
  with rc1(1) assms(2,3) show ?thesis by (auto simp: exec_step_def get_exclusive_ref_def)
qed

lemma overtaken_once:
  assumes ok: "executor_ok N M s" and t: "modes s t = Writing" "modes s u = Awaits_Excl f"
  shows "\<exists>s'. schedule (exec_next pr) (overtaking t u) s = Some s' \<and> modes s' = modes s"
proof -
  obtain n b ts where rc: "rc_ok (lock s) n b N (entries ts)" and v: "view M n b ts (modes s) (mem s)"
    using ok by (auto simp: executor_ok_def)
  let ?m = "all_woken (entries ts) (mem s)"
  obtain rc1 where drop: "exec_step pr (t, Drop_Handle, []) s = set_mode t Off rc1 ?m s" "rc_ok rc1 0 False N (entries [])"
    using drop_writing [OF rc v t(1) refl, of pr "[]"] by blast
  note v1 = view_open [OF v t(1)]
  define s1 where "s1 = s\<lparr>lock := rc1, mem := ?m, modes := (modes s)(t := Off)\<rparr>"
  obtain rc2 where req: "exec_step pr (t, Request_Excl, []) s1 = set_mode t Writing rc2 ?m s1" "rc_ok rc2 0 True N (entries [])"
    using request_excl_free [OF drop(2), of s1 t "[]" pr] by (auto simp: s1_def)
  define s2 where "s2 = s1\<lparr>lock := rc2, mem := ?m, modes := (modes s1)(t := Writing)\<rparr>"
  have u: "u \<noteq> t" using t by auto
  have md: "modes s2 = modes s" using t(1) by (auto simp: s2_def s1_def fun_eq_iff)
  have fl: "flagged u (modes s u)" using viewD(1) [OF v, of u] viewD(5) [OF v, of t u] t u by auto
  then have f: "f = \<lparr>blocked_fut = Some \<lparr>blocked_flag = u\<rparr>\<rparr>" using t(2) by (simp add: flagged_def)
  have woken: "u \<in> set (woken ?m)" using viewD(11) [OF v1, of u] fl u by simp
  have flag: "flags (served u ?m) u = Some False" using viewD(7) [OF v1, of u] fl u by simp
  obtain rc3 where "poll_future_exclusive_ref pr u f (weakly [] rc2) (served u ?m) =
      Some (Inr Pending, f, rc3, snd (registering u u N (entries []) (served u ?m)))"
    using poll_excl_blocked [OF weakly_ok [OF req(2), of "[]"], of f "\<lparr>blocked_flag = u\<rparr>" "served u ?m" False pr u] f flag by auto
  then have "\<exists>s3. exec_step pr (u, Poll_Task, []) s2 = Next s3 \<and> modes s3 = modes s"
    using md t(2) woken by (auto simp: exec_step_def set_mode_def s2_def)
  moreover have "exec_step pr (t, Drop_Handle, []) s = Next s1" "exec_step pr (t, Request_Excl, []) s1 = Next s2"
    using drop(1) req(1) by (simp_all add: set_mode_def s1_def s2_def)
  ultimately show ?thesis by (auto simp: overtaking_def exec_next_def)
qed

lemma schedule_ok:
  assumes "executor_ok N M s" "schedule (exec_next pr) ds s = Some s'" "\<forall>d \<in> set ds. fst d < M" "M \<le> MAX_REFS"
  shows "executor_ok N M s'"
  using assms
proof (induction ds arbitrary: s)
  case (Cons d ds)
  obtain t what ss where d: "d = (t, what, ss)" by (cases d) auto
  obtain s1 where s1: "exec_next pr d s = Some s1" "schedule (exec_next pr) ds s1 = Some s'"
    using Cons.prems(2) by (auto split: option.splits)
  then have next1: "exec_step pr d s = Next s1" by (auto simp: exec_next_def split: outcome.splits)
  have "executor_ok N M s1"
    using exec_step_fine [OF Cons.prems(1) _ assms(4), of t pr what ss] next1 Cons.prems(3) by (simp add: d fine_def)
  then show ?case using Cons.IH s1(2) Cons.prems(3,4) by simp
qed simp

section \<open>Properties\<close>

text \<open>C20: there is no fairness among the waiters: a task that waits for the exclusive reference and is
  polled whenever it is woken can be overtaken any number of times by a task that drops the exclusive reference and asks for
  it again. (The documentation says that fairness is ensured up to the capacity of the queue; in the witness the queue is not full.)\<close>

theorem waiters_are_overtaken:
  assumes "reachable (sized_init pr C M) (executes pr M) s" "t < M" "u < M" "modes s t = Writing" "modes s u = Awaits_Excl f"
  shows "\<exists>s'. schedule (exec_next pr) (concat (replicate k (overtaking t u))) s = Some s' \<and> modes s' = modes s"
proof -
  obtain n b ts where ok: "executor_ok (unat C) M s" and M: "M \<le> MAX_REFS" by (rule reachable_view [OF assms(1)])
  show ?thesis
    using ok assms(4,5)
  proof (induction k arbitrary: s)
    case (Suc k)
    obtain s1 where s1: "schedule (exec_next pr) (overtaking t u) s = Some s1" "modes s1 = modes s"
      using overtaken_once [OF Suc.prems] by blast
    have "executor_ok (unat C) M s1"
      using schedule_ok [OF Suc.prems(1) s1(1) _ M] assms(2,3) by (simp add: overtaking_def)
    from Suc.IH [OF this] Suc.prems(2,3) s1 show ?case by (auto simp: schedule_append)
  qed simp
qed

text \<open>C18: a fair single-threaded executor serves everyone: if nobody asks for anything new, whoever has a reference drops it at its
  turn and whoever is woken is polled at its turn, then after three rounds for each task every pending future has been resolved and
  everything is released, in whatever state the tasks were; no call panics, uses freed memory or loops on the way. An exchange may fail
  spuriously, but not four times in a row.\<close>

theorem executor_serves_everyone:
  assumes "reachable (sized_init pr C M) (executes pr M) s" "\<And>k t. length (sp k t) \<le> 4"
  shows "\<exists>s'. rounds pr M sp (3 * M) s = Next s' \<and> (\<forall>t. modes s' t = Off) \<and> cval (count (lock s')) = 0"
proof -
  obtain n b ts where ok: "executor_ok (unat C) M s" "M \<le> MAX_REFS" by (rule reachable_view [OF assms(1)])
  obtain s' where s': "rounds pr M sp (3 * M) s = Next s'" "executor_ok (unat C) M s'" "work M (modes s') \<le> work M (modes s) - 3 * M"
    using rounds_work [OF ok, of sp pr "3 * M"] assms(2) by blast
  have "weight md \<le> 3" for md by (cases md) auto
  then have "work M (modes s) \<le> (\<Sum>t<M. 3)" unfolding work_def by (intro sum_mono)
  with s'(3) have zero: "work M (modes s') = 0" by simp
  have off: "modes s' t = Off" for t
  proof (cases "t < M")
    case True
    with zero have "weight (modes s' t) = 0" by (auto simp: work_def)
    then show ?thesis by (cases "modes s' t") (auto split: if_splits)
  next
    case False
    with s'(2) show ?thesis by (auto simp: executor_ok_def dest: viewD(2) [where t = t])
  qed
  obtain n b ts where rc: "rc_ok (lock s') n b (unat C) (entries ts)" and v: "view M n b ts (modes s') (mem s')"
    using s'(2) by (auto simp: executor_ok_def)
  have "n = 0" "\<not> b" using viewD(3,4) [OF v] off by (auto simp: num_readers_def)
  with rc have "cval (count (lock s')) = 0" by (simp add: rc_ok_def word_state_def)
  with s'(1) off show ?thesis by blast
qed

theorem executor_serves_everyone_witness:
  "\<exists>s s' :: executor. modes s 1 = Awaits_Ref \<lparr>ref_flag = 1\<rparr> \<and> woken (mem s) = [] \<and>
     rounds Debug 2 (\<lambda>k t. [True, False, True]) 6 s = Next s' \<and> (\<forall>t. modes s' t = Off)"
proof (rule waiting_run_ends)
  fix s assume r: "reachable (sized_init Debug 2 2) (executes Debug 2) s" "modes s 1 = Awaits_Ref \<lparr>ref_flag = 1\<rparr>" "woken (mem s) = []"
  have "\<exists>s'. rounds Debug 2 (\<lambda>k t. [True, False, True]) (3 * 2) s = Next s' \<and> (\<forall>t. modes s' t = Off) \<and> cval (count (lock s')) = 0"
    by (rule executor_serves_everyone [OF r(1)]) simp
  with r(2,3) show ?thesis by auto
qed

text \<open>Task 1 waits in the queue for the exclusive reference that task 0 has.\<close>

theorem waiters_are_overtaken_witness:
  "\<exists>s s' :: executor. flags (mem s) 1 = Some True \<and> woken (mem s) = [] \<and>
     schedule (exec_next Debug) (concat (replicate 1000 (overtaking 0 1))) s = Some s' \<and> modes s' = modes s"
proof -
  let ?run = "[(0, Request_Excl, []), (1, Request_Excl, []), (1, Poll_Task, [])]"
  have "map_option (\<lambda>s. (modes s 0, modes s 1, flags (mem s) 1, woken (mem s))) (exec_run Debug 2 ?run) =
      Some (Writing, Awaits_Excl \<lparr>blocked_fut = Some \<lparr>blocked_flag = 1\<rparr>\<rparr>, Some True, [])"
    by code_simp
  then obtain s where s: "exec_run Debug 2 ?run = Some s" "modes s 0 = Writing"
    "modes s 1 = Awaits_Excl \<lparr>blocked_fut = Some \<lparr>blocked_flag = 1\<rparr>\<rparr>" "flags (mem s) 1 = Some True" "woken (mem s) = []" by auto
  have "reachable (sized_init Debug 2 2) (executes Debug 2) s"
    by (rule exec_run_reachable [OF s(1)]) (auto simp: MAX_REFS_def)
  from waiters_are_overtaken [OF this _ _ s(2,3)] s(4,5) show ?thesis by fastforce
qed

end
