(* ===== verification/Pad.thy ===== *)
theory Pad
  imports Main
begin

text \<open>
  \<open>src/pad.rs\<close>: \<open>CacheLine\<close>, a transparent wrapper whose only effect is on layout. The alignment
  comes from conditional attributes; the layout of a struct under them is that of the Rust reference
  (the alignment of a struct is the larger of its fields' and its own, its size a multiple of it).
\<close>

section \<open>The wrapper\<close>

datatype 'a cache_line = CacheLine 'a

definition new_cache_line :: "'a \<Rightarrow> 'a cache_line" where
  "new_cache_line val = CacheLine val"

fun deref :: "'a cache_line \<Rightarrow> 'a" where
  "deref (CacheLine v) = v"

text \<open>What a caller does with the reference of \<open>deref_mut\<close> is a function on the value.\<close>

fun deref_mut :: "('a \<Rightarrow> 'a) \<Rightarrow> 'a cache_line \<Rightarrow> 'a cache_line" where
  "deref_mut f (CacheLine v) = CacheLine (f v)"

definition from_value :: "'a \<Rightarrow> 'a cache_line" where
  "from_value v = new_cache_line v"

lemma wrapper_laws:
  "deref (new_cache_line v) = v" "deref (deref_mut f c) = f (deref c)" "new_cache_line (deref c) = c" "from_value = new_cache_line"
  by (cases c; simp add: new_cache_line_def from_value_def fun_eq_iff)+

section \<open>The alignment attributes\<close>

definition wide :: "string list" where
  "wide = [''x86_64'', ''aarch64'', ''powerpc64'']"

definition narrow :: "string list" where
  "narrow = [''arm'', ''mips'', ''mips32r6'', ''mips64'', ''mips64r6'', ''sparc'', ''hexagon'']"

definition named_archs :: "string list" where
  "named_archs = [''x86_64'', ''aarch64'', ''powerpc64'', ''arm'', ''mips'', ''mips32r6'', ''mips64'', ''mips64r6'',
     ''sparc'', ''hexagon'', ''m68k'', ''s390x'']"

text \<open>The attributes \<open>repr(align(n))\<close> that apply for a value of \<open>target_arch\<close>.\<close>

definition alignments :: "string \<Rightarrow> nat list" where
  "alignments target_arch =
     (if target_arch \<in> set wide then [128] else []) @
     (if target_arch \<in> set narrow then [32] else []) @
     (if target_arch = ''m68k'' then [16] else []) @
     (if target_arch = ''s390x'' then [256] else []) @
     (if target_arch \<notin> set named_archs then [64] else [])"

definition layout :: "string \<Rightarrow> nat \<Rightarrow> nat \<Rightarrow> nat \<times> nat" where
  "layout target_arch sz align =
     (let a = foldr max (alignments target_arch) align in ((sz + a - 1) div a * a, a))"

text \<open>The attributes are exclusive and exhaustive.\<close>

lemma one_alignment: "alignments target_arch \<in> {[16], [32], [64], [128], [256]}"
  by (simp add: alignments_def wide_def narrow_def named_archs_def)

text \<open>
  No false sharing: two cache lines at different aligned addresses, laid out without overlap, have no
  byte in a common block of the architecture's size.
\<close>

lemma no_false_sharing:
  assumes arch: "alignments target_arch = [line]" and align: "align = 2 ^ j"
    and at: "snd (layout target_arch sz align) dvd y"
    and apart: "x + fst (layout target_arch sz align) \<le> y"
    and bytes: "i < fst (layout target_arch sz align)"
  shows "(x + i) div line < (y + l) div line"
proof -
  from one_alignment [of target_arch] arch obtain e where line: "line = 2 ^ e"
  proof -
    have "line = 2 ^ 4 \<or> line = 2 ^ 5 \<or> line = 2 ^ 6 \<or> line = 2 ^ 7 \<or> line = (2::nat) ^ 8"
      using one_alignment [of target_arch] arch by auto
    with that show ?thesis by blast
  qed
  have "line dvd snd (layout target_arch sz align)"
    by (simp add: layout_def Let_def arch line align max_def le_imp_power_dvd)
  then have "line dvd y" using at dvd_trans by blast
  then have y: "y div line * line = y" by simp
  have "x + i < y div line * line" using apart bytes y by simp
  then have "(x + i) div line < y div line" by (simp add: less_mult_imp_div_less)
  also have "\<dots> \<le> (y + l) div line" by (rule div_le_mono) simp
  finally show ?thesis .
qed

end
