(* ===== verification/Formatting.thy ===== *)
theory Formatting
  imports Ref_Count
begin

text \<open>
  The \<open>Debug\<close> and \<open>Display\<close> implementations of \<open>lib.rs\<close>, \<open>array_queue.rs\<close> and \<open>pad.rs\<close>, as the text
  they write with the plain format strings \<open>{:?}\<close> and \<open>{}\<close> (no width, precision or alternate form).
  \<open>debug_struct\<close> is that of \<open>core::fmt\<close>.
\<close>

section \<open>Texts of core::fmt\<close>

fun fields :: "(string \<times> string) list \<Rightarrow> string" where
  "fields [] = []"
| "fields [(name, text)] = name @ '': '' @ text"
| "fields ((name, text) # fs) = name @ '': '' @ text @ '', '' @ fields fs"

definition debug_struct :: "string \<Rightarrow> (string \<times> string) list \<Rightarrow> string" where
  "debug_struct name fs = (if fs = [] then name else name @ '' { '' @ fields fs @ '' }'')"

definition digit :: "nat \<Rightarrow> char" where
  "digit d = char_of (48 + d)"

fun decimal :: "nat \<Rightarrow> string" where
  "decimal n = (if n < 10 then [digit n] else decimal (n div 10) @ [digit (n mod 10)])"

declare decimal.simps [simp del]

text \<open>Decimal texts can be read back.\<close>

definition read_decimal :: "string \<Rightarrow> nat" where
  "read_decimal = foldl (\<lambda>n c. 10 * n + (of_char c - 48)) 0"

lemma read_decimal: "read_decimal (decimal n) = n"
proof (induction n rule: decimal.induct)
  case (1 n)
  have d: "of_char (digit d) - 48 = d" if "d < 10" for d
    using that by (simp add: digit_def)
  show ?case
  proof (cases "n < 10")
    case True
    then show ?thesis by (simp add: decimal.simps [of n] read_decimal_def d)
  next
    case False
    with 1 have "read_decimal (decimal (n div 10)) = n div 10" by simp
    then show ?thesis using False by (simp add: decimal.simps [of n] read_decimal_def d)
  qed
qed

section \<open>The implementations\<close>

definition debug_array_queue :: string where
  "debug_array_queue = ''ArrayQueue { .. }''"

definition debug_cache_line :: "('a \<Rightarrow> string) \<Rightarrow> 'a \<Rightarrow> string" where
  "debug_cache_line debug v = debug_struct ''CacheLine'' [(''value'', debug v)]"

definition display_cache_line :: "('a \<Rightarrow> string) \<Rightarrow> 'a \<Rightarrow> string" where
  "display_cache_line display v = display v"

definition debug_ref_count :: "profile \<Rightarrow> ref_count \<Rightarrow> (fault + string) \<times> ref_count" where
  "debug_ref_count pr rc =
     (let (s, rc) = load_count rc in
      (case from_raw s of Inl e \<Rightarrow> Inl e | Inr st \<Rightarrow>
       (case checked_add pr (standard_ref_count s) (block_state s) of Inl e \<Rightarrow> Inl e | Inr n \<Rightarrow>
          Inr (debug_struct ''RefCount''
            [(''state'', state_format st), (''references'', decimal (unat n)), (''waiter_queue'', debug_array_queue)])), rc))"

text \<open>Formatting a \<open>RefCount\<close> cannot panic, and writes the state and the total of the word it has loaded.\<close>

lemma debug_ref_count_text:
  "\<exists>w rc'. load_count rc = (w, rc') \<and> debug_ref_count pr rc = (Inr (''RefCount { state: '' @
     (if is_blk w then ''blocked'' else ''allowed'') @ '', references: '' @ decimal (refs_of w + of_bool (is_blk w)) @
     '', waiter_queue: ArrayQueue { .. } }''), rc')"
proof -
  obtain w rc' where ld: "load_count rc = (w, rc')" by fastforce
  have small: "unat (standard_ref_count w) + unat (block_state w) < 2 ^ 32"
    using refs_of_le [of w] by (simp add: unat_standard_ref_count block_state_eq MAX_REFS_def)
  then have add: "checked_add pr (standard_ref_count w) (block_state w) = Inr (standard_ref_count w + block_state w)"
    by (intro checked_add_ok) simp
  have "unat (standard_ref_count w + block_state w) = refs_of w + of_bool (is_blk w)"
    using small by (simp add: unat_word_ariths unat_standard_ref_count block_state_eq)
  have raw: "from_raw w = Inr (if is_blk w then Blocked else Allowed)"
    by (simp add: from_raw_def transmute_state_def discriminant_def block_state_eq)
  have "debug_ref_count pr rc = (Inr (debug_struct ''RefCount''
     [(''state'', state_format (if is_blk w then Blocked else Allowed)), (''references'', decimal (refs_of w + of_bool (is_blk w))),
      (''waiter_queue'', debug_array_queue)]), rc')"
    using \<open>unat _ = _\<close> by (simp add: debug_ref_count_def ld raw add)
  then show ?thesis
    by (cases "is_blk w") (simp_all add: ld debug_struct_def debug_array_queue_def state_format_def)
qed

end
