(* ===== verification/Crate_Tests.thy ===== *)
theory Crate_Tests
  imports Quiet_Polls
begin

text \<open>
  The unit tests at the end of \<open>src/lib.rs\<close>, run in the model. A failed assertion, a panic of the code
  and a call that does not return all make the test \<open>False\<close>. The tests run alone, so the count starts
  as a fresh cell without interference; the waker of the tests does nothing, which the model's log of
  wake-ups records without effect.
\<close>

section \<open>The tests\<close>

definition state_enum_from_raw :: bool where
  "state_enum_from_raw \<longleftrightarrow>
     (case from_raw 1 of Inl _ \<Rightarrow> False | Inr e \<Rightarrow> state_is_blocked e) \<and>
     (case from_raw 0 of Inl _ \<Rightarrow> False | Inr e \<Rightarrow> state_is_allowed e)"

text \<open>The loop of the test: every one of \<open>k\<close> polls has to be pending.\<close>

fun polls_pending :: "profile \<Rightarrow> nat \<Rightarrow> future_exclusive_ref \<Rightarrow> ref_count \<Rightarrow> memory
    \<Rightarrow> (future_exclusive_ref \<times> ref_count \<times> memory) option" where
  "polls_pending pr 0 fut rc m = Some (fut, rc, m)"
| "polls_pending pr (Suc k) fut rc m =
     (case poll_future_exclusive_ref pr 0 fut rc m of
        Some (Inr Pending, fut, rc, m) \<Rightarrow> polls_pending pr k fut rc m
      | _ \<Rightarrow> None)"

text \<open>The last two polls: their results are temporaries, dropped at the end of their statements.\<close>

definition now_ready :: "profile \<Rightarrow> future_exclusive_ref \<Rightarrow> future_ref \<Rightarrow> ref_count \<Rightarrow> memory \<Rightarrow> bool" where
  "now_ready pr fut not_yet_fut rc m =
     (case poll_future_exclusive_ref pr 0 fut rc m of
        Some (Inr (Poll_Ready x), _, rc, m) \<Rightarrow>
          (case drop_exclusive pr x rc m of
             Some (Inr _, rc, m) \<Rightarrow>
               (case poll_future_ref pr 0 not_yet_fut rc m of Some (Inr (Poll_Ready _), _) \<Rightarrow> True | _ \<Rightarrow> False)
           | _ \<Rightarrow> False)
      | _ \<Rightarrow> False)"

definition exclusive_vs_ref :: "profile \<Rightarrow> nat \<Rightarrow> bool" where
  "exclusive_vs_ref pr polls =
     (case new_ref_count pr 30 of Inl _ \<Rightarrow> False | Inr ref_counter \<Rightarrow>
      case get_ref pr 0 ref_counter \<lparr>flags = (\<lambda>_. None), woken = []\<rparr> of (Inr (Ready r), rc, m) \<Rightarrow>
        (case get_exclusive_ref 1 rc m of (Future deadlock_fut, rc, m) \<Rightarrow>
           (case get_ref pr 2 rc m of (Inr (Future not_yet), rc, m) \<Rightarrow>
              (case polls_pending pr polls deadlock_fut rc m of None \<Rightarrow> False | Some (fut, rc, m) \<Rightarrow>
                 now_ready pr fut not_yet (drop_ref r rc) m)
            | _ \<Rightarrow> False)
         | _ \<Rightarrow> False)
      | _ \<Rightarrow> False)"

section \<open>Undisturbed cells\<close>

text \<open>On a cell without an environment every access is exact.\<close>

lemma lone_cell:
  assumes "cenv c = []"
  shows "load c = (cval c, c)" "store v c = put v c"
    "compare_exchange_weak old new c = (if cval c = old then (Inr old, put new c) else (Inl (cval c), c))"
  using assms by (simp_all add: load_def store_def compare_exchange_weak_def arrive_def)

lemma lone_fetch_sub: "cenv c = [] \<Longrightarrow> fetch_sub d c = (cval c, put (cval c - d) c)"
  by (simp add: fetch_sub_def arrive_def)

lemma lone_incr:
  assumes "cenv c = []" "cval c = word_state n False" "n < MAX_REFS"
  shows "try_incr_cell pr c = (Inr True, put (word_state (Suc n) False) c)"
  using assms checked_incr [of n pr]
  by (simp add: try_incr_cell_def lone_cell mask_word_state incr_word_state many_weak_try_incr_refs_def try_incr_def)

lemma lone_block:
  assumes "cenv c = []" "cval c = word_state n False" "n \<le> MAX_REFS"
  shows "try_block_cell c = (True, put (word_state n True) c)"
  using assms by (simp add: try_block_cell_def lone_cell mask_word_state blocked_word_state try_block_def)

lemma lone_incr_blocked:
  assumes "cenv c = []" "cval c = word_state n True" "n < MAX_REFS"
  shows "try_incr_cell pr c = (Inr False, c)"
  using assms checked_incr [of n pr]
  by (simp add: try_incr_cell_def lone_cell mask_word_state incr_word_state word_state_eq_iff
      many_weak_try_incr_refs_def try_incr_def try_last_def)

lemma lone_unblock:
  assumes "unblock_refs pr rc m = Some (r, rc', m')" "cenv (count rc) = []"
  shows "count rc' = put REF_ALLOWED (count rc)"
  using assms by (auto simp: unblock_refs_def lone_cell Let_def split: option.splits sum.splits prod.splits)

lemma pending_again:
  assumes "cenv (count rc) = []" "cval (count rc) = word_state n b" "0 < n" "n \<le> MAX_REFS"
  shows "\<exists>m'. polls_pending pr k \<lparr>blocked_fut = None\<rparr> rc m = Some (\<lparr>blocked_fut = None\<rparr>, rc, m')"
proof (induction k arbitrary: m)
  case (Suc k)
  have "standard_ref_count (word_state n b) \<noteq> 0"
    using assms by (simp add: standard_ref_count_eq_0 refs_of_word_state)
  then have "poll_future_exclusive_ref pr 0 \<lparr>blocked_fut = None\<rparr> rc m =
      Some (Inr Pending, \<lparr>blocked_fut = None\<rparr>, rc, wake_task 0 m)"
    using assms by (simp add: poll_future_exclusive_ref_def no_standard_refs_def std_ref_count_def load_count_def lone_cell)
  with Suc show ?case by simp
qed simp

section \<open>They pass\<close>

lemma state_enum_from_raw_passes: state_enum_from_raw
  by code_simp

lemma lone_ready:
  assumes "rc_ok rc 0 True N []" "cenv (count rc) = []" "blocked_fut fut = None"
  shows "now_ready pr fut nyf rc m"
proof -
  have v: "cval (count rc) = word_state 0 True" using assms(1) by (simp add: rc_ok_def)
  have "standard_ref_count (word_state 0 True) = 0"
    by (simp add: standard_ref_count_eq_0 refs_of_word_state)
  with assms v have poll: "poll_future_exclusive_ref pr 0 fut rc m = Some (Inr (Poll_Ready ExclusiveRef), fut, rc, m)"
    by (simp add: poll_future_exclusive_ref_def no_standard_refs_def std_ref_count_def load_count_def lone_cell)
  obtain rc1 where rc1: "unblock_refs pr rc m = Some (Inr (), rc1, all_woken [] m)" "rc_ok rc1 0 False N []"
    using unblock_refs_ok [OF assms(1), of m pr] by auto
  have c1: "count rc1 = put REF_ALLOWED (count rc)" by (rule lone_unblock [OF rc1(1) assms(2)])
  have "steady (count rc1)" using rc1(2) assms(2) by (simp add: steady_def rc_ok_def c1)
  moreover have "is_blocked rc1 = (False, rc1)"
    using assms(2) by (simp add: is_blocked_def raw_state_def load_count_def lone_cell c1 block_state_word_state REF_ALLOWED_word_state)
  moreover have "0 < MAX_REFS" by (simp add: MAX_REFS_def)
  ultimately obtain rc2 where "poll_future_ref pr 0 nyf rc1 m' = Some (Inr (Poll_Ready Ref), rc2, m')" for m'
    using try_get_ref_free [OF rc1(2), of pr] by (auto simp: poll_future_ref_def)
  with poll rc1(1) show ?thesis by (auto simp: now_ready_def drop_exclusive_def)
qed

text \<open>The test of the crate polls 5000 times; it passes for any number of polls.\<close>

theorem exclusive_vs_ref_passes: "exclusive_vs_ref pr polls"
proof -
  obtain rc where new: "new_ref_count pr 30 = Inr rc" "rc_ok rc 0 False 30 []"
    using new_ref_count_ok [of 30 pr] by auto
  have env: "cenv (count rc) = []"
    using new(1) by (auto simp: new_ref_count_def new_cell_def split: sum.splits)
  define c1 c2 c3 where "c1 = put (word_state 1 False) (count rc)" and "c2 = put (word_state 1 True) c1"
    and "c3 = put (word_state 0 True) c2"
  have max: "1 < MAX_REFS" by (simp add: MAX_REFS_def)
  have v: "cval (count rc) = word_state 0 False" using new(2) by (simp add: rc_ok_def)
  have r: "get_ref pr 0 rc m = (Inr (Ready Ref), rc\<lparr>count := c1\<rparr>, m)" for m
    using lone_incr [OF env v, of pr] max by (simp add: get_ref_def c1_def)
  have block: "try_block_refs (rc\<lparr>count := c1\<rparr>) = (True, rc\<lparr>count := c2\<rparr>)"
    using lone_block [of c1 1] env max by (simp add: try_block_refs_def c1_def c2_def)
  have "standard_ref_count (word_state 1 True) \<noteq> 0"
    using max by (simp add: standard_ref_count_eq_0 refs_of_word_state)
  with block have x: "get_exclusive_ref 1 (rc\<lparr>count := c1\<rparr>) m = (Future \<lparr>blocked_fut = None\<rparr>, rc\<lparr>count := c2\<rparr>, m)" for m
    using env by (simp add: get_exclusive_ref_def no_standard_refs_def std_ref_count_def load_count_def lone_cell
        c1_def c2_def new_future_exclusive_ref_def)
  have nyf: "\<exists>nyf m'. get_ref pr 2 (rc\<lparr>count := c2\<rparr>) m = (Inr (Future nyf), rc\<lparr>count := c2\<rparr>, m')" for m
    using lone_incr_blocked [of c2 1 pr] env max by (simp add: get_ref_def c1_def c2_def split: prod.split)
  have polls: "\<exists>m'. polls_pending pr polls \<lparr>blocked_fut = None\<rparr> (rc\<lparr>count := c2\<rparr>) m =
      Some (\<lparr>blocked_fut = None\<rparr>, rc\<lparr>count := c2\<rparr>, m')" for m
    using env max by (intro pending_again [of _ 1 True]) (simp_all add: c1_def c2_def)
  have drop: "drop_ref Ref (rc\<lparr>count := c2\<rparr>) = rc\<lparr>count := c3\<rparr>"
    using env decr_word_state [of 1 True] by (simp add: drop_ref_def lone_fetch_sub c1_def c2_def c3_def)
  have "rc_ok (rc\<lparr>count := c3\<rparr>) 0 True 30 []"
    using new(2) by (intro rc_okI [OF new(2)]) (simp_all add: rc_ok_def c1_def c2_def c3_def quiet_put)
  then have ready: "now_ready pr \<lparr>blocked_fut = None\<rparr> f (rc\<lparr>count := c3\<rparr>) m" for f m
    using env by (intro lone_ready) (simp_all add: c1_def c2_def c3_def)
  obtain nyf m1 where nyf: "get_ref pr 2 (rc\<lparr>count := c2\<rparr>) \<lparr>flags = (\<lambda>_. None), woken = []\<rparr> =
      (Inr (Future nyf), rc\<lparr>count := c2\<rparr>, m1)"
    using nyf by blast
  obtain m2 where "polls_pending pr polls \<lparr>blocked_fut = None\<rparr> (rc\<lparr>count := c2\<rparr>) m1 =
      Some (\<lparr>blocked_fut = None\<rparr>, rc\<lparr>count := c2\<rparr>, m2)"
    using polls by blast
  with new(1) r x nyf drop ready show ?thesis by (simp add: exclusive_vs_ref_def)
qed

end
