(* ===== verification/Client_Programs.thy ===== *)
theory Client_Programs
  imports Ref_Properties
begin

text \<open>
  Programs of one task that uses a \<open>RefCount\<close>, as the documentation of \<open>src/lib.rs\<close> shows them: a task that asks for handles,
  looks at the state, blocks and unblocks by hand, and drops its handles, the variables of a scope at its end and the last one first. The
  programs run on any provider of the operations. One provider is the crate's model. The other is the contract the documentation states: so
  many references are alive, and the lock is held or not. A locale states what makes a provider as good as another, and the crate's
  model is shown to be as good as the contract.
\<close>

section \<open>Endings\<close>

text \<open>An assertion fails or something faults; the task waits for ever; it has done what the contract says nothing about.\<close>

datatype 'a ending = Passes 'a | Fails | Waits | Misused

fun then_run :: "'a ending \<Rightarrow> ('a \<Rightarrow> 'b ending) \<Rightarrow> 'b ending" where
  "then_run (Passes x) f = f x"
| "then_run Fails f = Fails"
| "then_run Waits f = Waits"
| "then_run Misused f = Misused"

text \<open>The first ending is the second one, on related values, unless the second is a misuse.\<close>

definition agrees :: "('a \<Rightarrow> 'b \<Rightarrow> bool) \<Rightarrow> 'a ending \<Rightarrow> 'b ending \<Rightarrow> bool" where
  "agrees R x y \<longleftrightarrow> y = Misused \<or> rel_ending R x y"

lemma agrees_simps [simp]:
  "agrees R x Misused" "agrees R x Fails \<longleftrightarrow> x = Fails" "agrees R x Waits \<longleftrightarrow> x = Waits"
  "agrees R x (Passes b) \<longleftrightarrow> (\<exists>a. x = Passes a \<and> R a b)"
  by (cases x; simp add: agrees_def)+

lemma agrees_then:
  assumes "agrees R x y" "\<And>a b. R a b \<Longrightarrow> agrees Q (f a) (g b)"
  shows "agrees Q (then_run x f) (then_run y g)"
  using assms by (cases y) auto

section \<open>Programs\<close>

datatype handle = A_Ref ref_handle | An_Exclusive exclusive_handle | A_Block

datatype request =
    Try_Ref | Blocking_Ref | Awaited_Ref
  | Try_Exclusive | Blocking_Exclusive | Awaited_Exclusive
  | Awaited_Block

datatype observation =
    Ref_Count_Is u32 | No_Refs | Standard_Is u32 | No_Standard | Raw_Is u32 | Is_Blocked | Is_Allowed | State_Blocked | State_Allowed

datatype command =
    Let_Be string request              \<comment> \<open>\<open>let x = ...\<close>, unwrapped if it is an \<open>Option\<close>\<close>
  | Is_None request                    \<comment> \<open>the assertion that there is none\<close>
  | Match_Some string request "command list"
  | Drop string
  | Asserts observation
  | Asserts_Not observation
  | If_Seen observation "command list"
  | If_Blocks "command list"           \<comment> \<open>\<open>if unsafe { ref_count.try_block_refs() } { .. }\<close>\<close>
  | Unblock                            \<comment> \<open>\<open>unsafe { ref_count.unblock_refs() }\<close>\<close>

record 's lock_ops =
  ask :: "request \<Rightarrow> 's \<Rightarrow> (handle option \<times> 's) ending"
  look :: "observation \<Rightarrow> 's \<Rightarrow> (bool \<times> 's) ending"
  release :: "handle \<Rightarrow> 's \<Rightarrow> 's ending"
  block_now :: "'s \<Rightarrow> (bool \<times> 's) ending"
  unblock_now :: "'s \<Rightarrow> 's ending"

text \<open>The variables in scope, the newest first; \<open>Scope\<close> is where a scope begins.\<close>

datatype item = Var string handle | Scope

type_synonym 's scene = "item list \<times> 's"

text \<open>The newest variable of a name is the one that is moved out.\<close>

fun take_name :: "string \<Rightarrow> item list \<Rightarrow> (handle \<times> item list) option" where
  "take_name x [] = None"
| "take_name x (Scope # vs) = map_option (\<lambda>(h, vs). (h, Scope # vs)) (take_name x vs)"
| "take_name x (Var y h # vs) =
     (if x = y then Some (h, vs) else map_option (\<lambda>(k, vs). (k, Var y h # vs)) (take_name x vs))"

fun leave_scope :: "'s lock_ops \<Rightarrow> 's scene \<Rightarrow> 's scene ending" where
  "leave_scope ops ([], s) = Passes ([], s)"
| "leave_scope ops (Scope # vs, s) = Passes (vs, s)"
| "leave_scope ops (Var x h # vs, s) = then_run (release ops h s) (\<lambda>s. leave_scope ops (vs, s))"

fun perform :: "'s lock_ops \<Rightarrow> command \<Rightarrow> 's scene \<Rightarrow> 's scene ending"
and perform_all :: "'s lock_ops \<Rightarrow> command list \<Rightarrow> 's scene \<Rightarrow> 's scene ending" where
  "perform ops (Let_Be x r) (vs, s) = then_run (ask ops r s) (\<lambda>(h, s).
     case h of None \<Rightarrow> Fails | Some h \<Rightarrow> Passes (Var x h # vs, s))"
| "perform ops (Is_None r) (vs, s) = then_run (ask ops r s) (\<lambda>(h, s). case h of None \<Rightarrow> Passes (vs, s) | Some _ \<Rightarrow> Fails)"
| "perform ops (Match_Some x r cs) (vs, s) = then_run (ask ops r s) (\<lambda>(h, s).
     case h of None \<Rightarrow> Passes (vs, s)
     | Some h \<Rightarrow> then_run (perform_all ops cs (Var x h # Scope # vs, s)) (leave_scope ops))"
| "perform ops (Drop x) (vs, s) =
     (case take_name x vs of None \<Rightarrow> Fails | Some (h, vs) \<Rightarrow> then_run (release ops h s) (\<lambda>s. Passes (vs, s)))"
| "perform ops (Asserts ob) (vs, s) = then_run (look ops ob s) (\<lambda>(b, s). if b then Passes (vs, s) else Fails)"
| "perform ops (Asserts_Not ob) (vs, s) = then_run (look ops ob s) (\<lambda>(b, s). if b then Fails else Passes (vs, s))"
| "perform ops (If_Seen ob cs) (vs, s) = then_run (look ops ob s) (\<lambda>(b, s).
     if b then then_run (perform_all ops cs (Scope # vs, s)) (leave_scope ops) else Passes (vs, s))"
| "perform ops (If_Blocks cs) (vs, s) = then_run (block_now ops s) (\<lambda>(b, s).
     if b then then_run (perform_all ops cs (Scope # vs, s)) (leave_scope ops) else Passes (vs, s))"
| "perform ops Unblock (vs, s) = then_run (unblock_now ops s) (\<lambda>s. Passes (vs, s))"
| "perform_all ops [] sc = Passes sc"
| "perform_all ops (c # cs) sc = then_run (perform ops c sc) (perform_all ops cs)"

definition run_program :: "'s lock_ops \<Rightarrow> command list \<Rightarrow> 's \<Rightarrow> 's ending" where
  "run_program ops cs s = then_run (perform_all ops cs ([], s)) (\<lambda>sc. then_run (leave_scope ops sc) (\<lambda>sc. Passes (snd sc)))"

section \<open>Providers that are as good as another\<close>

text \<open>\<open>R\<close> relates the states of a provider to those of its contract.\<close>

abbreviation related :: "('s \<Rightarrow> 't \<Rightarrow> bool) \<Rightarrow> 'a \<times> 's \<Rightarrow> 'a \<times> 't \<Rightarrow> bool" where
  "related R x y \<equiv> fst x = fst y \<and> R (snd x) (snd y)"

locale provider =
  fixes ops :: "'s lock_ops" and contract :: "'t lock_ops" and R :: "'s \<Rightarrow> 't \<Rightarrow> bool"
  assumes ask_ok: "R s t \<Longrightarrow> agrees (related R) (ask ops r s) (ask contract r t)"
    and look_ok: "R s t \<Longrightarrow> agrees (related R) (look ops ob s) (look contract ob t)"
    and release_ok: "R s t \<Longrightarrow> agrees R (release ops h s) (release contract h t)"
    and block_ok: "R s t \<Longrightarrow> agrees (related R) (block_now ops s) (block_now contract t)"
    and unblock_ok: "R s t \<Longrightarrow> agrees R (unblock_now ops s) (unblock_now contract t)"
begin

lemma leave_agrees: "R s t \<Longrightarrow> agrees (related R) (leave_scope ops (vs, s)) (leave_scope contract (vs, t))"
proof (induction vs arbitrary: s t)
  case (Cons v vs)
  then show ?case by (cases v) (auto intro: agrees_then [OF release_ok])
qed simp

lemma all_agrees:
  assumes "\<And>c vs s t. c \<in> set cs \<Longrightarrow> R s t \<Longrightarrow> agrees (related R) (perform ops c (vs, s)) (perform contract c (vs, t))" "R s t"
  shows "agrees (related R) (perform_all ops cs (vs, s)) (perform_all contract cs (vs, t))"
  using assms
proof (induction cs arbitrary: vs s t)
  case (Cons c cs)
  show ?case
    unfolding perform_all.simps
  proof (rule agrees_then)
    fix x :: "'s scene" and y :: "'t scene" assume "related R x y"
    with Cons.IH [of "snd x" "snd y" "fst x"] Cons.prems(1)
    show "agrees (related R) (perform_all ops cs x) (perform_all contract cs y)" by (cases x; cases y) simp
  qed (use Cons.prems in simp)
qed simp

lemma scope_agrees:
  assumes "agrees (related R) (perform_all ops cs (vs, s)) (perform_all contract cs (vs, t))"
  shows "agrees (related R) (then_run (perform_all ops cs (vs, s)) (leave_scope ops))
    (then_run (perform_all contract cs (vs, t)) (leave_scope contract))"
  using assms by (rule agrees_then) (use leave_agrees in force)

lemma perform_agrees:
  "R s t \<Longrightarrow> agrees (related R) (perform ops c (vs, s)) (perform contract c (vs, t))"
proof (induction c arbitrary: vs s t)
  case (Match_Some x r cs)
  then show ?case by (auto intro!: agrees_then [OF ask_ok] scope_agrees all_agrees split: option.split)
next
  case (Drop x)
  then show ?case by (auto intro!: agrees_then [OF release_ok] split: option.split)
qed (auto intro!: agrees_then [OF ask_ok] agrees_then [OF look_ok] agrees_then [OF block_ok] agrees_then [OF unblock_ok]
    scope_agrees all_agrees split: option.split)

lemma programs_agree: "R s t \<Longrightarrow> agrees R (run_program ops cs s) (run_program contract cs t)"
  unfolding run_program_def
  by (rule agrees_then [OF all_agrees], rule perform_agrees, assumption, assumption, rule agrees_then)
    (use leave_agrees in force)+

end

section \<open>The crate\<close>

type_synonym crate = "ref_count \<times> memory"

text \<open>A call that does not return leaves the task waiting.\<close>

definition returned :: "('r \<Rightarrow> 'h) \<Rightarrow> 'r call \<Rightarrow> ('h \<times> crate) ending" where
  "returned f call = (case call of
     None \<Rightarrow> Waits
   | Some (r, rc, m) \<Rightarrow> (case r of Inl _ \<Rightarrow> Fails | Inr x \<Rightarrow> Passes (f x, rc, m)))"

text \<open>
  \<open>.await\<close>: the future is polled, and polled again when its task has been woken since. Nobody else runs, so a task that has not been woken
  is never polled again.
\<close>

definition await_pass ::
  "('f \<Rightarrow> ref_count \<Rightarrow> memory \<Rightarrow> ((fault + 'r poll) \<times> 'f \<times> ref_count \<times> memory) option) \<Rightarrow>
     'f \<times> ref_count \<times> memory \<Rightarrow> ('f \<times> ref_count \<times> memory, (fault + 'r) \<times> ref_count \<times> memory) pass option" where
  "await_pass poll vars = (case vars of (f, rc, m) \<Rightarrow>
     (case poll f rc m of
        None \<Rightarrow> None
      | Some (r, f, rc, m) \<Rightarrow>
          (case r of
             Inl e \<Rightarrow> Some (Leave (Inl e, rc, m))
           | Inr (Poll_Ready h) \<Rightarrow> Some (Leave (Inr h, rc, m))
           | Inr Pending \<Rightarrow>
               if 0 \<in> set (woken m) then Some (Again (f, rc, m\<lparr>woken := removeAll 0 (woken m)\<rparr>)) else None)))"

definition awaits ::
  "('f \<Rightarrow> ref_count \<Rightarrow> memory \<Rightarrow> ((fault + 'r poll) \<times> 'f \<times> ref_count \<times> memory) option) \<Rightarrow> 'f \<Rightarrow> ref_count \<Rightarrow> memory \<Rightarrow> 'r call" where
  "awaits poll f rc m = run_loop (await_pass poll) (f, rc, m)"

text \<open>A poll that leaves its future as it is; and the end of a future with its flag.\<close>

definition same_future :: "('f \<Rightarrow> 'c \<Rightarrow> 'm \<Rightarrow> ('r \<times> 'c \<times> 'm) option) \<Rightarrow> 'f \<Rightarrow> 'c \<Rightarrow> 'm \<Rightarrow> ('r \<times> 'f \<times> 'c \<times> 'm) option" where
  "same_future poll f rc m = map_option (\<lambda>(r, rc, m). (r, f, rc, m)) (poll f rc m)"

definition gone :: "nat \<Rightarrow> 'r call \<Rightarrow> 'r call" where
  "gone addr call = map_option (\<lambda>(r, rc, m). (r, rc, free_flag addr m)) call"

text \<open>\<open>maybe_await!\<close> of a request; a future keeps its flag at address 0 while it lives.\<close>

definition awaited :: "('f \<Rightarrow> ref_count \<Rightarrow> memory \<Rightarrow> 'r call) \<Rightarrow> ('r, 'f) maybe_future \<times> ref_count \<times> memory \<Rightarrow> 'r call" where
  "awaited await res = (case res of (mf, rc, m) \<Rightarrow>
     maybe_await (\<lambda>f. await f rc m) (map_maybe_future (\<lambda>h. Some (Inr h, rc, m)) id mf))"

definition await_ref :: "profile \<Rightarrow> ref_count \<Rightarrow> memory \<Rightarrow> ref_handle call" where
  "await_ref pr rc m = (case get_ref pr 0 rc m of (r, rc, m) \<Rightarrow>
     (case r of
        Inl e \<Rightarrow> Some (Inl e, rc, m)
      | Inr mf \<Rightarrow> awaited (\<lambda>f rc m. gone (ref_flag f) (awaits (same_future (poll_future_ref pr 0)) f rc m)) (mf, rc, m)))"

definition await_exclusive :: "profile \<Rightarrow> ref_count \<Rightarrow> memory \<Rightarrow> exclusive_handle call" where
  "await_exclusive pr rc m = awaited (awaits (poll_future_exclusive_ref pr 0)) (get_exclusive_ref 0 rc m)"

definition await_block :: "profile \<Rightarrow> ref_count \<Rightarrow> memory \<Rightarrow> unit call" where
  "await_block pr rc m =
     awaited (\<lambda>f rc m. gone (blocked_flag f) (awaits (same_future (poll_future_blocked_refs pr 0)) f rc m)) (block_refs 0 rc m)"

definition crate_ask :: "profile \<Rightarrow> request \<Rightarrow> crate \<Rightarrow> (handle option \<times> crate) ending" where
  "crate_ask pr r s = (case s of (rc, m) \<Rightarrow>
     (case r of
        Try_Ref \<Rightarrow> returned (map_option A_Ref) (case try_get_ref pr rc of (r, rc) \<Rightarrow> Some (r, rc, m))
      | Blocking_Ref \<Rightarrow> returned (\<lambda>h. Some (A_Ref h)) (map_option (\<lambda>(r, rc). (r, rc, m)) (blocking_get_ref pr rc))
      | Awaited_Ref \<Rightarrow> returned (\<lambda>h. Some (A_Ref h)) (await_ref pr rc m)
      | Try_Exclusive \<Rightarrow> returned (map_option An_Exclusive) (try_get_exclusive_ref pr rc m)
      | Blocking_Exclusive \<Rightarrow>
          returned (\<lambda>h. Some (An_Exclusive h)) (map_option (\<lambda>(r, rc). (r, rc, m)) (blocking_get_exclusive_ref pr rc))
      | Awaited_Exclusive \<Rightarrow> returned (\<lambda>h. Some (An_Exclusive h)) (await_exclusive pr rc m)
      | Awaited_Block \<Rightarrow> returned (\<lambda>_. Some A_Block) (await_block pr rc m)))"

definition observed :: "profile \<Rightarrow> observation \<Rightarrow> ref_count \<Rightarrow> (fault + bool) \<times> ref_count" where
  "observed pr ob rc = (case ob of
     Ref_Count_Is n \<Rightarrow> (case ref_total pr rc of (r, rc) \<Rightarrow> (map_sum id (\<lambda>k. k = n) r, rc))
   | No_Refs \<Rightarrow> no_refs pr rc
   | Standard_Is n \<Rightarrow> (case std_ref_count rc of (k, rc) \<Rightarrow> (Inr (k = n), rc))
   | No_Standard \<Rightarrow> (case no_standard_refs rc of (b, rc) \<Rightarrow> (Inr b, rc))
   | Raw_Is n \<Rightarrow> (case raw_state rc of (k, rc) \<Rightarrow> (Inr (k = n), rc))
   | Is_Blocked \<Rightarrow> (case is_blocked rc of (b, rc) \<Rightarrow> (Inr b, rc))
   | Is_Allowed \<Rightarrow> (case is_allowed rc of (b, rc) \<Rightarrow> (Inr b, rc))
   | State_Blocked \<Rightarrow> (case state rc of (r, rc) \<Rightarrow> (map_sum id state_is_blocked r, rc))
   | State_Allowed \<Rightarrow> (case state rc of (r, rc) \<Rightarrow> (map_sum id state_is_allowed r, rc)))"

definition crate_look :: "profile \<Rightarrow> observation \<Rightarrow> crate \<Rightarrow> (bool \<times> crate) ending" where
  "crate_look pr ob s = (case s of (rc, m) \<Rightarrow> returned id (case observed pr ob rc of (r, rc) \<Rightarrow> Some (r, rc, m)))"

definition crate_release :: "profile \<Rightarrow> handle \<Rightarrow> crate \<Rightarrow> crate ending" where
  "crate_release pr h s = (case s of (rc, m) \<Rightarrow>
     (case h of
        A_Ref r \<Rightarrow> Passes (drop_ref r rc, m)
      | An_Exclusive x \<Rightarrow> then_run (returned id (drop_exclusive pr x rc m)) (\<lambda>(_, s). Passes s)
      | A_Block \<Rightarrow> Passes s))"

definition crate_ops :: "profile \<Rightarrow> crate lock_ops" where
  "crate_ops pr = \<lparr>ask = crate_ask pr, look = crate_look pr, release = crate_release pr,
     block_now = (\<lambda>(rc, m). case try_block_refs rc of (ok, rc) \<Rightarrow> Passes (ok, rc, m)),
     unblock_now = (\<lambda>(rc, m). then_run (returned id (unblock_refs pr rc m)) (\<lambda>(_, s). Passes s))\<rparr>"

text \<open>A program on a new \<open>RefCount<C>\<close>; what remains is the word.\<close>

definition crate_program :: "profile \<Rightarrow> usize \<Rightarrow> command list \<Rightarrow> u32 ending" where
  "crate_program pr C cs = (case new_ref_count pr C of
     Inl _ \<Rightarrow> Fails
   | Inr rc \<Rightarrow> then_run (run_program (crate_ops pr) cs (rc, \<lparr>flags = (\<lambda>_. None), woken = []\<rparr>)) (\<lambda>s. Passes (cval (count (fst s)))))"

section \<open>The contract\<close>

text \<open>
  How many references are alive, and whether the lock is held, exclusively or by a block. A reference is given out while the lock is not held
  and the exclusive reference while it is not held and nobody has a reference; who waits for what only he could give up waits for ever. A
  misuse is: to have more references than the count can hold, to try for exclusive access next to references, to drop a reference
  that is not counted, and to open the lock while there are references.
\<close>

record tally =
  refs_alive :: nat
  held :: bool

definition ref_given :: "tally \<Rightarrow> (handle option \<times> tally) ending \<Rightarrow> (handle option \<times> tally) ending" where
  "ref_given t otherwise =
     (if refs_alive t \<ge> MAX_REFS then Misused
      else if held t then otherwise
      else Passes (Some (A_Ref Ref), t\<lparr>refs_alive := Suc (refs_alive t)\<rparr>))"

definition contract_ask :: "request \<Rightarrow> tally \<Rightarrow> (handle option \<times> tally) ending" where
  "contract_ask r t = (case r of
     Try_Ref \<Rightarrow> ref_given t (Passes (None, t))
   | Blocking_Ref \<Rightarrow> ref_given t Waits
   | Awaited_Ref \<Rightarrow> ref_given t Waits
   | Try_Exclusive \<Rightarrow>
       if held t then Passes (None, t)
       else if 0 < refs_alive t then Misused
       else Passes (Some (An_Exclusive ExclusiveRef), t\<lparr>held := True\<rparr>)
   | Blocking_Exclusive \<Rightarrow>
       if held t \<or> 0 < refs_alive t then Waits else Passes (Some (An_Exclusive ExclusiveRef), t\<lparr>held := True\<rparr>)
   | Awaited_Exclusive \<Rightarrow>
       if held t \<or> 0 < refs_alive t then Waits else Passes (Some (An_Exclusive ExclusiveRef), t\<lparr>held := True\<rparr>)
   | Awaited_Block \<Rightarrow> if held t then Waits else Passes (Some A_Block, t\<lparr>held := True\<rparr>))"

definition contract_look :: "observation \<Rightarrow> tally \<Rightarrow> (bool \<times> tally) ending" where
  "contract_look ob t = Passes ((case ob of
     Ref_Count_Is n \<Rightarrow> unat n = refs_alive t + of_bool (held t)
   | No_Refs \<Rightarrow> refs_alive t = 0 \<and> \<not> held t
   | Standard_Is n \<Rightarrow> unat n = refs_alive t
   | No_Standard \<Rightarrow> refs_alive t = 0
   | Raw_Is n \<Rightarrow> unat n = of_bool (held t)
   | Is_Blocked \<Rightarrow> held t
   | Is_Allowed \<Rightarrow> \<not> held t
   | State_Blocked \<Rightarrow> held t
   | State_Allowed \<Rightarrow> \<not> held t), t)"

definition opened :: "tally \<Rightarrow> tally ending" where
  "opened t = (if 0 < refs_alive t then Misused else Passes (t\<lparr>held := False\<rparr>))"

definition contract_release :: "handle \<Rightarrow> tally \<Rightarrow> tally ending" where
  "contract_release h t = (case h of
     A_Ref _ \<Rightarrow> if refs_alive t = 0 then Misused else Passes (t\<lparr>refs_alive := refs_alive t - 1\<rparr>)
   | An_Exclusive _ \<Rightarrow> opened t
   | A_Block \<Rightarrow> Passes t)"

definition contract_ops :: "tally lock_ops" where
  "contract_ops = \<lparr>ask = contract_ask, look = contract_look, release = contract_release,
     block_now = (\<lambda>t. Passes (\<not> held t, t\<lparr>held := True\<rparr>)), unblock_now = opened\<rparr>"

definition contract_program :: "command list \<Rightarrow> tally ending" where
  "contract_program cs = run_program contract_ops cs \<lparr>refs_alive = 0, held = False\<rparr>"

section \<open>The crate is as good as the contract\<close>

text \<open>A count that nobody disturbs stays one: the accesses of a call only use up what others are to do.\<close>

lemma calm_block: "try_block_cell c = (ok, c') \<Longrightarrow> cenv c = [] \<Longrightarrow> cenv c' = []"
  using env_used(1) [of c]
  by (auto simp: try_block_cell_def Let_def split: prod.splits attempt.splits dest!: env_used(3,4))

lemma calm_incr: "try_incr_cell pr c = (r, c') \<Longrightarrow> cenv c = [] \<Longrightarrow> cenv c' = []"
  using env_used(1) [of c]
  by (auto simp: try_incr_cell_def Let_def split: prod.splits sum.splits dest!: many_incr_uses)

lemma calm_calls:
  "try_block_refs rc = (ok, rc1) \<Longrightarrow> cenv (count rc) = [] \<Longrightarrow> cenv (count rc1) = []"
  "no_standard_refs rc = (ok, rc1) \<Longrightarrow> cenv (count rc) = [] \<Longrightarrow> rc1 = rc"
  "try_get_ref pr rc = (r, rc1) \<Longrightarrow> cenv (count rc) = [] \<Longrightarrow> cenv (count rc1) = []"
  "unblock_refs pr rc m = Some (u, rc1, m1) \<Longrightarrow> cenv (count rc) = [] \<Longrightarrow> cenv (count rc1) = []"
  by (auto simp: try_block_refs_def no_standard_refs_def std_ref_count_def load_count_def try_get_ref_def unblock_refs_def Let_def
      accesses_empty_env calm_block calm_incr split: prod.splits option.splits sum.splits dest: calm_block calm_incr)

lemma calm_await: "await_no_refs i rc = (ok, rc1) \<Longrightarrow> cenv (count rc) = [] \<Longrightarrow> rc1 = rc"
  by (induction i) (auto split: prod.splits if_splits dest: calm_calls(2))

lemma calm_try_exclusive:
  "try_get_exclusive_ref pr rc m = Some (r, rc1, m1) \<Longrightarrow> cenv (count rc) = [] \<Longrightarrow> cenv (count rc1) = []"
  by (auto simp: try_get_exclusive_ref_def simp del: await_no_refs.simps split: prod.splits if_splits dest!: calm_calls(1,4) calm_await)

lemma calm_blocking_ref:
  assumes "blocking_get_ref pr rc = Some (r, rc1)" "cenv (count rc) = []"
  shows "cenv (count rc1) = []"
proof -
  have loop: "cenv c = []"
    if "run_loop (\<lambda>s. Some (blocking_ref_pass pr s)) (x, y, bo, d) = Some (r, c)" "cenv d = []" for x y bo d r c
  proof -
    have "(\<lambda>(r, c). cenv c = []) (r, c)"
      by (rule run_loop_partial [where I = "\<lambda>(x, y, bo, c). cenv c = []", OF that(1)])
        (use that(2) in \<open>auto simp: blocking_ref_pass_def split: prod.splits sum.splits attempt.splits dest!: many_incr_uses\<close>)
    then show ?thesis by simp
  qed
  show ?thesis
    using assms by (auto simp: blocking_get_ref_def accesses_empty_env Let_def split: sum.splits dest!: loop)
qed

lemma calm_blocking_exclusive:
  assumes "blocking_get_exclusive_ref pr rc = Some (r, rc1)" "cenv (count rc) = []"
  shows "cenv (count rc1) = []"
proof -
  have block: "cenv (count p) = []"
    if "run_loop (\<lambda>s. Some (block_pass pr s)) (bo, d) = Some (r, p)" "cenv (count d) = []" for bo d r p
  proof -
    have "(\<lambda>(r, p). cenv (count p) = []) (r, p)"
      by (rule run_loop_partial [where I = "\<lambda>(bo, p). cenv (count p) = []", OF that(1)])
        (use that(2) in \<open>auto simp: block_pass_def split: prod.splits sum.splits if_splits dest: calm_calls(1)\<close>)
    then show ?thesis by simp
  qed
  have quiesce: "cenv (count p) = []"
    if "run_loop (\<lambda>s. Some (quiesce_pass pr s)) (bo, d) = Some (r, p)" "cenv (count d) = []" for bo d r p
  proof -
    have "(\<lambda>(r, p). cenv (count p) = []) (r, p)"
      by (rule run_loop_partial [where I = "\<lambda>(bo, p). cenv (count p) = []", OF that(1)])
        (use that(2) in \<open>auto simp: quiesce_pass_def split: prod.splits sum.splits if_splits dest: calm_calls(2)\<close>)
    then show ?thesis by simp
  qed
  show ?thesis
    using assms by (auto simp: blocking_get_exclusive_ref_def split: option.splits sum.splits prod.splits dest!: block quiesce)
qed

text \<open>A future that is pending and has not woken its task is never ready.\<close>

lemma awaits_pending:
  "poll f rc m = Some (Inr Pending, f', rc', m') \<Longrightarrow> woken m' = [] \<Longrightarrow> awaits poll f rc m = None"
  by (simp add: awaits_def run_loop.simps [of "await_pass poll" "(f, rc, m)"] await_pass_def)

text \<open>Nor is one that wakes its task at every poll, because the references it waits for are its own task's.\<close>

lemma awaits_references:
  assumes "rc_ok rc n True N ws" "0 < n" "blocked_fut f = None"
  shows "awaits (poll_future_exclusive_ref pr 0) f rc m = None"
  unfolding awaits_def
proof (rule run_loop_diverges [where I = "\<lambda>(f, rc, m). blocked_fut f = None \<and> rc_ok rc n True N ws"])
  fix s :: "future_exclusive_ref \<times> ref_count \<times> memory"
  assume "case s of (f, rc, m) \<Rightarrow> blocked_fut f = None \<and> rc_ok rc n True N ws"
  then obtain f rc m where s: "s = (f, rc, m)" "blocked_fut f = None" "rc_ok rc n True N ws" by auto
  from poll_excl_check [OF s(3,2), of pr 0 m] s(1,2) assms(2)
  show "\<exists>s'. await_pass (poll_future_exclusive_ref pr 0) s = Some (Again s') \<and>
      (case s' of (f, rc, m) \<Rightarrow> blocked_fut f = None \<and> rc_ok rc n True N ws)"
    by (auto simp: await_pass_def checked_def wake_task_def)
qed (use assms in simp)

text \<open>At rest: the word and the queue are as the contract says, nobody disturbs, no wake-up is under way.\<close>

definition at_rest :: "nat \<Rightarrow> crate \<Rightarrow> tally \<Rightarrow> bool" where
  "at_rest N s t \<longleftrightarrow> (case s of (rc, m) \<Rightarrow>
     0 < N \<and> rc_ok rc (refs_alive t) (held t) N [] \<and> cenv (count rc) = [] \<and> woken m = [])"

lemma calm_steady: "rc_ok rc n b N ws \<Longrightarrow> cenv (count rc) = [] \<Longrightarrow> steady (count rc)"
  by (simp add: steady_def rc_ok_def)

lemma await_ref_agrees:
  assumes "rc_ok rc n b N []" "0 < N" "cenv (count rc) = []" "woken m = []" "n < MAX_REFS"
  shows "if b then await_ref pr rc m = None
    else \<exists>rc1. await_ref pr rc m = Some (Inr Ref, rc1, m) \<and> rc_ok rc1 (Suc n) False N [] \<and> cenv (count rc1) = []"
proof (cases b)
  case True
  let ?m = "m\<lparr>flags := (flags m)(0 \<mapsto> False)\<rparr>"
  obtain rc1 where rc1: "get_ref pr 0 rc m = (Inr (Future \<lparr>ref_flag = 0\<rparr>), rc1, ?m)" "rc_ok rc1 n True N []"
    using get_ref_blocked [of rc n N "[]" pr 0 m] assms(1,5) True by auto
  obtain rc2 m2 where "poll_future_ref pr 0 \<lparr>ref_flag = 0\<rparr> rc1 ?m = Some (Inr Pending, rc2, m2)" "woken m2 = []"
    using poll_ref_blocked [OF rc1(2), of ?m "\<lparr>ref_flag = 0\<rparr>" False pr 0] assms(2,4) by (auto simp: registering_def)
  then have "awaits (same_future (poll_future_ref pr 0)) \<lparr>ref_flag = 0\<rparr> rc1 ?m = None"
    by (intro awaits_pending) (auto simp: same_future_def)
  with rc1(1) True show ?thesis by (simp add: await_ref_def awaited_def maybe_await_def gone_def)
next
  case False
  obtain c where c: "try_incr_cell pr (count rc) = (Inr True, c)" "quiet c" "cval c = word_state (Suc n) False"
    using try_incr_cell_free [OF calm_steady [OF assms(1,3)], of n pr] assms(1,5) False by (auto simp: rc_ok_def)
  with rc_okI [OF assms(1), of c "Suc n" False] calm_incr [OF c(1) assms(3)] assms(5) False show ?thesis
    by (auto simp: await_ref_def get_ref_def awaited_def maybe_await_def)
qed

lemma await_block_agrees:
  assumes "rc_ok rc n b N []" "0 < N" "cenv (count rc) = []" "woken m = []"
  shows "if b then await_block pr rc m = None
    else \<exists>rc1. await_block pr rc m = Some (Inr (), rc1, m) \<and> rc_ok rc1 n True N [] \<and> cenv (count rc1) = []"
proof (cases b)
  case True
  let ?m = "m\<lparr>flags := (flags m)(0 \<mapsto> False)\<rparr>"
  obtain rc1 where rc1: "try_block_refs rc = (False, rc1)" "rc_ok rc1 n True N []"
    using try_block_refs_blocked [of rc n N "[]"] assms(1) True by auto
  obtain rc2 m2 where "poll_future_blocked_refs pr 0 \<lparr>blocked_flag = 0\<rparr> rc1 ?m = Some (Inr Pending, rc2, m2)" "woken m2 = []"
    using poll_block_blocked [OF rc1(2), of ?m "\<lparr>blocked_flag = 0\<rparr>" False pr 0] assms(2,4) by (auto simp: registering_def)
  then have "awaits (same_future (poll_future_blocked_refs pr 0)) \<lparr>blocked_flag = 0\<rparr> rc1 ?m = None"
    by (intro awaits_pending) (auto simp: same_future_def)
  with rc1(1) True show ?thesis
    by (simp add: await_block_def block_refs_def new_future_blocked_refs_def awaited_def maybe_await_def gone_def)
next
  case False
  obtain rc1 where "try_block_refs rc = (True, rc1)" "rc_ok rc1 n True N []"
    using try_block_refs_free [of rc n N "[]", OF _ calm_steady [OF assms(1,3)]] assms(1) False by auto
  with calm_calls(1) [of rc True rc1] assms(3) False show ?thesis
    by (auto simp: await_block_def block_refs_def awaited_def maybe_await_def)
qed

lemma await_exclusive_agrees:
  assumes "rc_ok rc n b N []" "0 < N" "cenv (count rc) = []" "woken m = []"
  shows "if b \<or> 0 < n then await_exclusive pr rc m = None
    else \<exists>rc1. await_exclusive pr rc m = Some (Inr ExclusiveRef, rc1, m) \<and> rc_ok rc1 0 True N [] \<and> cenv (count rc1) = []"
proof (cases b)
  case True
  let ?m = "m\<lparr>flags := (flags m)(0 \<mapsto> False)\<rparr>" and ?f = "\<lparr>blocked_fut = Some \<lparr>blocked_flag = 0\<rparr>\<rparr>"
  obtain rc1 where rc1: "try_block_refs rc = (False, rc1)" "rc_ok rc1 n True N []"
    using try_block_refs_blocked [of rc n N "[]"] assms(1) True by auto
  obtain rc2 m2 where "poll_future_exclusive_ref pr 0 ?f rc1 ?m = Some (Inr Pending, ?f, rc2, m2)" "woken m2 = []"
    using poll_excl_blocked [OF rc1(2), of ?f "\<lparr>blocked_flag = 0\<rparr>" ?m False pr 0] assms(2,4) by (auto simp: registering_def)
  then have "awaits (poll_future_exclusive_ref pr 0) ?f rc1 ?m = None"
    by (rule awaits_pending)
  with rc1(1) True show ?thesis
    by (simp add: await_exclusive_def get_exclusive_ref_def new_future_blocked_refs_def new_future_exclusive_ref_def awaited_def maybe_await_def)
next
  case False
  obtain rc1 where rc1: "try_block_refs rc = (True, rc1)" "rc_ok rc1 n True N []"
    using try_block_refs_free [of rc n N "[]", OF _ calm_steady [OF assms(1,3)]] assms(1) False by auto
  moreover from this calm_calls(1) [of rc True rc1] assms(3) have env: "cenv (count rc1) = []" by simp
  moreover obtain rc2 where "no_standard_refs rc1 = (n = 0, rc2)" "rc_ok rc2 n True N []"
    using no_standard_refs_ok [OF rc1(2)] by auto
  moreover from this calm_calls(2) [OF this(1) env] have "rc2 = rc1" by simp
  ultimately show ?thesis
    using False awaits_references [OF rc1(2), of "\<lparr>blocked_fut = None\<rparr>" pr m]
    by (auto simp: await_exclusive_def get_exclusive_ref_def new_future_exclusive_ref_def awaited_def maybe_await_def)
qed

lemma ask_agrees:
  assumes "at_rest N s t"
  shows "agrees (related (at_rest N)) (crate_ask pr r s) (contract_ask r t)"
proof -
  obtain rc m where s: "s = (rc, m)" "0 < N" "rc_ok rc (refs_alive t) (held t) N []" "cenv (count rc) = []" "woken m = []"
    using assms by (auto simp: at_rest_def)
  note st = calm_steady [OF s(3,4)]
  show ?thesis
  proof (cases r)
    case Try_Ref
    then show ?thesis
      using s try_get_ref_free [of rc "refs_alive t" N "[]" pr, OF _ st] try_get_ref_blocked [of rc "refs_alive t" N "[]" pr]
      by (cases "held t") (auto simp: crate_ask_def contract_ask_def ref_given_def returned_def at_rest_def calm_calls(3) [of pr rc])
  next
    case Blocking_Ref
    then show ?thesis
      using s blocking_get_ref_returns [OF s(3), of pr]
      by (cases "held t") (auto simp: crate_ask_def contract_ask_def ref_given_def returned_def at_rest_def calm_blocking_ref [of pr rc])
  next
    case Awaited_Ref
    then show ?thesis
      using s await_ref_agrees [OF s(3,2,4,5), of pr]
      by (cases "held t") (auto simp: crate_ask_def contract_ask_def ref_given_def returned_def at_rest_def)
  next
    case Try_Exclusive
    then show ?thesis
      using s try_get_exclusive_ref_free [of rc N "[]" pr m, OF _ st] try_get_exclusive_ref_blocked [of rc "refs_alive t" N "[]" pr m]
      by (cases "held t") (auto simp: crate_ask_def contract_ask_def returned_def at_rest_def calm_try_exclusive [of pr rc m])
  next
    case Blocking_Exclusive
    then show ?thesis
      using s blocking_get_exclusive_ref_returns [OF s(3), of pr]
      by (cases "held t \<or> 0 < refs_alive t")
        (auto simp: crate_ask_def contract_ask_def returned_def at_rest_def calm_blocking_exclusive [of pr rc])
  next
    case Awaited_Exclusive
    then show ?thesis
      using s await_exclusive_agrees [OF s(3,2,4,5), of pr]
      by (cases "held t \<or> 0 < refs_alive t") (auto simp: crate_ask_def contract_ask_def returned_def at_rest_def)
  next
    case Awaited_Block
    then show ?thesis
      using s await_block_agrees [OF s(3,2,4,5), of pr]
      by (cases "held t") (auto simp: crate_ask_def contract_ask_def returned_def at_rest_def)
  qed
qed

lemma look_agrees:
  assumes "at_rest N s t"
  shows "agrees (related (at_rest N)) (crate_look pr ob s) (contract_look ob t)"
proof -
  obtain rc m where s: "s = (rc, m)" "rc_ok rc (refs_alive t) (held t) N []" "cenv (count rc) = []"
    using assms by (auto simp: at_rest_def)
  have same: "load_count rc = (cval (count rc), rc)" using s(3) by (simp add: load_count_def accesses_empty_env)
  have n: "refs_alive t \<le> MAX_REFS" and v: "cval (count rc) = word_state (refs_alive t) (held t)" using s(2) by (simp_all add: rc_ok_def)
  have un: "(word_of_nat k :: u32) = x \<longleftrightarrow> unat x = k" if "k < 2 ^ 32" for k and x :: u32
  proof -
    have "unat (word_of_nat k :: u32) = k" using that by (simp only: unat_of_nat) simp
    then show ?thesis by (auto simp: word_unat_eq_iff)
  qed
  have "refs_alive t + of_bool (held t) < 2 ^ 32" using n by (cases "held t") (simp_all add: MAX_REFS_def)
  then have eq: "\<And>x :: u32. word_of_nat (refs_alive t + of_bool (held t)) = x \<longleftrightarrow> unat x = refs_alive t + of_bool (held t)"
      "\<And>x :: u32. word_of_nat (refs_alive t) = x \<longleftrightarrow> unat x = refs_alive t"
    by (intro un; simp)+
  have raw: "raw_state rc = (of_bool (held t), rc)" using n by (simp add: raw_state_def same v block_state_word_state)
  have bit: "(of_bool (held t) :: u32) = x \<longleftrightarrow> unat x = of_bool (held t)" for x
    using un [of "of_bool (held t)" x] by (cases "held t") simp_all
  have snds: "snd (ref_total pr rc) = rc" "snd (no_refs pr rc) = rc" "snd (std_ref_count rc) = rc" "snd (no_standard_refs rc) = rc"
    "snd (is_blocked rc) = rc" "snd (is_allowed rc) = rc" "snd (state rc) = rc"
    by (simp_all add: ref_total_def no_refs_def std_ref_count_def no_standard_refs_def is_blocked_def is_allowed_def state_def raw_state_def same)
  note reads = observers_read_the_word [OF s(2), of pr]
  have all: "ref_total pr rc = (Inr (word_of_nat (refs_alive t + of_bool (held t))), rc)" "no_refs pr rc = (Inr (refs_alive t = 0 \<and> \<not> held t), rc)"
    "std_ref_count rc = (word_of_nat (refs_alive t), rc)" "no_standard_refs rc = (refs_alive t = 0, rc)"
    "is_blocked rc = (held t, rc)" "is_allowed rc = (\<not> held t, rc)" "state rc = (Inr (if held t then Blocked else Allowed), rc)"
    using reads snds unfolding prod_eq_iff fst_conv snd_conv by blast+
  have "observed pr ob rc = (Inr (fst (case contract_look ob t of Passes x \<Rightarrow> x)), rc)"
    by (cases ob) (simp_all add: observed_def contract_look_def all raw eq bit state_is_blocked_def state_is_allowed_def del: of_nat_add)
  then show ?thesis using assms s(1) by (auto simp: crate_look_def contract_look_def returned_def)
qed

lemma release_agrees:
  assumes "at_rest N s t"
  shows "agrees (at_rest N) (crate_release pr h s) (contract_release h t)"
proof -
  obtain rc m where s: "s = (rc, m)" "0 < N" "rc_ok rc (refs_alive t) (held t) N []" "cenv (count rc) = []" "woken m = []"
    using assms by (auto simp: at_rest_def)
  show ?thesis
  proof (cases h)
    case (A_Ref r)
    then show ?thesis
      using s drop_ref_ok [OF s(3), of r]
      by (auto simp: crate_release_def contract_release_def at_rest_def drop_ref_def fetch_sub_empty_env)
  next
    case (An_Exclusive x)
    then show ?thesis
      using s unblock_refs_ok [OF s(3), of m pr]
      by (auto simp: crate_release_def contract_release_def opened_def drop_exclusive_def at_rest_def returned_def calm_calls(4) [of pr rc])
  next
    case A_Block
    then show ?thesis using assms s(1) by (simp add: crate_release_def contract_release_def)
  qed
qed

lemma block_now_agrees:
  assumes "at_rest N s t"
  shows "agrees (related (at_rest N)) (block_now (crate_ops pr) s) (block_now contract_ops t)"
proof -
  obtain rc m where s: "s = (rc, m)" "0 < N" "rc_ok rc (refs_alive t) (held t) N []" "cenv (count rc) = []" "woken m = []"
    using assms by (auto simp: at_rest_def)
  show ?thesis
    using s try_block_refs_free [of rc "refs_alive t" N "[]", OF _ calm_steady [OF s(3,4)]] try_block_refs_blocked [of rc "refs_alive t" N "[]"]
    by (cases "held t") (auto simp: crate_ops_def contract_ops_def at_rest_def ex_bool_eq calm_calls(1) [of rc True] calm_calls(1) [of rc False])
qed

lemma unblock_now_agrees:
  assumes "at_rest N s t"
  shows "agrees (at_rest N) (unblock_now (crate_ops pr) s) (unblock_now contract_ops t)"
proof -
  obtain rc m where s: "s = (rc, m)" "0 < N" "rc_ok rc (refs_alive t) (held t) N []" "cenv (count rc) = []" "woken m = []"
    using assms by (auto simp: at_rest_def)
  show ?thesis
    using s unblock_refs_ok [OF s(3), of m pr]
    by (auto simp: crate_ops_def contract_ops_def opened_def at_rest_def returned_def calm_calls(4) [of pr rc])
qed

lemma ops_are [simp]:
  "ask (crate_ops pr) = crate_ask pr" "look (crate_ops pr) = crate_look pr" "release (crate_ops pr) = crate_release pr"
  "ask contract_ops = contract_ask" "look contract_ops = contract_look" "release contract_ops = contract_release"
  by (simp_all add: crate_ops_def contract_ops_def)

interpretation crate_provides: provider "crate_ops pr" contract_ops "at_rest N"
  by unfold_locales (simp_all add: ask_agrees look_agrees release_agrees block_now_agrees unblock_now_agrees)

lemma new_at_rest:
  assumes "C \<noteq> 0" "unat C < 2 ^ 63"
  obtains rc where "new_ref_count pr C = Inr rc"
    "at_rest (unat C) (rc, \<lparr>flags = (\<lambda>_. None), woken = []\<rparr>) \<lparr>refs_alive = 0, held = False\<rparr>"
proof -
  obtain rc where rc: "new_ref_count pr C = Inr rc" "rc_ok rc 0 False (unat C) []" using new_ref_count_ok [OF assms] by blast
  moreover have "cenv (count rc) = []" using rc(1) by (auto simp: new_ref_count_def new_cell_def split: sum.splits)
  moreover have "0 < unat C" using assms(1) by (simp add: unat_gt_0)
  ultimately show thesis using that by (simp add: at_rest_def)
qed

text \<open>A program on the contract is evaluated by \<open>simp\<close>.\<close>

lemmas on_the_contract = contract_program_def run_program_def contract_ask_def ref_given_def contract_look_def contract_release_def
  opened_def contract_ops_def MAX_REFS_def

text \<open>What the ending of a program on the contract says of the word.\<close>

definition word_left :: "tally ending \<Rightarrow> u32 ending" where
  "word_left e = map_ending (\<lambda>t. word_state (refs_alive t) (held t)) e"

lemma crate_runs_programs:
  assumes "C \<noteq> 0" "unat C < 2 ^ 63" "contract_program cs \<noteq> Misused"
  shows "crate_program pr C cs = word_left (contract_program cs)"
proof -
  obtain rc where rc: "new_ref_count pr C = Inr rc"
    "at_rest (unat C) (rc, \<lparr>flags = (\<lambda>_. None), woken = []\<rparr>) \<lparr>refs_alive = 0, held = False\<rparr>"
    using new_at_rest [OF assms(1,2)] by blast
  from crate_provides.programs_agree [OF rc(2), of pr cs] assms(3) rc(1) show ?thesis
    by (cases "contract_program cs")
      (auto simp: contract_program_def crate_program_def word_left_def at_rest_def rc_ok_def)
qed

section \<open>Property\<close>



end
