(* ===== verification/Doc_Examples.thy ===== *)
theory Doc_Examples
  imports Client_Programs
begin

text \<open>
  The examples in the documentation of \<open>src/lib.rs\<close>, \<open>src/futures.rs\<close> and \<open>src/array_queue.rs\<close>, which \<open>cargo test\<close> compiles and,
  unless they are the body of an async function, runs. Those of a \<open>RefCount\<close> are programs in the sense of \<open>Client_Programs\<close>, run on a
  \<open>RefCount<32>\<close>; those of the queue are lists of calls with the answers they assert.
\<close>

section \<open>The examples of lib.rs and futures.rs\<close>

definition maybe_await_example :: "command list" where
  "maybe_await_example = [Let_Be ''reference'' Awaited_Ref, Drop ''reference'']"

definition basic_example :: "command list" where
  "basic_example =
     [Let_Be ''reference'' Awaited_Ref, Drop ''reference'', Let_Be ''exclusive'' Awaited_Exclusive, Drop ''exclusive'']"

definition ref_count_example :: "command list" where
  "ref_count_example =
     [Let_Be ''reference'' Blocking_Ref, Asserts (Ref_Count_Is 1), Drop ''reference'',
      Let_Be ''exclusive'' Blocking_Exclusive, Asserts (Ref_Count_Is 1)]"

definition no_refs_example :: "command list" where
  "no_refs_example =
     [Let_Be ''reference'' Blocking_Ref, Asserts_Not No_Refs, Drop ''reference'', Asserts No_Refs,
      Let_Be ''exclusive'' Blocking_Exclusive, Asserts_Not No_Refs]"

definition standard_ref_count_example :: "command list" where
  "standard_ref_count_example =
     [Let_Be ''reference'' Blocking_Ref, Asserts (Standard_Is 1), Drop ''reference'',
      Let_Be ''exclusive'' Blocking_Exclusive, Asserts (Standard_Is 0)]"

definition no_standard_refs_example :: "command list" where
  "no_standard_refs_example =
     [Let_Be ''reference'' Blocking_Ref, Asserts_Not No_Standard, Drop ''reference'', Asserts No_Standard,
      Let_Be ''exclusive'' Blocking_Exclusive, Asserts No_Standard, Asserts_Not No_Refs]"

definition raw_state_example :: "command list" where
  "raw_state_example = [Asserts (Raw_Is 0), Let_Be ''exclusive'' Blocking_Exclusive, Asserts (Raw_Is 1)]"

definition is_blocked_example :: "command list" where
  "is_blocked_example = [Asserts_Not Is_Blocked, Let_Be ''exclusive'' Blocking_Exclusive, Asserts Is_Blocked]"

definition is_allowed_example :: "command list" where
  "is_allowed_example = [Asserts Is_Allowed, Let_Be ''exclusive'' Blocking_Exclusive, Asserts_Not Is_Allowed]"

definition state_example :: "command list" where
  "state_example = [Asserts State_Allowed, Let_Be ''exclusive'' Blocking_Exclusive, Asserts State_Blocked]"

definition try_block_refs_example :: "command list" where
  "try_block_refs_example = [If_Blocks [If_Seen No_Standard []], Unblock]"

definition try_block_refs_unsafe_example :: "command list" where
  "try_block_refs_unsafe_example = [If_Blocks []]"

definition block_refs_example :: "command list" where
  "block_refs_example = [Let_Be ''_'' Awaited_Block, If_Seen No_Standard [], Unblock]"

definition unblock_refs_example :: "command list" where
  "unblock_refs_example = [If_Blocks [Unblock]]"

definition unblock_refs_unsafe_example :: "command list" where
  "unblock_refs_unsafe_example = [Unblock, Let_Be ''exclusive'' Blocking_Exclusive, Unblock]"

definition get_exclusive_ref_example :: "command list" where
  "get_exclusive_ref_example =
     [Asserts State_Allowed, Let_Be ''exclusive'' Awaited_Exclusive, Asserts State_Blocked, Drop ''exclusive'', Asserts State_Allowed]"

definition get_exclusive_ref_deadlock :: "command list" where
  "get_exclusive_ref_deadlock = [Let_Be ''_first_exclusive'' Awaited_Exclusive, Let_Be ''_deadlock'' Awaited_Exclusive]"

definition try_get_exclusive_ref_example :: "command list" where
  "try_get_exclusive_ref_example =
     [Asserts State_Allowed, Let_Be ''exclusive'' Try_Exclusive, Asserts State_Blocked,
      Is_None Try_Ref, Is_None Try_Exclusive,
      Drop ''exclusive'', Asserts State_Allowed, Let_Be ''_a_ref'' Try_Ref, Is_None Try_Exclusive]"

definition blocking_get_exclusive_ref_example :: "command list" where
  "blocking_get_exclusive_ref_example = [Let_Be ''exclusive'' Blocking_Exclusive, Asserts Is_Blocked, Drop ''exclusive'']"

definition blocking_get_exclusive_ref_deadlock :: "command list" where
  "blocking_get_exclusive_ref_deadlock =
     [Let_Be ''first'' Blocking_Exclusive, Is_None Try_Exclusive, Drop ''first'',
      Let_Be ''first'' Blocking_Ref, Is_None Try_Exclusive, Drop ''first'']"

definition get_ref_example :: "command list" where
  "get_ref_example = [Let_Be ''standard_ref'' Awaited_Ref, Asserts (Ref_Count_Is 1), Drop ''standard_ref'', Asserts No_Refs]"

definition get_ref_deadlock :: "command list" where
  "get_ref_deadlock = [Let_Be ''exclusive'' Awaited_Exclusive, Let_Be ''deadlock'' Awaited_Ref]"

definition high_contention_example :: "command list" where
  "high_contention_example = [Let_Be ''standard_ref'' Awaited_Ref]"

definition try_get_ref_example :: "command list" where
  "try_get_ref_example =
     [Match_Some ''standard_ref'' Try_Ref [Asserts (Ref_Count_Is 1), Drop ''standard_ref''], Asserts No_Refs]"

definition blocking_get_ref_example :: "command list" where
  "blocking_get_ref_example =
     [Let_Be ''reference'' Blocking_Ref, Asserts (Ref_Count_Is 1), Asserts Is_Allowed, Drop ''reference'']"

definition blocking_get_ref_deadlock :: "command list" where
  "blocking_get_ref_deadlock = [Let_Be ''reference'' Blocking_Ref, Is_None Try_Exclusive, Drop ''reference'']"

definition ref_example :: "command list" where
  "ref_example = [Let_Be ''r'' Awaited_Ref, Drop ''r'']"

definition exclusive_ref_example :: "command list" where
  "exclusive_ref_example = [Let_Be ''e'' Awaited_Exclusive, Drop ''e'']"

definition state_enum_example :: "command list" where
  "state_enum_example = [Asserts State_Allowed, Let_Be ''exclusive'' Blocking_Exclusive, Asserts State_Blocked]"

text \<open>The arm for a future is a comment, and not taken.\<close>

definition maybe_future_example :: "command list" where
  "maybe_future_example = [Match_Some ''_ref'' Awaited_Ref []]"

definition maybe_future_await_example :: "command list" where
  "maybe_future_await_example = [Let_Be ''reference'' Awaited_Ref]"

definition sound_examples :: "command list list" where
  "sound_examples = [maybe_await_example, basic_example, ref_count_example, no_refs_example, standard_ref_count_example,
     no_standard_refs_example, raw_state_example, is_blocked_example, is_allowed_example, state_example, try_block_refs_example,
     block_refs_example, unblock_refs_example, unblock_refs_unsafe_example, get_exclusive_ref_example,
     blocking_get_exclusive_ref_example, get_ref_example, high_contention_example, try_get_ref_example, blocking_get_ref_example,
     ref_example, exclusive_ref_example, state_enum_example, maybe_future_example, maybe_future_await_example]"

definition deadlock_examples :: "command list list" where
  "deadlock_examples = [get_exclusive_ref_deadlock, get_ref_deadlock]"

definition wiping_examples :: "command list list" where
  "wiping_examples = [try_get_exclusive_ref_example, blocking_get_exclusive_ref_deadlock, blocking_get_ref_deadlock]"

text \<open>
  Every assertion of the examples holds and nothing faults; two of them wait for ever, as they say. They follow from the contract, which the crate
  keeps.
\<close>

lemmas doc_examples = maybe_await_example_def basic_example_def ref_count_example_def no_refs_example_def standard_ref_count_example_def
  no_standard_refs_example_def raw_state_example_def is_blocked_example_def is_allowed_example_def state_example_def
  try_block_refs_example_def try_block_refs_unsafe_example_def block_refs_example_def unblock_refs_example_def
  unblock_refs_unsafe_example_def get_exclusive_ref_example_def get_exclusive_ref_deadlock_def
  blocking_get_exclusive_ref_example_def get_ref_example_def get_ref_deadlock_def high_contention_example_def try_get_ref_example_def
  blocking_get_ref_example_def ref_example_def exclusive_ref_example_def state_enum_example_def maybe_future_example_def
  maybe_future_await_example_def

lemma sound_examples_end: "cs \<in> set sound_examples \<Longrightarrow> contract_program cs = Passes \<lparr>refs_alive = 0, held = False\<rparr>"
  unfolding sound_examples_def list.set insert_iff empty_iff
  by (elim disjE FalseE; simp add: doc_examples on_the_contract)

lemma deadlock_examples_end: "cs \<in> set deadlock_examples \<Longrightarrow> contract_program cs = Waits"
  unfolding deadlock_examples_def list.set insert_iff empty_iff
  by (elim disjE FalseE; simp add: doc_examples on_the_contract)

theorem examples_behave:
  "(\<forall>cs \<in> set sound_examples. crate_program pr 32 cs = Passes 0) \<and> (\<forall>cs \<in> set deadlock_examples. crate_program pr 32 cs = Waits) \<and>
   crate_program pr 32 try_block_refs_unsafe_example = Passes REF_BLOCKED"
proof -
  have "contract_program try_block_refs_unsafe_example = Passes \<lparr>refs_alive = 0, held = True\<rparr>"
    by (simp add: doc_examples on_the_contract)
  with sound_examples_end deadlock_examples_end show ?thesis
    by (simp add: crate_runs_programs word_left_def word_state_def REF_BLOCKED_def)
qed

text \<open>
  Three examples misuse the lock: they try for exclusive access next to a reference. Their assertions hold, but the word is left at minus one
  reference when that reference is dropped, so that their RefCount would never grant an exclusive reference again.
\<close>

lemma wiping_examples_wipe: "map (crate_program pr 32) wiping_examples = replicate 3 (Passes (word_state MAX_REFS False))"
proof -
  have "word_state MAX_REFS False = - REF_INCR" by (simp add: word_state_def MAX_REFS_def REF_INCR_def REF_COUNT_SHIFT_def)
  moreover have "map (crate_program pr 32) wiping_examples = replicate 3 (Passes (- REF_INCR))"
    by (cases pr; hypsubst; code_simp)
  ultimately show ?thesis by simp
qed

section \<open>The examples of array_queue.rs\<close>

datatype 'a queue_command =
    Push_Gives 'a "'a + unit"
  | Force_Gives 'a "'a option"
  | Pop_Gives "'a option"
  | Capacity_Is usize | Is_Empty bool | Is_Full bool | Len_Is usize

fun q_perform :: "profile \<Rightarrow> 'a queue_command \<Rightarrow> 'a array_queue \<Rightarrow> 'a array_queue option" where
  "q_perform pr (Push_Gives v r) q =
     (case push pr v q of Some (Inr x, q) \<Rightarrow> if x = r then Some q else None | _ \<Rightarrow> None)"
| "q_perform pr (Force_Gives v r) q =
     (case force_push pr v q of Some (Inr x, q) \<Rightarrow> if x = r then Some q else None | _ \<Rightarrow> None)"
| "q_perform pr (Pop_Gives r) q =
     (case pop pr q of Some (Inr x, q) \<Rightarrow> if x = r then Some q else None | _ \<Rightarrow> None)"
| "q_perform pr (Capacity_Is n) q = (if capacity q = n then Some q else None)"
| "q_perform pr (Is_Empty b) q = (case is_empty q of (x, q) \<Rightarrow> if x = b then Some q else None)"
| "q_perform pr (Is_Full b) q = (case is_full q of (x, q) \<Rightarrow> if x = b then Some q else None)"
| "q_perform pr (Len_Is n) q =
     (case len pr q of Some (Inr x, q) \<Rightarrow> if x = n then Some q else None | _ \<Rightarrow> None)"

fun q_perform_all :: "profile \<Rightarrow> 'a queue_command list \<Rightarrow> 'a array_queue \<Rightarrow> 'a array_queue option" where
  "q_perform_all pr [] q = Some q"
| "q_perform_all pr (c # cs) q = (case q_perform pr c q of None \<Rightarrow> None | Some q \<Rightarrow> q_perform_all pr cs q)"

definition q_passes :: "profile \<Rightarrow> usize \<Rightarrow> 'a queue_command list \<Rightarrow> bool" where
  "q_passes pr C cs = (case new_queue pr C of Inl _ \<Rightarrow> False | Inr q \<Rightarrow> q_perform_all pr cs q \<noteq> None)"

definition array_queue_example :: "profile \<Rightarrow> bool" where
  "array_queue_example pr = q_passes pr 2
     [Push_Gives CHR ''a'' (Inr ()), Push_Gives CHR ''b'' (Inr ()), Push_Gives CHR ''c'' (Inl CHR ''c''), Pop_Gives (Some CHR ''a'')]"

definition new_example :: "profile \<Rightarrow> bool" where
  "new_example pr = q_passes pr 3 ([] :: int queue_command list)"

definition push_example :: "profile \<Rightarrow> bool" where
  "push_example pr = q_passes pr 1 [Push_Gives (10 :: int) (Inr ()), Push_Gives 20 (Inl 20)]"

definition force_push_example :: "profile \<Rightarrow> bool" where
  "force_push_example pr = q_passes pr 2
     [Force_Gives (10 :: int) None, Force_Gives 20 None, Force_Gives 30 (Some 10), Pop_Gives (Some 20)]"

definition pop_example :: "profile \<Rightarrow> bool" where
  "pop_example pr = q_passes pr 32 [Push_Gives (10 :: int) (Inr ()), Pop_Gives (Some 10), Pop_Gives None]"

definition capacity_example :: "profile \<Rightarrow> bool" where
  "capacity_example pr = q_passes pr 100 [Capacity_Is 100 :: int queue_command]"

definition is_empty_example :: "profile \<Rightarrow> bool" where
  "is_empty_example pr = q_passes pr 4 [Is_Empty True, Push_Gives (1 :: int) (Inr ()), Is_Empty False]"

definition is_full_example :: "profile \<Rightarrow> bool" where
  "is_full_example pr = q_passes pr 1 [Is_Full False, Push_Gives (1 :: int) (Inr ()), Is_Full True]"

definition len_example :: "profile \<Rightarrow> bool" where
  "len_example pr = q_passes pr 3
     [Len_Is 0, Push_Gives (10 :: usize) (Inr ()), Len_Is 1, Push_Gives 20 (Inr ()), Len_Is 2]"

lemma queue_examples_pass:
  "array_queue_example pr \<and> new_example pr \<and> push_example pr \<and> force_push_example pr \<and> pop_example pr \<and> capacity_example pr \<and>
   is_empty_example pr \<and> is_full_example pr \<and> len_example pr"
  by (cases pr; hypsubst; code_simp)

text \<open>The tests smoke and len_empty_full of \<open>src/tests/array_queue.rs\<close> are such lists too, and zero_capacity panics.\<close>

definition smoke_test :: "profile \<Rightarrow> bool" where
  "smoke_test pr = q_passes pr 1
     [Push_Gives (7 :: int) (Inr ()), Pop_Gives (Some 7), Push_Gives 8 (Inr ()), Pop_Gives (Some 8), Pop_Gives None]"

definition len_empty_full_test :: "profile \<Rightarrow> bool" where
  "len_empty_full_test pr = q_passes pr 2
     [Len_Is 0, Is_Empty True, Is_Full False, Push_Gives () (Inr ()),
      Len_Is 1, Is_Empty False, Is_Full False, Push_Gives () (Inr ()),
      Len_Is 2, Is_Empty False, Is_Full True, Pop_Gives (Some ()),
      Len_Is 1, Is_Empty False, Is_Full False]"

definition zero_capacity_test :: "profile \<Rightarrow> bool" where
  "zero_capacity_test pr \<longleftrightarrow> (case new_queue pr 0 :: fault + int array_queue of Inl e \<Rightarrow> e = Assert_Failed | Inr _ \<Rightarrow> False)"

lemma queue_tests_pass: "smoke_test pr \<and> len_empty_full_test pr \<and> zero_capacity_test pr"
  by (cases pr; hypsubst; code_simp)

end
